(* ===== verification/Prelude.thy ===== *)
theory Prelude
  imports Main "HOL-Library.Word"
begin

text \<open>
  Shared vocabulary of the development: machine integers at the widths the C code uses, the byte
  addressed physical memory with its little-endian accessors, the result type of operations that
  can halt the machine, and the generic lemmas on words, lists and pointer walks that the
  component theories rely on.
\<close>

unbundle bit_operations_syntax

type_synonym u8 = "8 word"
type_synonym u16 = "16 word"
type_synonym u32 = "32 word"
type_synonym u64 = "64 word"

text \<open>
  \<open>mem_simps\<close> collects the read-over-write equations of memory; \<open>word_nat\<close> the
  equations that move word arithmetic to natural numbers.
\<close>

named_theorems mem_simps
named_theorems word_nat

section \<open>Port output\<close>

text \<open>What the kernel writes to I/O ports, in order.\<close>

datatype port_write = OutB u16 u8 | OutW u16 u16

type_synonym io_log = "port_write list"

section \<open>Results\<close>

text \<open>
  The ways an operation fails to return to its caller: a kernel panic (\<open>kpanic\<close> prints its
  message and halts the CPU), a dereference of a pointer at which no live object is stored, an
  access to a virtual address that is not mapped, and a loop that never ends.
\<close>

datatype kerror = Panic string | BadPtr u32 | PageFault u32 | NoReturn

type_synonym 'a res = "kerror + 'a"

definition bindR :: "'a res \<Rightarrow> ('a \<Rightarrow> 'b res) \<Rightarrow> 'b res" where
  "bindR r f = (case r of Inl e \<Rightarrow> Inl e | Inr x \<Rightarrow> f x)"

lemma bindR_simps [simp]:
  "bindR (Inl e) f = Inl e"
  "bindR (Inr x) f = f x"
  by (simp_all add: bindR_def)

lemma bindR_Inr_iff: "bindR r f = Inr y \<longleftrightarrow> (\<exists>x. r = Inr x \<and> f x = Inr y)"
  by (cases r) auto

text \<open>
  A walk along C pointers that takes more steps than there are 32-bit pointers has come back to a
  pointer it visited before. With memory unchanged it then never ends, so this many steps of fuel
  are enough for every walk that does end.
\<close>

definition walk_fuel :: nat where
  "walk_fuel = 2 ^ 32"

lemma length_distinct_u32: "distinct (xs :: u32 list) \<Longrightarrow> length xs \<le> walk_fuel"
proof -
  assume "distinct xs"
  then have "length xs = card (set xs)" by (simp add: distinct_card)
  also have "\<dots> \<le> card (UNIV :: u32 set)" by (intro card_mono) auto
  also have "\<dots> = walk_fuel" by (simp add: card_word walk_fuel_def)
  finally show ?thesis .
qed

lemma length_distinct_nonzero_u32:
  assumes "distinct (xs :: u32 list)" and "0 \<notin> set xs"
  shows "length xs < walk_fuel"
  using length_distinct_u32 [of "0 # xs"] assms by simp

lemma walk_bound:
  fixes p :: u32 and nxt :: "u32 \<Rightarrow> u32"
  assumes "stop ((nxt ^^ n) p)" "\<And>i. i < n \<Longrightarrow> \<not> stop ((nxt ^^ i) p)"
  shows "n < walk_fuel"
proof -
  have neq: "(nxt ^^ i) p \<noteq> (nxt ^^ j) p" if "i < j" "j \<le> n" for i j
  proof
    assume eq: "(nxt ^^ i) p = (nxt ^^ j) p"
    have "(nxt ^^ (n - j + i)) p = (nxt ^^ (n - j)) ((nxt ^^ j) p)"
      by (simp add: funpow_add eq)
    also have "\<dots> = (nxt ^^ (n - j + j)) p" by (simp only: funpow_add o_apply)
    also have "\<dots> = (nxt ^^ n) p" using that by simp
    finally have "stop ((nxt ^^ (n - j + i)) p)" using assms(1) by simp
    moreover have "n - j + i < n" using that by simp
    ultimately show False using assms(2) by blast
  qed
  have "inj_on (\<lambda>i. (nxt ^^ i) p) {0..<Suc n}"
  proof (rule inj_onI)
    fix i j assume "i \<in> {0..<Suc n}" "j \<in> {0..<Suc n}" "(nxt ^^ i) p = (nxt ^^ j) p"
    then show "i = j" using neq [of i j] neq [of j i] by (cases i j rule: linorder_cases) auto
  qed
  then have "distinct (map (\<lambda>i. (nxt ^^ i) p) [0..<Suc n])"
    by (simp only: distinct_map distinct_upt set_upt)
  from length_distinct_u32 [OF this] have "Suc n \<le> walk_fuel" by simp
  then show ?thesis by simp
qed

lemma funpow_Suc_app: "(f ^^ Suc n) x = (f ^^ n) (f x)"
  by (simp only: funpow_Suc_right o_apply)

section \<open>Words\<close>

lemma unat_u32_less: "unat (v :: u32) < 2 ^ 32"
  using unsigned_less [of v] by simp

lemma sint_u32: "sint (v :: u32) = (if unat v < 2 ^ 31 then uint v else uint v - 2 ^ 32)"
proof -
  have b: "0 \<le> uint v" "uint v < 2 ^ 32" by simp (use uint_lt2p [of v] in simp)
  have lt: "unat v < 2 ^ 31 \<longleftrightarrow> uint v < 2 ^ 31" by (simp add: nat_less_iff flip: nat_uint_eq)
  have s: "sint v = signed_take_bit 31 (uint v)" by (simp add: sint_uint)
  show ?thesis
  proof (cases "uint v < 2 ^ 31")
    case True
    then have "signed_take_bit 31 (uint v) = uint v"
      using b by (intro signed_take_bit_int_eq_self) linarith+
    then show ?thesis using True s lt by simp
  next
    case False
    have "take_bit 32 (uint v - 2 ^ 32) = take_bit 32 (uint v)"
      by (simp add: take_bit_eq_mod)
    then have "signed_take_bit 31 (uint v) = signed_take_bit 31 (uint v - 2 ^ 32)"
      by (simp add: signed_take_bit_eq_iff_take_bit_eq)
    also have "\<dots> = uint v - 2 ^ 32"
      using False b by (intro signed_take_bit_int_eq_self) simp_all
    finally show ?thesis using False s lt by simp
  qed
qed

lemma sint_u32_neg_iff: "sint (v :: u32) < 0 \<longleftrightarrow> 2 ^ 31 \<le> unat v"
  using uint_lt2p [of v] by (auto simp: sint_u32 not_less)

lemma sint_u32_pos_iff: "0 < sint (v :: u32) \<longleftrightarrow> 0 < unat v \<and> unat v < 2 ^ 31"
  using uint_nat [of v] unat_u32_less [of v] by (auto simp: sint_u32 simp del: of_nat_unat)

lemma abs_sint_u32: "nat \<bar>sint (v :: u32)\<bar> = (if unat v < 2 ^ 31 then unat v else 2 ^ 32 - unat v)"
  using uint_lt2p [of v] by (simp add: sint_u32 nat_diff_distrib abs_if)

lemma unat_uminus_u32: "unat (v :: u32) \<noteq> 0 \<Longrightarrow> unat (- v) = 2 ^ 32 - unat v"
proof -
  assume v: "unat v \<noteq> 0"
  have "(unat v + unat (- v)) mod 2 ^ 32 = unat (v + - v)"
    by (simp only: unat_word_ariths) simp
  then obtain k where k: "unat v + unat (- v) = 2 ^ 32 * k" by (auto simp: mod_eq_0_iff_dvd elim!: dvdE)
  then have "2 ^ 32 * k < 2 ^ 32 * 2" using unat_u32_less [of v] unat_u32_less [of "- v"] by linarith
  then have "k < 2" by simp
  moreover have "k \<noteq> 0" using k v by (cases k) auto
  ultimately have "k = 1" by simp
  with k show ?thesis by simp
qed

section \<open>Byte addressed memory\<close>

type_synonym mem = "u32 \<Rightarrow> u8"

definition load16 :: "mem \<Rightarrow> u32 \<Rightarrow> u16" where
  "load16 m a = ucast (m a) OR push_bit 8 (ucast (m (a + 1)))"

definition load32 :: "mem \<Rightarrow> u32 \<Rightarrow> u32" where
  "load32 m a = ucast (m a) OR push_bit 8 (ucast (m (a + 1)))
     OR push_bit 16 (ucast (m (a + 2))) OR push_bit 24 (ucast (m (a + 3)))"

definition load64 :: "mem \<Rightarrow> u32 \<Rightarrow> u64" where
  "load64 m a = ucast (load32 m a) OR push_bit 32 (ucast (load32 m (a + 4)))"

definition store32 :: "u32 \<Rightarrow> u32 \<Rightarrow> mem \<Rightarrow> mem" where
  "store32 a v m = m(a := ucast v, a + 1 := ucast (drop_bit 8 v),
     a + 2 := ucast (drop_bit 16 v), a + 3 := ucast (drop_bit 24 v))"

definition aligned :: "nat \<Rightarrow> u32 \<Rightarrow> bool" where
  "aligned n a \<longleftrightarrow> n dvd unat a"

lemma unat_add_nowrap: "unat (a :: u32) + unat b < 2 ^ 32 \<Longrightarrow> unat (a + b) = unat a + unat b"
  by (simp add: unat_word_ariths)

lemma unat_sub_nowrap: "unat (b :: u32) \<le> unat a \<Longrightarrow> unat (a - b) = unat a - unat b"
  by (simp add: unat_sub word_le_nat_alt)

lemma unat_of_nat_u32: "n < 2 ^ 32 \<Longrightarrow> unat (of_nat n :: u32) = n"
  by (simp add: unat_of_nat take_bit_eq_mod)

lemma aligned4_room: "aligned 4 a \<Longrightarrow> unat a + 3 < 2 ^ 32"
proof -
  assume "aligned 4 a"
  then obtain k where k: "unat a = 4 * k" by (auto simp: aligned_def)
  moreover have "unat a < 2 ^ 32" using unsigned_less [of a] by simp
  ultimately show ?thesis by simp
qed

lemma aligned4_unat_add:
  assumes "aligned 4 a"
  shows "unat (a + 1) = unat a + 1" "unat (a + 2) = unat a + 2" "unat (a + 3) = unat a + 3"
  using aligned4_room [OF assms] by (simp_all add: unat_add_nowrap)

lemma load32_store32_same [simp, mem_simps]: "load32 (store32 a v m) a = v"
proof (rule bit_word_eqI)
  fix n :: nat
  assume "n < LENGTH(32)"
  then consider "n < 8" | "8 \<le> n" "n < 16" | "16 \<le> n" "n < 24" | "24 \<le> n" "n < 32" by force
  then show "bit (load32 (store32 a v m) a) n \<longleftrightarrow> bit v n"
    by cases (auto simp: load32_def store32_def bit_simps)
qed

lemma store32_outside [mem_simps]:
  assumes "aligned 4 a" and "unat x < unat a \<or> unat a + 4 \<le> unat x"
  shows "store32 a v m x = m x"
proof -
  have "x \<noteq> a" "x \<noteq> a + 1" "x \<noteq> a + 2" "x \<noteq> a + 3"
    using assms(2) aligned4_unat_add [OF assms(1)] by auto
  then show ?thesis by (simp add: store32_def)
qed

lemma load32_cong:
  assumes "m a = m' a" "m (a + 1) = m' (a + 1)" "m (a + 2) = m' (a + 2)" "m (a + 3) = m' (a + 3)"
  shows "load32 m a = load32 m' a"
  using assms by (simp add: load32_def)

lemma load32_cong_range:
  assumes "aligned 4 a" and "\<And>x. unat a \<le> unat x \<Longrightarrow> unat x < unat a + 4 \<Longrightarrow> m x = m' x"
  shows "load32 m a = load32 m' a"
  by (rule load32_cong) (auto intro!: assms(2) simp: aligned4_unat_add [OF assms(1)])

lemma aligned4_apart: "aligned 4 a \<Longrightarrow> aligned 4 b \<Longrightarrow> a \<noteq> b \<Longrightarrow> unat a + 4 \<le> unat b \<or> unat b + 4 \<le> unat a"
proof -
  assume "aligned 4 a" "aligned 4 b" "a \<noteq> b"
  moreover from \<open>a \<noteq> b\<close> have "unat a \<noteq> unat b" by (simp add: word_unat_eq_iff)
  ultimately show ?thesis unfolding aligned_def by (auto elim!: dvdE)
qed

lemma load32_store32_other [mem_simps]:
  assumes "aligned 4 a" "aligned 4 b" "a \<noteq> b"
  shows "load32 (store32 a v m) b = load32 m b"
  using aligned4_apart [OF assms] by (intro load32_cong_range assms store32_outside) auto

lemma load32_zero [simp]: "load32 (\<lambda>_. 0) a = 0"
  by (simp add: load32_def)

lemma aligned4_numeral [simp]: "aligned 4 (numeral n) \<longleftrightarrow> (4 :: nat) dvd unat (numeral n :: u32)"
  by (simp add: aligned_def)

text \<open>Two memories agree on a set of addresses.\<close>

definition agree :: "nat set \<Rightarrow> mem \<Rightarrow> mem \<Rightarrow> bool" where
  "agree X m m' \<longleftrightarrow> (\<forall>x. unat x \<in> X \<longrightarrow> m x = m' x)"

lemma agree_refl [simp]: "agree X m m" by (simp add: agree_def)

lemma agree_trans: "agree X m m' \<Longrightarrow> agree X m' m'' \<Longrightarrow> agree X m m''"
  by (simp add: agree_def)

lemma agree_subset: "agree X m m' \<Longrightarrow> Y \<subseteq> X \<Longrightarrow> agree Y m m'"
  by (auto simp: agree_def)

lemma agree_store32: "aligned 4 a \<Longrightarrow> X \<inter> {unat a..<unat a + 4} = {} \<Longrightarrow> agree X (store32 a v m) m"
  by (auto simp: agree_def intro!: store32_outside)

lemma agree_load32: "agree X m m' \<Longrightarrow> aligned 4 a \<Longrightarrow> {unat a..<unat a + 4} \<subseteq> X \<Longrightarrow> load32 m a = load32 m' a"
  by (rule load32_cong_range) (auto simp: agree_def)

end
