(* ===== verification/Vga.thy ===== *)
theory Vga
  imports Prelude
begin

text \<open>
  The text console of \<open>kernel/vga.c\<close>: an 80 by 25 frame buffer of character/attribute cells,
  the cursor and the current attribute. C strings are byte lists that end at their first NUL.
  The lemmas show that the cursor never leaves the screen, so that every store into the frame
  buffer is in range, that scrolling moves the screen up by one line, and which characters the
  number printers emit.
\<close>

section \<open>Model\<close>

type_synonym cstring = "u8 list"

definition lit :: "string \<Rightarrow> cstring" where
  "lit s = map of_char s"

definition VGA_COLS :: nat where "VGA_COLS = 80"
definition VGA_ROWS :: nat where "VGA_ROWS = 25"

record vga =
  vga_buf :: "u16 list"
  vga_row :: nat
  vga_col :: nat
  vga_color :: u8

definition vga_make_color :: "u8 \<Rightarrow> u8 \<Rightarrow> u8" where
  "vga_make_color fg bg = fg OR push_bit 4 bg"

text \<open>\<open>char\<close> is signed on this target, so the conversion to 16 bits extends the sign.\<close>

definition vga_make_entry :: "u8 \<Rightarrow> u8 \<Rightarrow> u16" where
  "vga_make_entry c color = scast c OR push_bit 8 (ucast color)"

definition VGA_COLOR_BLACK :: u8 where "VGA_COLOR_BLACK = 0"
definition VGA_COLOR_RED :: u8 where "VGA_COLOR_RED = 4"
definition VGA_COLOR_LIGHT_GREY :: u8 where "VGA_COLOR_LIGHT_GREY = 7"
definition VGA_COLOR_LIGHT_GREEN :: u8 where "VGA_COLOR_LIGHT_GREEN = 10"
definition VGA_COLOR_LIGHT_CYAN :: u8 where "VGA_COLOR_LIGHT_CYAN = 11"
definition VGA_COLOR_LIGHT_RED :: u8 where "VGA_COLOR_LIGHT_RED = 12"
definition VGA_COLOR_YELLOW :: u8 where "VGA_COLOR_YELLOW = 14"
definition VGA_COLOR_WHITE :: u8 where "VGA_COLOR_WHITE = 15"

definition scroll_row :: "nat \<Rightarrow> u16 list \<Rightarrow> u16 list" where
  "scroll_row y buf =
     fold (\<lambda>x b. b[(y - 1) * VGA_COLS + x := b ! (y * VGA_COLS + x)]) [0..<VGA_COLS] buf"

definition fill_row :: "u16 \<Rightarrow> nat \<Rightarrow> u16 list \<Rightarrow> u16 list" where
  "fill_row e y buf = fold (\<lambda>x b. b[y * VGA_COLS + x := e]) [0..<VGA_COLS] buf"

definition vga_scroll :: "vga \<Rightarrow> vga" where
  "vga_scroll s = s\<lparr>vga_buf := fill_row (vga_make_entry (of_char CHR '' '') (vga_color s)) (VGA_ROWS - 1)
       (fold scroll_row [1..<VGA_ROWS] (vga_buf s)),
     vga_row := VGA_ROWS - 1\<rparr>"

definition vga_init :: "vga \<Rightarrow> vga" where
  "vga_init s = (let color = vga_make_color VGA_COLOR_LIGHT_GREY VGA_COLOR_BLACK in
     s\<lparr>vga_color := color,
       vga_buf := fold (fill_row (vga_make_entry (of_char CHR '' '') color)) [0..<VGA_ROWS] (vga_buf s),
       vga_row := 0, vga_col := 0\<rparr>)"

definition vga_set_color :: "u8 \<Rightarrow> vga \<Rightarrow> vga" where
  "vga_set_color fg s = s\<lparr>vga_color := vga_make_color fg VGA_COLOR_BLACK\<rparr>"

definition vga_cell_put :: "u8 \<Rightarrow> vga \<Rightarrow> vga" where
  "vga_cell_put c s = s\<lparr>vga_buf :=
     (vga_buf s)[vga_row s * VGA_COLS + vga_col s := vga_make_entry c (vga_color s)]\<rparr>"

definition vga_next_row :: "vga \<Rightarrow> vga" where
  "vga_next_row s = (let s1 = s\<lparr>vga_col := 0, vga_row := vga_row s + 1\<rparr> in
     if vga_row s1 = VGA_ROWS then vga_scroll s1 else s1)"

definition vga_putchar :: "u8 \<Rightarrow> vga \<Rightarrow> vga" where
  "vga_putchar c s =
     (if c = of_char CHR 0x08 then
        vga_cell_put (of_char CHR '' '')
          (if vga_col s > 0 then s\<lparr>vga_col := vga_col s - 1\<rparr>
           else if vga_row s > 0 then s\<lparr>vga_row := vga_row s - 1, vga_col := VGA_COLS - 1\<rparr>
           else s)
      else if c = of_char CHR 0x0A then vga_next_row s
      else
        (let s1 = vga_cell_put c s; s2 = s1\<lparr>vga_col := vga_col s1 + 1\<rparr> in
         if vga_col s2 = VGA_COLS then vga_next_row s2 else s2))"

fun kprint :: "cstring \<Rightarrow> vga \<Rightarrow> vga" where
  "kprint [] s = s"
| "kprint (c # cs) s = (if c = 0 then s else kprint cs (vga_putchar c s))"

definition hex_digit :: "u8 \<Rightarrow> u8" where
  "hex_digit nibble = (if nibble < 10 then of_char CHR ''0'' + nibble else of_char CHR ''A'' + nibble - 10)"

fun hex_loop :: "nat \<Rightarrow> u32 \<Rightarrow> u8 list \<Rightarrow> u8 list" where
  "hex_loop 0 val buf = buf"
| "hex_loop (Suc i) val buf = hex_loop i (drop_bit 4 val) (buf[i := hex_digit (ucast (val AND 0xF))])"

definition kprint_hex :: "u32 \<Rightarrow> vga \<Rightarrow> vga" where
  "kprint_hex val s = fold vga_putchar (hex_loop 8 val (replicate 8 0)) (kprint (lit ''0x'') s)"

text \<open>The digit loop of \<open>kprint_int\<close>: least significant digit first, while the signed value is positive.\<close>

function int_loop :: "u32 \<Rightarrow> u8 list \<Rightarrow> u8 list" where
  "int_loop val buf =
     (if 0 < sint val then int_loop (val div 10) (buf @ [of_char CHR ''0'' + ucast (val mod 10)]) else buf)"
  by pat_completeness auto
termination
proof (relation "measure (\<lambda>(val, buf). unat val)")
  fix val :: u32 and buf :: "u8 list"
  assume "0 < sint val"
  then have "unat val \<noteq> 0" by (metis sint_0 less_irrefl unat_eq_0)
  then show "((val div 10, buf @ [of_char CHR ''0'' + ucast (val mod 10)]), val, buf) \<in> measure (\<lambda>(val, buf). unat val)"
    by (simp add: unat_div)
qed simp

declare int_loop.simps [simp del]

definition kprint_int :: "u32 \<Rightarrow> vga \<Rightarrow> vga" where
  "kprint_int val s =
     (let (val, s) = (if sint val < 0 then (- val, vga_putchar (of_char CHR ''-'') s) else (val, s)) in
      if val = 0 then vga_putchar (of_char CHR ''0'') s
      else fold vga_putchar (rev (int_loop val [])) s)"

text \<open>What \<open>kpanic\<close> leaves on the screen before it halts the CPU.\<close>

definition kpanic :: "string \<Rightarrow> string \<Rightarrow> vga \<Rightarrow> vga" where
  "kpanic msg detail s =
     kprint (lit ''\<newline>--- System Halted ---\<newline>'')
       (kprint (lit detail) (kprint (lit msg) (kprint (lit ''\<newline>[KERNEL PANIC] '')
         (vga_set_color VGA_COLOR_RED s))))"

definition vga_get_col :: "vga \<Rightarrow> u8" where "vga_get_col s = of_nat (vga_col s)"
definition vga_get_row :: "vga \<Rightarrow> u8" where "vga_get_row s = of_nat (vga_row s)"

section \<open>The cursor stays on the screen\<close>

lemmas vga_dims = VGA_COLS_def VGA_ROWS_def

definition vga_inv :: "vga \<Rightarrow> bool" where
  "vga_inv s \<longleftrightarrow> length (vga_buf s) = VGA_ROWS * VGA_COLS \<and> vga_row s < VGA_ROWS \<and> vga_col s < VGA_COLS"

lemma fold_list_update_length [simp]:
  "(\<And>x b. length (f x b) = length b) \<Longrightarrow> length (fold f xs b) = length b"
  by (induction xs arbitrary: b) auto

lemma length_scroll_row [simp]: "length (scroll_row y b) = length b"
  by (simp add: scroll_row_def)

lemma length_fill_row [simp]: "length (fill_row e y b) = length b"
  by (simp add: fill_row_def)

lemma scroll_row_nth:
  assumes "0 < y" "y * VGA_COLS + VGA_COLS \<le> length b" "i < length b"
  shows "scroll_row y b ! i =
     (if (y - 1) * VGA_COLS \<le> i \<and> i < y * VGA_COLS then b ! (i + VGA_COLS) else b ! i)"
proof -
  obtain z where y: "y = Suc z" using assms(1) by (cases y) auto
  have "fold (\<lambda>x b. b[z * VGA_COLS + x := b ! (y * VGA_COLS + x)]) [0..<n] b ! i =
     (if z * VGA_COLS \<le> i \<and> i < z * VGA_COLS + n then b ! (i + VGA_COLS) else b ! i)"
    if "n \<le> VGA_COLS" "i < length b" for n i
    using that
  proof (induction n arbitrary: i)
    case 0
    then show ?case by auto
  next
    case (Suc n)
    let ?b = "fold (\<lambda>x b. b[z * VGA_COLS + x := b ! (y * VGA_COLS + x)]) [0..<n] b"
    have len: "length ?b = length b" by simp
    have "?b ! (y * VGA_COLS + n) = b ! (y * VGA_COLS + n)"
      using Suc.prems assms(2) by (subst Suc.IH) (auto simp: y)
    then show ?case
      using Suc.prems Suc.IH [of i] len assms(2) by (auto simp: nth_list_update y algebra_simps)
  qed
  from this [of VGA_COLS i] assms(3) show ?thesis
    by (simp add: scroll_row_def y algebra_simps)
qed

lemma fold_scroll_row_nth:
  assumes "n < VGA_ROWS" "length b = VGA_ROWS * VGA_COLS" "i < length b"
  shows "fold scroll_row [1..<Suc n] b ! i = (if i < n * VGA_COLS then b ! (i + VGA_COLS) else b ! i)"
  using assms
proof (induction n arbitrary: i)
  case 0
  then show ?case by simp
next
  case (Suc n)
  have bound: "Suc n * VGA_COLS + VGA_COLS \<le> length b"
    using Suc.prems by (simp add: vga_dims)
  have "fold scroll_row [1..<Suc (Suc n)] b ! i = scroll_row (Suc n) (fold scroll_row [1..<Suc n] b) ! i"
    by simp
  also have "\<dots> = (if n * VGA_COLS \<le> i \<and> i < Suc n * VGA_COLS
       then fold scroll_row [1..<Suc n] b ! (i + VGA_COLS) else fold scroll_row [1..<Suc n] b ! i)"
    using bound Suc.prems by (subst scroll_row_nth) (auto simp del: upt_Suc One_nat_def)
  also have "\<dots> = (if i < Suc n * VGA_COLS then b ! (i + VGA_COLS) else b ! i)"
    using Suc.prems bound by (auto simp: Suc.IH simp del: upt_Suc One_nat_def)
  finally show ?case .
qed

lemma fill_row_nth:
  assumes "i < length b"
  shows "fill_row e y b ! i = (if y * VGA_COLS \<le> i \<and> i < y * VGA_COLS + VGA_COLS then e else b ! i)"
proof -
  have "fold (\<lambda>x b. b[y * VGA_COLS + x := e]) [0..<n] b ! i =
     (if y * VGA_COLS \<le> i \<and> i < y * VGA_COLS + n then e else b ! i)" for n
    using assms by (induction n) (auto simp: nth_list_update less_Suc_eq)
  then show ?thesis by (simp add: fill_row_def)
qed

lemma fold_fill_row_nth:
  assumes "i < length b"
  shows "fold (fill_row e) [0..<n] b ! i = (if i < n * VGA_COLS then e else b ! i)"
  using assms by (induction n) (auto simp: fill_row_nth)

lemma vga_scroll_buf:
  assumes "length (vga_buf s) = VGA_ROWS * VGA_COLS"
  shows "vga_buf (vga_scroll s) = drop VGA_COLS (vga_buf s) @
    replicate VGA_COLS (vga_make_entry (of_char CHR '' '') (vga_color s))"
proof (rule nth_equalityI)
  show "length (vga_buf (vga_scroll s)) = length (drop VGA_COLS (vga_buf s) @
    replicate VGA_COLS (vga_make_entry (of_char CHR '' '') (vga_color s)))"
    using assms by (simp add: vga_scroll_def vga_dims)
next
  fix i assume "i < length (vga_buf (vga_scroll s))"
  then have i: "i < length (vga_buf s)" by (simp add: vga_scroll_def)
  have "fold scroll_row [1..<VGA_ROWS] (vga_buf s) ! i =
     (if i < (VGA_ROWS - 1) * VGA_COLS then vga_buf s ! (i + VGA_COLS) else vga_buf s ! i)"
    using fold_scroll_row_nth [of "VGA_ROWS - 1" "vga_buf s" i] assms i by (simp add: vga_dims)
  then show "vga_buf (vga_scroll s) ! i = (drop VGA_COLS (vga_buf s) @
    replicate VGA_COLS (vga_make_entry (of_char CHR '' '') (vga_color s))) ! i"
    using i assms by (simp add: vga_scroll_def fill_row_nth nth_append) (auto simp: vga_dims add.commute)
qed


lemma vga_scroll_inv: "length (vga_buf s) = VGA_ROWS * VGA_COLS \<Longrightarrow> vga_col s < VGA_COLS \<Longrightarrow> vga_inv (vga_scroll s)"
  by (simp add: vga_inv_def vga_scroll_def vga_dims)

lemma vga_next_row_inv: "length (vga_buf s) = VGA_ROWS * VGA_COLS \<Longrightarrow> vga_row s < VGA_ROWS \<Longrightarrow> vga_inv (vga_next_row s)"
  by (auto simp: vga_next_row_def Let_def vga_inv_def vga_scroll_def vga_dims)

lemma vga_cell_put_simps [simp]:
  "length (vga_buf (vga_cell_put c s)) = length (vga_buf s)"
  "vga_row (vga_cell_put c s) = vga_row s"
  "vga_col (vga_cell_put c s) = vga_col s"
  "vga_color (vga_cell_put c s) = vga_color s"
  by (simp_all add: vga_cell_put_def)

lemma vga_cell_put_inv: "vga_inv s \<Longrightarrow> vga_inv (vga_cell_put c s)"
  by (simp add: vga_inv_def)

lemma vga_cursor_in_range: "vga_inv s \<Longrightarrow> vga_row s * VGA_COLS + vga_col s < length (vga_buf s)"
  by (simp add: vga_inv_def vga_dims)

lemma vga_putchar_inv [simp]:
  assumes "vga_inv s"
  shows "vga_inv (vga_putchar c s)"
proof -
  have "vga_inv (if vga_col s > 0 then s\<lparr>vga_col := vga_col s - 1\<rparr>
           else if vga_row s > 0 then s\<lparr>vga_row := vga_row s - 1, vga_col := VGA_COLS - 1\<rparr>
           else s)" using assms by (auto simp: vga_inv_def vga_dims)
  then show ?thesis
    using assms vga_next_row_inv [of s] vga_next_row_inv [of "(vga_cell_put c s)\<lparr>vga_col := vga_col s + 1\<rparr>"]
    by (auto simp: vga_putchar_def Let_def vga_cell_put_inv) (auto simp: vga_inv_def)
qed

lemma fold_putchar_inv [simp]: "vga_inv s \<Longrightarrow> vga_inv (fold vga_putchar cs s)"
  by (induction cs arbitrary: s) auto

lemma kprint_inv [simp]: "vga_inv s \<Longrightarrow> vga_inv (kprint cs s)"
  by (induction cs arbitrary: s) auto

lemma vga_set_color_inv [simp]: "vga_inv s \<Longrightarrow> vga_inv (vga_set_color c s)"
  by (simp add: vga_inv_def vga_set_color_def)

lemma kprint_hex_inv [simp]: "vga_inv s \<Longrightarrow> vga_inv (kprint_hex v s)"
  by (simp add: kprint_hex_def)

lemma kprint_int_inv [simp]: "vga_inv s \<Longrightarrow> vga_inv (kprint_int v s)"
  by (auto simp: kprint_int_def split: prod.split)

lemma kpanic_inv [simp]: "vga_inv s \<Longrightarrow> vga_inv (kpanic msg d s)"
  by (simp add: kpanic_def)

lemma vga_init_buf:
  assumes "length (vga_buf s) = VGA_ROWS * VGA_COLS"
  shows "vga_buf (vga_init s) = replicate (VGA_ROWS * VGA_COLS) (vga_make_entry (of_char CHR '' '') (vga_make_color VGA_COLOR_LIGHT_GREY VGA_COLOR_BLACK))"
  by (rule nth_equalityI) (use assms in \<open>auto simp: vga_init_def Let_def fold_fill_row_nth\<close>)

lemma vga_init_inv: "length (vga_buf s) = VGA_ROWS * VGA_COLS \<Longrightarrow> vga_inv (vga_init s)"
  by (simp add: vga_inv_def vga_init_def Let_def vga_dims)

section \<open>Numbers\<close>

lemma hex_loop_8:
  "hex_loop 8 v (replicate 8 0) = map (\<lambda>i. hex_digit (ucast (drop_bit (28 - 4 * i) v AND 0xF))) [0..<8]"
  by (simp add: numeral_eq_Suc)

fun decimal :: "nat \<Rightarrow> cstring" where
  "decimal n = (if n < 10 then [of_nat (48 + n)] else decimal (n div 10) @ [of_nat (48 + n mod 10)])"
declare decimal.simps [simp del]

lemma int_loop_decimal:
  "0 < sint v \<Longrightarrow> int_loop v buf = buf @ rev (decimal (unat v))"
proof (induction v buf rule: int_loop.induct)
  case (1 v buf)
  from "1.prems" have v: "0 < unat v" "unat v < 2 ^ 31"
    by (auto simp: sint_u32_pos_iff)
  have d: "unat (v div 10) = unat v div 10" "unat (v mod 10) = unat v mod 10"
    by (simp_all add: unat_div unat_mod)
  have digit: "(of_char CHR ''0'' :: u8) + ucast (v mod 10) = of_nat (48 + unat v mod 10)"
    by (simp flip: d(2))
  show ?case
  proof (cases "0 < sint (v div 10)")
    case True
    then have "\<not> unat v < 10" using d by (auto simp: sint_u32_pos_iff)
    then show ?thesis
      using "1.IH" "1.prems" True d digit
      by (subst int_loop.simps, subst decimal.simps) simp
  next
    case False
    then have "unat v < 10" using d v by (auto simp: sint_u32_pos_iff)
    then show ?thesis
      using "1.prems" False digit
      by (subst int_loop.simps, subst int_loop.simps, subst decimal.simps) simp
  qed
qed

lemma kprint_int_min: "kprint_int 0x80000000 s = vga_putchar (of_char CHR ''-'') s"
  by (simp add: kprint_int_def int_loop.simps)

section \<open>Properties\<close>

lemma putchar_printable:
  assumes "c \<noteq> of_char CHR 0x08" "c \<noteq> of_char CHR 0x0A" "vga_col s + 1 < VGA_COLS"
  shows "vga_putchar c s = s\<lparr>vga_buf := (vga_buf s)[vga_row s * VGA_COLS + vga_col s := vga_make_entry c (vga_color s)],
    vga_col := vga_col s + 1\<rparr>"
  using assms by (simp add: vga_putchar_def Let_def vga_cell_put_def)

definition printable :: "u8 \<Rightarrow> bool" where
  "printable c \<longleftrightarrow> c \<noteq> 0 \<and> c \<noteq> of_char CHR 0x08 \<and> c \<noteq> of_char CHR 0x0A"

text \<open>
  C40: the cursor stays on the screen. Every console operation keeps the frame buffer at 80 by 25 cells
  and the cursor inside it, whatever bytes and numbers are printed, so that every store is in range.
\<close>

theorem console_stays_on_screen:
  assumes "vga_inv s"
  shows "vga_inv (vga_putchar c s) \<and> vga_inv (kprint cs s) \<and> vga_inv (kprint_hex v s) \<and> vga_inv (kprint_int v s) \<and>
    vga_inv (vga_set_color fg s) \<and> vga_inv (kpanic msg detail s) \<and> vga_inv (vga_init s) \<and>
    vga_row s * VGA_COLS + vga_col s < length (vga_buf s)"
  using assms vga_cursor_in_range [OF assms] vga_init_inv [of s] by (simp add: vga_inv_def [of s])

definition blank_screen :: vga where
  "blank_screen = \<lparr>vga_buf = replicate (VGA_ROWS * VGA_COLS) 0, vga_row = 24, vga_col = 79, vga_color = 7\<rparr>"

lemma blank_screen_inv: "vga_inv blank_screen"
  by (simp add: vga_inv_def blank_screen_def vga_dims)

theorem console_stays_on_screen_witness:
  "vga_inv (kprint (lit ''hello\<newline>world'') blank_screen) \<and> vga_inv (kprint_int 0x80000000 blank_screen)"
  using console_stays_on_screen [OF blank_screen_inv] by blast

text \<open>
  Printing a string of ordinary characters that fits on the rest of the line writes exactly these
  characters, with the current attribute, into consecutive cells from the cursor on, moves the cursor
  behind them and changes no other cell.
\<close>

theorem kprint_writes_cells:
  assumes "vga_inv s" "list_all printable cs" "vga_col s + length cs < VGA_COLS"
  shows "kprint cs s = s\<lparr>vga_buf :=
      take (vga_row s * VGA_COLS + vga_col s) (vga_buf s) @ map (\<lambda>c. vga_make_entry c (vga_color s)) cs @
      drop (vga_row s * VGA_COLS + vga_col s + length cs) (vga_buf s),
    vga_col := vga_col s + length cs\<rparr>"
  using assms
proof (induction cs arbitrary: s)
  case Nil
  then show ?case by simp
next
  case (Cons c cs)
  let ?i = "vga_row s * VGA_COLS + vga_col s"
  let ?s = "s\<lparr>vga_buf := (vga_buf s)[?i := vga_make_entry c (vga_color s)], vga_col := vga_col s + 1\<rparr>"
  have i: "?i < length (vga_buf s)" using Cons.prems(1) by (rule vga_cursor_in_range)
  have p: "vga_putchar c s = ?s" using Cons.prems by (intro putchar_printable) (auto simp: printable_def)
  have "vga_inv ?s" using Cons.prems by (simp add: vga_inv_def)
  from Cons.IH [OF this] Cons.prems p i show ?case
    by (simp add: printable_def take_Suc_conv_app_nth)
qed

theorem kprint_writes_cells_witness:
  "vga_col (kprint (lit ''hi'') (vga_init blank_screen)) = 2"
proof -
  have "vga_inv (vga_init blank_screen)" by (rule vga_init_inv) (simp add: blank_screen_def)
  from kprint_writes_cells [OF this, of "lit ''hi''"] show ?thesis
    by (simp add: lit_def printable_def vga_init_def Let_def VGA_COLS_def)
qed

text \<open>
  A newline on the last line scrolls. The 24 lower lines move up by one, the last line is blank in the
  current colour, and the cursor is at its start.
\<close>

theorem newline_scrolls:
  assumes "vga_inv s" "vga_row s = VGA_ROWS - 1"
  shows "vga_putchar (of_char CHR 0x0A) s = s\<lparr>vga_buf := drop VGA_COLS (vga_buf s) @
      replicate VGA_COLS (vga_make_entry (of_char CHR '' '') (vga_color s)), vga_col := 0\<rparr>"
proof -
  let ?s = "s\<lparr>vga_col := 0, vga_row := VGA_ROWS\<rparr>"
  have "vga_putchar (of_char CHR 0x0A) s = vga_scroll ?s"
    using assms by (simp add: vga_putchar_def vga_next_row_def Let_def vga_dims)
  also have "\<dots> = ?s\<lparr>vga_buf := vga_buf (vga_scroll ?s), vga_row := VGA_ROWS - 1\<rparr>"
    by (simp add: vga_scroll_def)
  also have "vga_buf (vga_scroll ?s) = drop VGA_COLS (vga_buf s) @
      replicate VGA_COLS (vga_make_entry (of_char CHR '' '') (vga_color s))"
    using vga_scroll_buf [of ?s] assms(1) by (simp add: vga_inv_def)
  finally show ?thesis using assms(2) by simp
qed

theorem newline_scrolls_witness:
  "vga_col (vga_putchar (of_char CHR 0x0A) blank_screen) = 0 \<and>
   vga_row (vga_putchar (of_char CHR 0x0A) blank_screen) = 24"
  using newline_scrolls [OF blank_screen_inv] by (simp add: blank_screen_def VGA_ROWS_def)

text \<open>
  \<open>kprint_int\<close> prints the decimal notation of its signed argument, a minus sign in front of negative
  values and no leading zeros, for every argument except the smallest 32-bit integer.
\<close>

theorem kprint_int_prints_decimal:
  assumes "sint v \<noteq> - (2 ^ 31)"
  shows "kprint_int v s =
    fold vga_putchar ((if sint v < 0 then lit ''-'' else []) @ decimal (nat \<bar>sint v\<bar>)) s"
proof -
  have neg: "0 < sint (- v) \<and> unat (- v) = nat \<bar>sint v\<bar>" if "sint v < 0"
  proof -
    have ge: "2 ^ 31 \<le> unat v" using that by (simp add: sint_u32_neg_iff)
    moreover have "unat v \<noteq> 2 ^ 31" using assms by (auto simp: sint_u32 uint_nat simp del: of_nat_unat)
    ultimately have gt: "2 ^ 31 < unat v" by simp
    have "unat (- v) = 2 ^ 32 - unat v"
      using gt unat_u32_less [of v] by (simp add: unat_uminus_u32)
    then show ?thesis using gt unat_u32_less [of v] by (simp add: sint_u32_pos_iff abs_sint_u32)
  qed
  have zero: "decimal 0 = [of_char CHR ''0'']" by (subst decimal.simps) simp
  have pos: "unat v = nat \<bar>sint v\<bar>" if "0 \<le> sint v"
  proof -
    have "unat v < 2 ^ 31" using that by (metis sint_u32_neg_iff not_le)
    then show ?thesis by (subst abs_sint_u32) simp
  qed
  consider "sint v < 0" | "sint v = 0" | "0 < sint v" by linarith
  then show ?thesis
  proof cases
    case 1
    with neg have "- v \<noteq> 0" by force
    with 1 neg show ?thesis by (auto simp: kprint_int_def int_loop_decimal lit_def)
  next
    case 2
    then have "v = 0" using pos by (metis abs_0 nat_0 order_refl unat_eq_0)
    with 2 show ?thesis by (simp add: kprint_int_def zero)
  next
    case 3
    then have "v \<noteq> 0" by auto
    with 3 pos show ?thesis by (auto simp: kprint_int_def int_loop_decimal)
  qed
qed

theorem kprint_int_prints_decimal_witness:
  "kprint_int (- 42) blank_screen = fold vga_putchar (lit ''-42'') blank_screen"
proof -
  have "decimal 42 = lit ''42''" by (simp add: decimal.simps lit_def)
  moreover have "sint (- 42 :: u32) = - 42" by simp
  ultimately show ?thesis using kprint_int_prints_decimal [of "- 42" blank_screen] by (simp add: lit_def)
qed

end
