(* ===== verification/Pmm.thy ===== *)
theory Pmm
  imports Vga
begin

text \<open>
  The physical memory manager of \<open>kernel/pmm.c\<close>: a bitmap with one bit per 4 KB frame, filled
  at boot from the Multiboot2 memory map. Its abstraction is the set of free frame numbers
  \<open>free_set\<close>; the locale \<open>frame_allocator\<close> is the contract that the paging code, the
  kernel heap and the ELF loader rely on, and its interpretation on the bitmap code discharges it.
\<close>

section \<open>Model\<close>

definition PAGE_SIZE :: u32 where "PAGE_SIZE = 4096"
definition MAX_FRAMES :: u32 where "MAX_FRAMES = 32768"

record pmm =
  pmm_bitmap :: "u32 list"
  total_frames :: u32
  free_frames :: u32

definition frame_set :: "u32 \<Rightarrow> pmm \<Rightarrow> pmm" where
  "frame_set frame s = (let i = unat (frame div 32) in
     s\<lparr>pmm_bitmap := (pmm_bitmap s)[i := pmm_bitmap s ! i OR push_bit (unat (frame mod 32)) 1]\<rparr>)"

definition frame_clear :: "u32 \<Rightarrow> pmm \<Rightarrow> pmm" where
  "frame_clear frame s = (let i = unat (frame div 32) in
     s\<lparr>pmm_bitmap := (pmm_bitmap s)[i := pmm_bitmap s ! i AND NOT (push_bit (unat (frame mod 32)) 1)]\<rparr>)"

definition frame_test :: "u32 \<Rightarrow> pmm \<Rightarrow> bool" where
  "frame_test frame s \<longleftrightarrow>
     drop_bit (unat (frame mod 32)) (pmm_bitmap s ! unat (frame div 32)) AND 1 \<noteq> 0"

subsection \<open>Initialisation from the Multiboot2 memory map\<close>

definition MB2_MEMORY_AVAILABLE :: u32 where "MB2_MEMORY_AVAILABLE = 1"

text \<open>Field accessors of the packed Multiboot2 structures of \<open>kernel/pmm.h\<close>.\<close>

definition tag_type :: "mem \<Rightarrow> u32 \<Rightarrow> u32" where "tag_type m tag = load32 m tag"
definition tag_size :: "mem \<Rightarrow> u32 \<Rightarrow> u32" where "tag_size m tag = load32 m (tag + 4)"
definition mmap_entry_size :: "mem \<Rightarrow> u32 \<Rightarrow> u32" where "mmap_entry_size m tag = load32 m (tag + 8)"
definition entry_base_addr :: "mem \<Rightarrow> u32 \<Rightarrow> u64" where "entry_base_addr m e = load64 m e"
definition entry_length :: "mem \<Rightarrow> u32 \<Rightarrow> u64" where "entry_length m e = load64 m (e + 8)"
definition entry_mem_type :: "mem \<Rightarrow> u32 \<Rightarrow> u32" where "entry_mem_type m e = load32 m (e + 16)"

function free_range :: "u32 \<Rightarrow> u32 \<Rightarrow> pmm \<Rightarrow> pmm" where
  "free_range f frame_end s =
     (if f < frame_end \<and> f < MAX_FRAMES then
        free_range (f + 1) frame_end
          ((frame_clear f s)\<lparr>free_frames := free_frames s + 1, total_frames := total_frames s + 1\<rparr>)
      else s)"
  by pat_completeness auto
termination
proof (relation "measure (\<lambda>(f, e, s). 2 ^ 32 - unat f)")
  fix f frame_end :: u32 and s :: pmm
  assume "f < frame_end \<and> f < MAX_FRAMES"
  then have "unat f < 32768" by (simp add: MAX_FRAMES_def word_less_nat_alt)
  then show "((f + 1, frame_end, (frame_clear f s)\<lparr>free_frames := free_frames s + 1,
      total_frames := total_frames s + 1\<rparr>), f, frame_end, s) \<in> measure (\<lambda>(f, e, s). 2 ^ 32 - unat f)"
    by (simp add: unat_add_nowrap)
qed simp

declare free_range.simps [simp del]

definition mmap_entry :: "mem \<Rightarrow> u32 \<Rightarrow> pmm \<Rightarrow> pmm" where
  "mmap_entry m e s =
     (if entry_mem_type m e = MB2_MEMORY_AVAILABLE then
        (let start = entry_base_addr m e; end' = start + entry_length m e;
             frame_start = ucast ((start + ucast PAGE_SIZE - 1) div ucast PAGE_SIZE);
             frame_end = ucast (end' div ucast PAGE_SIZE)
         in free_range frame_start frame_end s)
      else s)"

fun mmap_loop :: "nat \<Rightarrow> mem \<Rightarrow> u32 \<Rightarrow> u32 \<Rightarrow> u32 \<Rightarrow> pmm \<Rightarrow> pmm res" where
  "mmap_loop 0 m entry_size entry_ptr mmap_end s = Inl NoReturn"
| "mmap_loop (Suc fuel) m entry_size entry_ptr mmap_end s =
     (if entry_ptr < mmap_end
      then mmap_loop fuel m entry_size (entry_ptr + entry_size) mmap_end (mmap_entry m entry_ptr s)
      else Inr s)"

definition next_tag :: "mem \<Rightarrow> u32 \<Rightarrow> u32" where
  "next_tag m tag = (tag + tag_size m tag + 7) AND NOT 7"

fun tag_loop :: "nat \<Rightarrow> mem \<Rightarrow> u32 \<Rightarrow> pmm \<Rightarrow> pmm res" where
  "tag_loop 0 m tag s = Inl NoReturn"
| "tag_loop (Suc fuel) m tag s =
     (if tag_type m tag \<noteq> 0 then
        bindR (if tag_type m tag = 6
               then mmap_loop walk_fuel m (mmap_entry_size m tag) (tag + 16) (tag + tag_size m tag) s
               else Inr s)
          (\<lambda>s. tag_loop fuel m (next_tag m tag) s)
      else Inr s)"

function mark_kernel :: "u32 \<Rightarrow> u32 \<Rightarrow> pmm \<Rightarrow> pmm" where
  "mark_kernel f kernel_end_frame s =
     (if f \<le> kernel_end_frame \<and> f < MAX_FRAMES then
        mark_kernel (f + 1) kernel_end_frame
          (if \<not> frame_test f s then (frame_set f s)\<lparr>free_frames := free_frames s - 1\<rparr> else s)
      else s)"
  by pat_completeness auto
termination
proof (relation "measure (\<lambda>(f, e, s). 2 ^ 32 - unat f)")
  fix f e :: u32 and s :: pmm
  assume "f \<le> e \<and> f < MAX_FRAMES"
  then have "unat f < 32768" by (simp add: MAX_FRAMES_def word_less_nat_alt)
  then show "((f + 1, e, if \<not> frame_test f s then (frame_set f s)\<lparr>free_frames := free_frames s - 1\<rparr> else s),
      f, e, s) \<in> measure (\<lambda>(f, e, s). 2 ^ 32 - unat f)"
    by (simp add: unat_add_nowrap)
qed simp

declare mark_kernel.simps [simp del]

definition pmm_init :: "mem \<Rightarrow> u32 \<Rightarrow> u32 \<Rightarrow> pmm \<Rightarrow> pmm res" where
  "pmm_init m kernel_end mboot_ptr s =
     bindR (tag_loop walk_fuel m (mboot_ptr + 8)
              (s\<lparr>pmm_bitmap := replicate (unat (MAX_FRAMES div 32)) 0xFFFFFFFF\<rparr>))
       (\<lambda>s. let s = frame_set 0 s;
                s = mark_kernel 0 ((kernel_end + PAGE_SIZE - 1) div PAGE_SIZE) s;
                mb_frame = mboot_ptr div PAGE_SIZE
            in Inr (if mb_frame < MAX_FRAMES \<and> \<not> frame_test mb_frame s
                    then (frame_set mb_frame s)\<lparr>free_frames := free_frames s - 1\<rparr> else s))"

subsection \<open>Allocation\<close>

function scan_bits :: "nat \<Rightarrow> nat \<Rightarrow> pmm \<Rightarrow> u32 option" where
  "scan_bits i b s =
     (if b < 32 then
        (let frame = of_nat (i * 32 + b) in
         if \<not> frame_test frame s then Some frame else scan_bits i (b + 1) s)
      else None)"
  by pat_completeness auto
termination by (relation "measure (\<lambda>(i, b, s). 32 - b)") auto

declare scan_bits.simps [simp del]

function scan_words :: "nat \<Rightarrow> pmm \<Rightarrow> u32 option" where
  "scan_words i s =
     (if i < unat (MAX_FRAMES div 32) then
        (if pmm_bitmap s ! i = 0xFFFFFFFF then scan_words (i + 1) s
         else (case scan_bits i 0 s of Some frame \<Rightarrow> Some frame | None \<Rightarrow> scan_words (i + 1) s))
      else None)"
  by pat_completeness auto
termination by (relation "measure (\<lambda>(i, s). unat (MAX_FRAMES div 32) - i)") auto

declare scan_words.simps [simp del]

definition pmm_alloc_frame :: "pmm \<Rightarrow> u32 \<times> pmm" where
  "pmm_alloc_frame s =
     (if free_frames s = 0 then (0, s)
      else (case scan_words 0 s of
              None \<Rightarrow> (0, s)
            | Some frame \<Rightarrow> (frame * PAGE_SIZE, (frame_set frame s)\<lparr>free_frames := free_frames s - 1\<rparr>)))"

definition pmm_free_frame :: "u32 \<Rightarrow> pmm \<Rightarrow> pmm" where
  "pmm_free_frame phys_addr s = (let frame = phys_addr div PAGE_SIZE in
     if frame \<ge> MAX_FRAMES then s
     else if \<not> frame_test frame s then s
     else (frame_clear frame s)\<lparr>free_frames := free_frames s + 1\<rparr>)"

definition pmm_print_stats :: "pmm \<Rightarrow> vga \<Rightarrow> vga" where
  "pmm_print_stats p s =
    (let s = vga_set_color VGA_COLOR_LIGHT_GREEN s;
         s = kprint (lit ''[OK] PMM initialized\<newline>'') s;
         s = vga_set_color VGA_COLOR_LIGHT_GREY s;
         s = kprint (lit ''     Total frames : '') s;
         s = kprint_int (total_frames p) s;
         s = kprint (lit ''  ('') s;
         s = kprint_int (total_frames p * PAGE_SIZE div 1024) s;
         s = kprint (lit '' KB)\<newline>'') s;
         s = kprint (lit ''     Free  frames : '') s;
         s = kprint_int (free_frames p) s;
         s = kprint (lit ''  ('') s;
         s = kprint_int (free_frames p * PAGE_SIZE div 1024) s
     in kprint (lit '' KB)\<newline>'') s)"

section \<open>The set of free frames\<close>

definition free_set :: "pmm \<Rightarrow> nat set" where
  "free_set s = {f. f < 32768 \<and> \<not> bit (pmm_bitmap s ! (f div 32)) (f mod 32)}"

definition bitmap_ok :: "pmm \<Rightarrow> bool" where
  "bitmap_ok s \<longleftrightarrow> length (pmm_bitmap s) = 1024"

lemma finite_free_set [simp]: "finite (free_set s)"
  by (rule finite_subset [of _ "{..<32768}"]) (auto simp: free_set_def)

lemma free_set_bound: "f \<in> free_set s \<Longrightarrow> f < 32768"
  by (simp add: free_set_def)

lemma unat_div32 [simp]: "unat ((f :: u32) div 32) = unat f div 32" "unat ((f :: u32) mod 32) = unat f mod 32"
  by (simp_all add: unat_div unat_mod)

lemma less_MAX_FRAMES [simp]: "f < MAX_FRAMES \<longleftrightarrow> unat f < 32768"
  by (simp add: MAX_FRAMES_def word_less_nat_alt)

lemma unat_MAX_FRAMES [simp]: "unat MAX_FRAMES = 32768"
  by (simp add: MAX_FRAMES_def)

lemma frame_index_eq:
  "f div 32 = g div 32 \<Longrightarrow> f mod 32 = g mod 32 \<Longrightarrow> f = (g :: nat)"
  by (metis div_mult_mod_eq)

lemma frame_test_iff: "unat f < 32768 \<Longrightarrow> frame_test f s \<longleftrightarrow> unat f \<notin> free_set s"
  by (simp add: frame_test_def free_set_def and_one_eq bit_iff_odd_drop_bit odd_iff_mod_2_eq_one)

lemma bit_and_not_mask:
  "bit ((w :: u32) AND NOT (2 ^ j)) k \<longleftrightarrow> bit w k \<and> k \<noteq> j"
  by (auto simp: bit_simps dest: bit_imp_le_length)

lemma bit_or_mask:
  "k < 32 \<Longrightarrow> bit ((w :: u32) OR 2 ^ j) k \<longleftrightarrow> bit w k \<or> k = j"
  by (auto simp: bit_simps)

lemma free_set_frame_set [simp]:
  assumes "bitmap_ok s" "unat f < 32768"
  shows "free_set (frame_set f s) = free_set s - {unat f}"
proof -
  have "unat f div 32 < 1024" using assms(2) by simp
  then show ?thesis
    using assms by (auto simp: free_set_def frame_set_def Let_def bitmap_ok_def nth_list_update bit_or_mask
      intro: frame_index_eq split: if_splits)
qed

lemma free_set_frame_clear [simp]:
  assumes "bitmap_ok s" "unat f < 32768"
  shows "free_set (frame_clear f s) = insert (unat f) (free_set s)"
proof -
  have "unat f div 32 < 1024" using assms(2) by simp
  then show ?thesis
    using assms by (auto simp: free_set_def frame_clear_def Let_def bitmap_ok_def nth_list_update bit_and_not_mask
      intro: frame_index_eq split: if_splits)
qed

lemma bitmap_ok_frame_set [simp]: "bitmap_ok (frame_set f s) = bitmap_ok s"
  by (simp add: bitmap_ok_def frame_set_def Let_def)

lemma bitmap_ok_frame_clear [simp]: "bitmap_ok (frame_clear f s) = bitmap_ok s"
  by (simp add: bitmap_ok_def frame_clear_def Let_def)

lemma frame_ops_counters [simp]:
  "free_frames (frame_set f s) = free_frames s" "total_frames (frame_set f s) = total_frames s"
  "free_frames (frame_clear f s) = free_frames s" "total_frames (frame_clear f s) = total_frames s"
  by (simp_all add: frame_set_def frame_clear_def Let_def)

lemma free_set_counters [simp]:
  "free_set (s\<lparr>free_frames := x\<rparr>) = free_set s" "free_set (s\<lparr>total_frames := x\<rparr>) = free_set s"
  "bitmap_ok (s\<lparr>free_frames := x\<rparr>) = bitmap_ok s" "bitmap_ok (s\<lparr>total_frames := x\<rparr>) = bitmap_ok s"
  by (simp_all add: free_set_def bitmap_ok_def)

lemma bitmap_word_full:
  assumes "i < 1024" "pmm_bitmap s ! i = 0xFFFFFFFF"
  shows "{i * 32..<i * 32 + 32} \<inter> free_set s = {}"
proof -
  have "bit (0xFFFFFFFF :: u32) k" if "k < 32" for k
  proof -
    have "bit (mask 32 :: u32) k" using that by (simp only: bit_mask_iff) simp
    moreover have "(mask 32 :: u32) = 0xFFFFFFFF" by (simp add: mask_eq_exp_minus_1)
    ultimately show ?thesis by (simp only:)
  qed
  moreover have "f div 32 = i" if "i * 32 \<le> f" "f < i * 32 + 32" for f using that by auto
  ultimately show ?thesis using assms(2) by (auto simp: free_set_def)
qed

lemma scan_bits_spec:
  assumes "i < 1024" "b \<le> 32"
  shows "case scan_bits i b s of
      Some f \<Rightarrow> unat f \<in> free_set s \<and> i * 32 + b \<le> unat f \<and> unat f < i * 32 + 32
        \<and> {i * 32 + b..<unat f} \<inter> free_set s = {}
    | None \<Rightarrow> {i * 32 + b..<i * 32 + 32} \<inter> free_set s = {}"
  using assms
proof (induction i b s rule: scan_bits.induct)
  case (1 i b s)
  show ?case
  proof (cases "b < 32")
    case True
    let ?f = "of_nat (i * 32 + b) :: u32"
    have u: "unat ?f = i * 32 + b" using True "1.prems" by (simp add: unat_of_nat del: of_nat_add of_nat_mult)
    have lt: "i * 32 + b < 32768" using True "1.prems" by simp
    have t: "frame_test ?f s \<longleftrightarrow> i * 32 + b \<notin> free_set s" using frame_test_iff [of ?f s] u lt by simp
    show ?thesis
    proof (cases "frame_test ?f s")
      case False
      then show ?thesis using True t u by (subst scan_bits.simps) (simp add: Let_def)
    next
      case tst: True
      have step: "{i * 32 + b..<k} = insert (i * 32 + b) {i * 32 + (b + 1)..<k}" if "i * 32 + b < k" for k
        using that by auto
      have "scan_bits i b s = scan_bits i (b + 1) s"
        using True tst by (subst scan_bits.simps) (simp add: Let_def)
      then show ?thesis
        using "1.IH" [OF True refl] tst "1.prems" True t step by (auto split: option.splits)
    qed
  next
    case False
    then show ?thesis using "1.prems" by (subst scan_bits.simps) simp
  qed
qed

lemma scan_words_spec:
  assumes "i \<le> 1024" "{..<i * 32} \<inter> free_set s = {}"
  shows "case scan_words i s of
      Some f \<Rightarrow> unat f \<in> free_set s \<and> {..<unat f} \<inter> free_set s = {}
    | None \<Rightarrow> free_set s = {}"
  using assms
proof (induction i s rule: scan_words.induct)
  case (1 i s)
  show ?case
  proof (cases "i < 1024")
    case True
    have ext: "{..<(i + 1) * 32} = {..<i * 32} \<union> {i * 32..<i * 32 + 32}" by auto
    have split: "{..<k} = {..<i * 32} \<union> {i * 32..<k}" if "i * 32 \<le> k" for k using that by auto
    show ?thesis
    proof (cases "pmm_bitmap s ! i = 0xFFFFFFFF")
      case full: True
      then have "{..<(i + 1) * 32} \<inter> free_set s = {}"
        using bitmap_word_full [OF True full] "1.prems"(2) unfolding ext by blast
      with "1.IH"(1) True full show ?thesis
        by (subst scan_words.simps) simp
    next
      case some: False
      show ?thesis
      proof (cases "scan_bits i 0 s")
        case None
        then have "{..<(i + 1) * 32} \<inter> free_set s = {}"
          using scan_bits_spec [OF True, of 0 s] "1.prems"(2) unfolding ext by auto
        with "1.IH"(2) True some None show ?thesis
          by (subst scan_words.simps) simp
      next
        case (Some f)
        then show ?thesis
          using scan_bits_spec [OF True, of 0 s] True some "1.prems"(2) split [of "unat f"]
          by (subst scan_words.simps) auto
      qed
    qed
  next
    case False
    have "free_set s \<subseteq> {..<32768}" by (auto dest: free_set_bound)
    moreover have "{..<32768} \<subseteq> {..<i * 32}" using False by auto
    ultimately show ?thesis using False "1.prems" by (subst scan_words.simps) auto
  qed
qed

section \<open>Allocation and release\<close>

definition pmm_inv :: "pmm \<Rightarrow> bool" where
  "pmm_inv s \<longleftrightarrow> bitmap_ok s \<and> 0 \<notin> free_set s \<and> card (free_set s) \<le> unat (free_frames s)
     \<and> unat (free_frames s) < card (free_set s) + 2 ^ 31"

lemma pmm_inv_bitmap: "pmm_inv s \<Longrightarrow> bitmap_ok s"
  by (simp add: pmm_inv_def)

lemma card_free_set: "card (free_set s) \<le> 32768"
  using card_mono [of "{..<32768}" "free_set s"] by (force dest: free_set_bound)

lemma unat_dec: "x \<noteq> 0 \<Longrightarrow> unat ((x :: u32) - 1) = unat x - 1"
  by (simp add: unat_minus_one)

lemma unat_frame_addr: "f < 32768 \<Longrightarrow> unat (of_nat f * PAGE_SIZE) = f * 4096"
  by (simp add: PAGE_SIZE_def unat_word_ariths unat_of_nat)

lemma pmm_alloc_frame_spec:
  assumes "pmm_inv s" "free_set s \<noteq> {}"
  shows "\<exists>s'. pmm_alloc_frame s = (of_nat (Min (free_set s)) * PAGE_SIZE, s') \<and>
    free_set s' = free_set s - {Min (free_set s)} \<and> unat (free_frames s') = unat (free_frames s) - 1 \<and> pmm_inv s'"
proof -
  have card: "0 < card (free_set s)" using assms(2) by (simp add: card_gt_0_iff)
  then have nz: "free_frames s \<noteq> 0" using assms(1) by (auto simp: pmm_inv_def)
  from scan_words_spec [of 0 s] assms(2) obtain f where f: "scan_words 0 s = Some f"
    "unat f \<in> free_set s" "{..<unat f} \<inter> free_set s = {}"
    by (auto split: option.splits)
  have min: "Min (free_set s) = unat f"
  proof (rule Min_eqI)
    fix y assume "y \<in> free_set s"
    with f(3) show "unat f \<le> y" by (meson disjoint_iff leI lessThan_iff)
  qed (use f(2) in simp_all)
  let ?s = "(frame_set f s)\<lparr>free_frames := free_frames s - 1\<rparr>"
  have lt: "unat f < 32768" using f(2) by (rule free_set_bound)
  have ok: "bitmap_ok s" using assms(1) by (simp add: pmm_inv_def)
  have fs: "free_set ?s = free_set s - {unat f}" using ok lt by simp
  have c: "card (free_set s - {unat f}) = card (free_set s) - 1" using f(2) by simp
  have d: "unat (free_frames s - 1) = unat (free_frames s) - 1" using nz by (rule unat_dec)
  have "pmm_inv ?s"
    unfolding pmm_inv_def fs using assms(1) ok by (simp add: c d) (simp add: pmm_inv_def, linarith)
  moreover have "pmm_alloc_frame s = (of_nat (Min (free_set s)) * PAGE_SIZE, ?s)"
    by (simp add: pmm_alloc_frame_def nz f(1) min)
  ultimately show ?thesis using fs min d by (intro exI [of _ ?s]) simp
qed

lemma pmm_alloc_frame_empty:
  assumes "free_set s = {}"
  shows "pmm_alloc_frame s = (0, s)"
  using scan_words_spec [of 0 s] assms by (auto simp: pmm_alloc_frame_def split: option.splits)

lemma frame_ge_MAX: "MAX_FRAMES \<le> f \<longleftrightarrow> 32768 \<le> unat f"
  by (simp add: word_le_nat_alt)

lemma unat_div_page [simp]: "unat (a div PAGE_SIZE) = unat a div 4096"
  by (simp add: PAGE_SIZE_def unat_div)

lemma pmm_free_frame_spec:
  assumes "bitmap_ok s"
  shows "free_set (pmm_free_frame p s) = (if unat p div 4096 < 32768 then insert (unat p div 4096) (free_set s) else free_set s)"
    and "free_frames (pmm_free_frame p s) =
      (if unat p div 4096 < 32768 \<and> unat p div 4096 \<notin> free_set s then free_frames s + 1 else free_frames s)"
  using assms by (auto simp: pmm_free_frame_def Let_def frame_test_iff frame_ge_MAX)

lemma pmm_free_frame_noop:
  assumes "unat p div 4096 \<in> free_set s \<or> 32768 \<le> unat p div 4096"
  shows "pmm_free_frame p s = s"
  using assms by (auto simp: pmm_free_frame_def Let_def frame_test_iff frame_ge_MAX dest: free_set_bound)

lemma pmm_free_frame_inv:
  assumes "pmm_inv s" "unat p div 4096 \<noteq> 0"
  shows "pmm_inv (pmm_free_frame p s)"
proof (cases "unat p div 4096 < 32768 \<and> unat p div 4096 \<notin> free_set s")
  case True
  have ok: "bitmap_ok s" using assms(1) by (simp add: pmm_inv_def)
  have "unat (free_frames s) < 2 ^ 31 + 32768" using assms(1) card_free_set [of s] by (simp add: pmm_inv_def)
  then have "unat (free_frames s + 1) = unat (free_frames s) + 1" by (simp add: unat_add_nowrap)
  moreover have "bitmap_ok (pmm_free_frame p s)"
    using ok by (simp add: pmm_free_frame_def Let_def)
  ultimately show ?thesis
    using assms True pmm_free_frame_spec [OF ok, of p] by (simp add: pmm_inv_def)
next
  case False
  then show ?thesis using assms(1) by (subst pmm_free_frame_noop) auto
qed

text \<open>
  The contract of a frame allocator, as its clients use it: \<open>alloc\<close> answers a page aligned
  address whose frame was free, or 0 when none is; \<open>release\<close> gives a frame back and ignores a
  frame that is already free.
\<close>

locale frame_allocator =
  fixes alloc :: "'s \<Rightarrow> u32 \<times> 's"
    and release :: "u32 \<Rightarrow> 's \<Rightarrow> 's"
    and frames :: "'s \<Rightarrow> nat set"
    and inv :: "'s \<Rightarrow> bool"
  assumes alloc_some: "inv s \<Longrightarrow> alloc s = (p, s') \<Longrightarrow> p \<noteq> 0 \<Longrightarrow>
      aligned 4096 p \<and> unat p div 4096 \<in> frames s \<and> frames s' = frames s - {unat p div 4096} \<and> inv s'"
    and alloc_none: "inv s \<Longrightarrow> alloc s = (0, s') \<Longrightarrow> frames s = {} \<and> s' = s"
    and frames_range: "inv s \<Longrightarrow> f \<in> frames s \<Longrightarrow> 0 < f \<and> f < 32768"
    and release_frame: "inv s \<Longrightarrow> 0 < unat p div 4096 \<Longrightarrow> unat p div 4096 < 32768 \<Longrightarrow>
      frames (release p s) = insert (unat p div 4096) (frames s) \<and> inv (release p s)"
    and release_free: "inv s \<Longrightarrow> unat p div 4096 \<in> frames s \<Longrightarrow> release p s = s"
begin

lemma alloc_succeeds: "inv s \<Longrightarrow> frames s \<noteq> {} \<Longrightarrow> \<exists>p s'. alloc s = (p, s') \<and> p \<noteq> 0"
  by (metis alloc_none surj_pair)

lemma alloc_two_distinct:
  assumes "inv s" "alloc s = (p, s')" "p \<noteq> 0" "alloc s' = (q, s'')" "q \<noteq> 0"
  shows "unat p div 4096 \<noteq> unat q div 4096"
  using alloc_some [OF assms(1-3)] alloc_some [OF _ assms(4,5)] by auto

lemma release_alloc:
  assumes "inv s" "alloc s = (p, s')" "p \<noteq> 0"
  shows "frames (release p s') = frames s \<and> inv (release p s')"
proof -
  from alloc_some [OF assms] have p: "unat p div 4096 \<in> frames s" "frames s' = frames s - {unat p div 4096}" "inv s'"
    by auto
  from frames_range [OF assms(1) p(1)] release_frame [OF p(3), of p] p show ?thesis by auto
qed

lemma release_list:
  assumes "inv s" "\<forall>p \<in> set ps. 0 < unat p div 4096 \<and> unat p div 4096 < 32768"
  shows "frames (fold release ps s) = (\<lambda>p. unat p div 4096) ` set ps \<union> frames s \<and> inv (fold release ps s)"
  using assms
proof (induction ps arbitrary: s)
  case Nil
  then show ?case by simp
next
  case (Cons p ps)
  from Cons.prems release_frame [of s p]
  have "frames (release p s) = insert (unat p div 4096) (frames s)" "inv (release p s)" by auto
  then show ?case using Cons.IH [of "release p s"] Cons.prems by auto
qed

end

lemma of_nat_times_page: "f < 32768 \<Longrightarrow> unat ((of_nat f :: u32) * PAGE_SIZE) div 4096 = f"
  by (simp add: unat_frame_addr)

lemma page_addr_nonzero: "0 < f \<Longrightarrow> f < 32768 \<Longrightarrow> (of_nat f :: u32) * PAGE_SIZE \<noteq> 0"
  using unat_frame_addr [of f] by (metis mult_is_0 unat_0 zero_neq_numeral less_irrefl)

lemma pmm_min_frame: "pmm_inv s \<Longrightarrow> free_set s \<noteq> {} \<Longrightarrow> 0 < Min (free_set s) \<and> Min (free_set s) < 32768"
  by (metis Min_in finite_free_set free_set_bound gr0I pmm_inv_def)

interpretation pmm: frame_allocator pmm_alloc_frame pmm_free_frame free_set pmm_inv
proof
  fix s p s'
  assume inv: "pmm_inv s" and al: "pmm_alloc_frame s = (p, s')" and nz: "p \<noteq> 0"
  then have ne: "free_set s \<noteq> {}" using pmm_alloc_frame_empty [of s] by auto
  let ?f = "Min (free_set s)"
  have f: "?f \<in> free_set s" "?f < 32768" using ne inv pmm_min_frame by auto
  from pmm_alloc_frame_spec [OF inv ne] al
  have s: "p = of_nat ?f * PAGE_SIZE" "free_set s' = free_set s - {?f}" "pmm_inv s'" by auto
  then show "aligned 4096 p \<and> unat p div 4096 \<in> free_set s \<and> free_set s' = free_set s - {unat p div 4096} \<and> pmm_inv s'"
    using f by (simp add: unat_frame_addr aligned_def)
next
  fix s s'
  assume inv: "pmm_inv s" and al: "pmm_alloc_frame s = (0, s')"
  have "free_set s = {}"
  proof (rule ccontr)
    assume ne: "free_set s \<noteq> {}"
    with pmm_alloc_frame_spec [OF inv ne] al page_addr_nonzero pmm_min_frame [OF inv ne] show False by auto
  qed
  with al show "free_set s = {} \<and> s' = s" by (simp add: pmm_alloc_frame_empty)
next
  fix s f assume "pmm_inv s" "f \<in> free_set s"
  then show "0 < f \<and> f < 32768" by (metis free_set_bound gr0I pmm_inv_def)
next
  fix s and p :: u32 assume "pmm_inv s" "0 < unat p div 4096" "unat p div 4096 < 32768"
  then show "free_set (pmm_free_frame p s) = insert (unat p div 4096) (free_set s) \<and> pmm_inv (pmm_free_frame p s)"
    using pmm_free_frame_inv [of s p] pmm_free_frame_spec(1) [OF pmm_inv_bitmap, of s p] by simp
next
  fix s and p :: u32 assume "unat p div 4096 \<in> free_set s"
  then show "pmm_free_frame p s = s" by (simp add: pmm_free_frame_noop)
qed

section \<open>Boot\<close>

text \<open>
  What a boot information block says: \<open>tags_at\<close> reads the tag list that starts at an address
  and \<open>entries_at\<close> the memory map entries of one tag. Both follow the pointers the code
  follows, so a list exists exactly when the code's loops end.
\<close>

type_synonym mb_entry = "u64 \<times> u64 \<times> u32"
datatype mb_tag = MmapTag "mb_entry list" | OtherTag

fun entries_at :: "mem \<Rightarrow> u32 \<Rightarrow> u32 \<Rightarrow> u32 \<Rightarrow> mb_entry list \<Rightarrow> bool" where
  "entries_at m sz p e [] \<longleftrightarrow> \<not> p < e"
| "entries_at m sz p e (x # xs) \<longleftrightarrow> p < e \<and>
     x = (entry_base_addr m p, entry_length m p, entry_mem_type m p) \<and> entries_at m sz (p + sz) e xs"

fun tags_at :: "mem \<Rightarrow> u32 \<Rightarrow> mb_tag list \<Rightarrow> bool" where
  "tags_at m p [] \<longleftrightarrow> tag_type m p = 0"
| "tags_at m p (OtherTag # ts) \<longleftrightarrow> tag_type m p \<notin> {0, 6} \<and> tags_at m (next_tag m p) ts"
| "tags_at m p (MmapTag es # ts) \<longleftrightarrow> tag_type m p = 6 \<and>
     entries_at m (mmap_entry_size m p) (p + 16) (p + tag_size m p) es \<and> tags_at m (next_tag m p) ts"

definition frame_range :: "u32 \<Rightarrow> u32 \<Rightarrow> nat set" where
  "frame_range f e = {g. unat f \<le> g \<and> g < unat e \<and> g < 32768}"

definition entry_frames :: "mb_entry \<Rightarrow> nat set" where
  "entry_frames x = (case x of (base, len, ty) \<Rightarrow>
     if ty = MB2_MEMORY_AVAILABLE then
       {f. f < 32768 \<and> unat base \<le> f * 4096 \<and> f * 4096 + 4096 \<le> unat base + unat len} else {})"

definition entry_ok :: "mb_entry \<Rightarrow> bool" where
  "entry_ok x \<longleftrightarrow> (case x of (base, len, ty) \<Rightarrow> unat base + unat len < 2 ^ 43)"

fun tag_entries :: "mb_tag list \<Rightarrow> mb_entry list" where
  "tag_entries [] = []"
| "tag_entries (OtherTag # ts) = tag_entries ts"
| "tag_entries (MmapTag es # ts) = es @ tag_entries ts"

lemma entries_length:
  assumes "entries_at m sz p e es"
  shows "length es < walk_fuel"
proof (rule walk_bound [where stop = "\<lambda>p. \<not> p < e" and nxt = "\<lambda>p. p + sz"])
  have f: "((\<lambda>p. p + sz) ^^ i) (p + sz) = ((\<lambda>p. p + sz) ^^ Suc i) p" for i p
    by (induction i) auto
  show "\<not> ((\<lambda>p. p + sz) ^^ length es) p < e"
    using assms by (induction es arbitrary: p) (auto simp: f simp del: funpow.simps simp flip: f)
  show "\<And>i. i < length es \<Longrightarrow> \<not> \<not> ((\<lambda>p. p + sz) ^^ i) p < e"
    using assms 
  proof (induction es arbitrary: p)
    case (Cons x es)
    then show ?case by (cases i) (auto simp flip: f simp del: funpow.simps)
  qed simp
qed

lemma free_range_spec:
  assumes "bitmap_ok s"
  shows "free_set (free_range f e s) = free_set s \<union> frame_range f e \<and>
    free_frames (free_range f e s) = free_frames s + of_nat (card (frame_range f e)) \<and>
    total_frames (free_range f e s) = total_frames s + of_nat (card (frame_range f e)) \<and>
    bitmap_ok (free_range f e s)"
  using assms
proof (induction f e s rule: free_range.induct)
  case (1 f e s)
  show ?case
  proof (cases "f < e \<and> f < MAX_FRAMES")
    case True
    then have f: "unat f < unat e" "unat f < 32768" by (auto simp: word_less_nat_alt)
    have u: "unat (f + 1) = unat f + 1" using f by (simp add: unat_add_nowrap)
    have r: "frame_range f e = insert (unat f) (frame_range (f + 1) e)" "unat f \<notin> frame_range (f + 1) e"
      using f by (auto simp: frame_range_def u)
    have "finite (frame_range (f + 1) e)" by (simp add: frame_range_def)
    then have c: "card (frame_range f e) = Suc (card (frame_range (f + 1) e))" using r by simp
    show ?thesis
      using "1.IH" [OF True] "1.prems" f True unfolding c
      by (subst (1 2 3 4) free_range.simps) (auto simp: r algebra_simps)
  next
    case False
    then have "frame_range f e = {}" by (auto simp: frame_range_def word_less_nat_alt)
    with False "1.prems" show ?thesis by (subst (1 2 3 4) free_range.simps) auto
  qed
qed


lemma u64_add_nowrap: "unat (a :: u64) + unat b < 2 ^ 64 \<Longrightarrow> unat (a + b) = unat a + unat b"
  by (simp add: unat_word_ariths)

lemma unat_ucast_u64_u32: "unat (ucast (w :: u64) :: u32) = unat w mod 2 ^ 32"
  by (simp add: unsigned_ucast_eq unsigned_take_bit_eq take_bit_eq_mod)

lemma page_ceil_le: "(b + 4095) div 4096 \<le> g \<longleftrightarrow> b \<le> g * (4096 :: nat)"
  by (auto simp: less_Suc_eq_le [symmetric] div_less_iff_less_mult)

lemma page_floor_less: "g < x div 4096 \<longleftrightarrow> g * 4096 + 4096 \<le> (x :: nat)"
  by (auto simp: Suc_le_eq [symmetric] less_eq_div_iff_mult_less_eq)

lemma mmap_entry_frames:
  assumes "entry_ok (entry_base_addr m e, entry_length m e, entry_mem_type m e)"
  shows "\<exists>fs fe. frame_range fs fe = entry_frames (entry_base_addr m e, entry_length m e, entry_mem_type m e) \<and>
    mmap_entry m e s = free_range fs fe s"
proof (cases "entry_mem_type m e = MB2_MEMORY_AVAILABLE")
  case True
  let ?b = "entry_base_addr m e" and ?l = "entry_length m e"
  let ?fs = "ucast ((?b + ucast PAGE_SIZE - 1) div ucast PAGE_SIZE) :: u32"
  let ?fe = "ucast ((?b + ?l) div ucast PAGE_SIZE) :: u32"
  have small: "unat ?b + unat ?l < 2 ^ 43" using assms by (simp add: entry_ok_def)
  have "unat (?b + ucast PAGE_SIZE - 1) = unat ?b + 4095"
  proof -
    have "?b + ucast PAGE_SIZE - 1 = ?b + 4095" by (simp add: PAGE_SIZE_def)
    then show ?thesis using small by (simp add: u64_add_nowrap)
  qed
  then have fs: "unat ?fs = (unat ?b + 4095) div 4096"
    using small by (simp add: unat_ucast_u64_u32 unat_div PAGE_SIZE_def mod_less div_less_iff_less_mult)
  have "unat (?b + ?l) = unat ?b + unat ?l" using small by (simp add: u64_add_nowrap)
  then have fe: "unat ?fe = (unat ?b + unat ?l) div 4096"
    using small by (simp add: unat_ucast_u64_u32 unat_div PAGE_SIZE_def mod_less div_less_iff_less_mult)
  have "frame_range ?fs ?fe = entry_frames (?b, ?l, entry_mem_type m e)"
    unfolding frame_range_def fs fe entry_frames_def using True by (auto simp: page_ceil_le page_floor_less)
  moreover have "mmap_entry m e s = free_range ?fs ?fe s"
    using True by (simp add: mmap_entry_def Let_def)
  ultimately show ?thesis by blast
next
  case False
  have "frame_range 0 0 = {}" by (simp add: frame_range_def)
  moreover have "free_range 0 0 s = s" by (subst free_range.simps) simp
  ultimately show ?thesis
    using False by (intro exI [of _ 0]) (simp add: mmap_entry_def entry_frames_def)
qed


lemma entry_frames_finite [simp]: "finite (entry_frames x)"
  by (auto simp: entry_frames_def split: prod.split)

lemma mmap_entry_spec:
  fixes m e defines "x \<equiv> (entry_base_addr m e, entry_length m e, entry_mem_type m e)"
  assumes "bitmap_ok s" "entry_ok x"
  shows "free_set (mmap_entry m e s) = free_set s \<union> entry_frames x"
    and "free_frames (mmap_entry m e s) = free_frames s + of_nat (card (entry_frames x))"
    and "total_frames (mmap_entry m e s) = total_frames s + of_nat (card (entry_frames x))"
    and "bitmap_ok (mmap_entry m e s)"
  using mmap_entry_frames [of m e s] assms free_range_spec [of s] unfolding x_def by auto

text \<open>What the boot loader's memory map makes available, over a list of entries.\<close>

definition avail :: "mb_entry list \<Rightarrow> nat set" where
  "avail es = (\<Union>x \<in> set es. entry_frames x)"

definition avail_count :: "mb_entry list \<Rightarrow> nat" where
  "avail_count es = sum_list (map (\<lambda>x. card (entry_frames x)) es)"

definition opened :: "mb_entry list \<Rightarrow> pmm \<Rightarrow> pmm \<Rightarrow> bool" where
  "opened es s s' \<longleftrightarrow> free_set s' = free_set s \<union> avail es \<and> bitmap_ok s' \<and>
     free_frames s' = free_frames s + of_nat (avail_count es) \<and>
     total_frames s' = total_frames s + of_nat (avail_count es)"

lemma opened_Nil [simp]: "opened [] s s' \<longleftrightarrow> free_set s' = free_set s \<and> bitmap_ok s' \<and>
    free_frames s' = free_frames s \<and> total_frames s' = total_frames s"
  by (simp add: opened_def avail_def avail_count_def)

lemma opened_append: "opened es s s1 \<Longrightarrow> opened fs s1 s2 \<Longrightarrow> opened (es @ fs) s s2"
  unfolding opened_def by (simp add: avail_def avail_count_def Un_assoc)

lemma mmap_loop_entries:
  assumes "entries_at m sz p e es" "list_all entry_ok es" "bitmap_ok s" "length es < fuel"
  shows "\<exists>s'. mmap_loop fuel m sz p e s = Inr s' \<and> opened es s s'"
  using assms
proof (induction es arbitrary: p s fuel)
  case Nil
  then show ?case by (cases fuel) auto
next
  case (Cons x es)
  then obtain n where fuel: "fuel = Suc n" by (cases fuel) auto
  let ?s = "mmap_entry m p s"
  from Cons.prems have x: "x = (entry_base_addr m p, entry_length m p, entry_mem_type m p)" "entry_ok x" by auto
  have o1: "opened [x] s ?s"
    using mmap_entry_spec [of s m p] Cons.prems(3) x by (simp add: opened_def avail_def avail_count_def)
  then have "bitmap_ok ?s" by (simp add: opened_def)
  with Cons.IH [of "p + sz" ?s n] Cons.prems fuel
  obtain s' where s': "mmap_loop n m sz (p + sz) e ?s = Inr s'" "opened es ?s s'" by auto
  have "opened (x # es) s s'" using opened_append [OF o1 s'(2)] by simp
  then show ?case using s' Cons.prems fuel by auto
qed

lemma tags_at_Cons: "tags_at m p (t # ts) \<Longrightarrow> tag_type m p \<noteq> 0 \<and> tags_at m (next_tag m p) ts"
  by (cases t) auto

lemma tags_length:
  assumes "tags_at m p ts"
  shows "length ts < walk_fuel"
proof (rule walk_bound [where stop = "\<lambda>p. tag_type m p = 0" and nxt = "next_tag m"])
  show "tag_type m ((next_tag m ^^ length ts) p) = 0"
    using assms
  proof (induction ts arbitrary: p)
    case (Cons t ts)
    then show ?case by (simp only: list.size add_Suc_right add_0_right funpow_Suc_app) (blast dest: tags_at_Cons)
  qed simp
  show "\<And>i. i < length ts \<Longrightarrow> tag_type m ((next_tag m ^^ i) p) \<noteq> 0"
    using assms
  proof (induction ts arbitrary: p)
    case (Cons t ts)
    show ?case
    proof (cases i)
      case 0
      with Cons.prems(2) show ?thesis by (auto dest: tags_at_Cons)
    next
      case (Suc j)
      with Cons.prems Cons.IH [of j "next_tag m p"] show ?thesis
        by (simp only: funpow_Suc_app) (auto dest: tags_at_Cons)
    qed
  qed simp
qed

lemma tag_loop_tags:
  assumes "tags_at m p ts" "list_all entry_ok (tag_entries ts)" "bitmap_ok s" "length ts < fuel"
  shows "\<exists>s'. tag_loop fuel m p s = Inr s' \<and> opened (tag_entries ts) s s'"
  using assms
proof (induction m p ts arbitrary: s fuel rule: tags_at.induct)
  case (1 m p)
  then show ?case by (cases fuel) auto
next
  case (2 m p ts)
  then show ?case by (cases fuel) auto
next
  case (3 m p es ts)
  then obtain n where fuel: "fuel = Suc n" by (cases fuel) auto
  obtain s1 where s1: "mmap_loop walk_fuel m (mmap_entry_size m p) (p + 16) (p + tag_size m p) s = Inr s1" "opened es s s1"
  proof -
    from "3.prems" have "entries_at m (mmap_entry_size m p) (p + 16) (p + tag_size m p) es" "list_all entry_ok es"
      by auto
    from mmap_loop_entries [OF this "3.prems"(3) entries_length [OF this(1)]] that show ?thesis by blast
  qed
  then have "bitmap_ok s1" by (simp add: opened_def)
  with "3.IH" [of s1 n] "3.prems" fuel obtain s2 where "tag_loop n m (next_tag m p) s1 = Inr s2" "opened (tag_entries ts) s1 s2"
    by auto
  then show ?case using s1 "3.prems"(1) fuel by (auto intro: opened_append)
qed

lemma mark_kernel_spec:
  assumes "bitmap_ok s"
  shows "free_set (mark_kernel f e s) = free_set s - {g. unat f \<le> g \<and> g \<le> unat e} \<and>
    free_frames (mark_kernel f e s) = free_frames s - of_nat (card (free_set s \<inter> {g. unat f \<le> g \<and> g \<le> unat e})) \<and>
    bitmap_ok (mark_kernel f e s) \<and> total_frames (mark_kernel f e s) = total_frames s"
  using assms
proof (induction f e s rule: mark_kernel.induct)
  case (1 f e s)
  let ?s = "if \<not> frame_test f s then (frame_set f s)\<lparr>free_frames := free_frames s - 1\<rparr> else s"
  show ?case
  proof (cases "f \<le> e \<and> f < MAX_FRAMES")
    case True
    then have f: "unat f \<le> unat e" "unat f < 32768" by (auto simp: word_le_nat_alt)
    have u: "unat (f + 1) = unat f + 1" using f by (simp add: unat_add_nowrap)
    have r: "{g. unat f \<le> g \<and> g \<le> unat e} = insert (unat f) {g. unat (f + 1) \<le> g \<and> g \<le> unat e}"
      using f by (auto simp: u)
    have fs: "free_set ?s = free_set s - {unat f}" "bitmap_ok ?s" "total_frames ?s = total_frames s"
      using "1.prems" f by (auto simp: frame_test_iff)
    have ff: "free_frames ?s = free_frames s - (if unat f \<in> free_set s then 1 else 0)"
      using f by (auto simp: frame_test_iff)
    have c: "card (free_set s \<inter> {g. unat f \<le> g \<and> g \<le> unat e}) =
       (if unat f \<in> free_set s then 1 else 0) + card ((free_set s - {unat f}) \<inter> {g. unat (f + 1) \<le> g \<and> g \<le> unat e})"
    proof -
      have "free_set s \<inter> {g. unat f \<le> g \<and> g \<le> unat e} =
         (if unat f \<in> free_set s then {unat f} else {}) \<union> ((free_set s - {unat f}) \<inter> {g. unat (f + 1) \<le> g \<and> g \<le> unat e})"
        unfolding r u by auto
      then show ?thesis by (simp add: card_insert_if)
    qed
    have step: "mark_kernel f e s = mark_kernel (f + 1) e ?s" using True by (subst mark_kernel.simps) simp
    have d: "free_set s - {unat f} - {g. unat (f + 1) \<le> g \<and> g \<le> unat e} =
        free_set s - {g. unat f \<le> g \<and> g \<le> unat e}" unfolding r by auto
    show ?thesis
      using "1.IH" [OF True fs(2)] unfolding step fs(1,3) ff c d by (cases "unat f \<in> free_set s") simp_all
  next
    case False
    then have "free_set s \<inter> {g. unat f \<le> g \<and> g \<le> unat e} = {}"
      by (auto simp: word_le_nat_alt dest: free_set_bound)
    with False "1.prems" show ?thesis by (subst (1 2 3 4) mark_kernel.simps) auto
  qed
qed

lemma free_set_all_used: "free_set (s\<lparr>pmm_bitmap := replicate 1024 0xFFFFFFFF\<rparr>) = {}"
proof -
  let ?s = "s\<lparr>pmm_bitmap := replicate 1024 0xFFFFFFFF\<rparr>"
  have "f \<notin> free_set ?s" for f
  proof (cases "f < 32768")
    case True
    then have "f div 32 < 1024" by simp
    then have "{f div 32 * 32..<f div 32 * 32 + 32} \<inter> free_set ?s = {}"
      by (intro bitmap_word_full) auto
    moreover have "f \<in> {f div 32 * 32..<f div 32 * 32 + 32}" by auto
    ultimately show ?thesis by blast
  qed (auto dest: free_set_bound)
  then show ?thesis by blast
qed

definition reserved :: "u32 \<Rightarrow> u32 \<Rightarrow> nat set" where
  "reserved kernel_end mboot_ptr =
     {f. f \<le> unat ((kernel_end + PAGE_SIZE - 1) div PAGE_SIZE)} \<union> {unat mboot_ptr div 4096}"

lemma zero_reserved [simp]: "0 \<in> reserved k p"
  by (simp add: reserved_def)

lemma mark_boot_info:
  fixes s b
  defines "s' \<equiv> if b < MAX_FRAMES \<and> \<not> frame_test b s then (frame_set b s)\<lparr>free_frames := free_frames s - 1\<rparr> else s"
  assumes "bitmap_ok s"
  shows "free_set s' = free_set s - {unat b}" "bitmap_ok s'" "total_frames s' = total_frames s"
    "free_frames s' = free_frames s - of_nat (card (free_set s \<inter> {unat b}))"
proof -
  have "b < MAX_FRAMES \<and> \<not> frame_test b s \<longleftrightarrow> unat b \<in> free_set s"
    using frame_test_iff [of b s] free_set_bound [of "unat b" s] by auto
  then have "s' = (if unat b \<in> free_set s then (frame_set b s)\<lparr>free_frames := free_frames s - 1\<rparr> else s)"
    by (simp add: s'_def)
  then show "free_set s' = free_set s - {unat b}" "bitmap_ok s'" "total_frames s' = total_frames s"
    "free_frames s' = free_frames s - of_nat (card (free_set s \<inter> {unat b}))"
    using assms(2) free_set_bound [of "unat b" s] by auto
qed

lemma pmm_init_spec:
  assumes tags: "tags_at m (mboot_ptr + 8) ts" and ok: "list_all entry_ok (tag_entries ts)"
  shows "\<exists>s'. pmm_init m kernel_end mboot_ptr s = Inr s' \<and> bitmap_ok s' \<and>
    free_set s' = avail (tag_entries ts) - reserved kernel_end mboot_ptr \<and>
    free_frames s' = free_frames s + of_nat (avail_count (tag_entries ts))
      - of_nat (card ((avail (tag_entries ts) - {0}) \<inter> reserved kernel_end mboot_ptr)) \<and>
    total_frames s' = total_frames s + of_nat (avail_count (tag_entries ts))"
proof -
  define s0 where "s0 = s\<lparr>pmm_bitmap := replicate 1024 0xFFFFFFFF\<rparr>"
  define A where "A = avail (tag_entries ts)"
  define k where "k = (kernel_end + PAGE_SIZE - 1) div PAGE_SIZE"
  define b where "b = mboot_ptr div PAGE_SIZE"
  have "bitmap_ok s0" by (simp add: bitmap_ok_def s0_def)
  from tag_loop_tags [OF tags ok this tags_length [OF tags]]
  obtain s1 where s1: "tag_loop walk_fuel m (mboot_ptr + 8) s0 = Inr s1" "opened (tag_entries ts) s0 s1" by blast
  then have s1': "free_set s1 = A" "bitmap_ok s1" "free_frames s1 = free_frames s + of_nat (avail_count (tag_entries ts))"
    "total_frames s1 = total_frames s + of_nat (avail_count (tag_entries ts))"
    by (simp_all add: opened_def free_set_all_used s0_def A_def)
  define s3 where "s3 = mark_kernel 0 k (frame_set 0 s1)"
  have s3: "free_set s3 = A - {0} - {g. g \<le> unat k}" "bitmap_ok s3" "total_frames s3 = total_frames s1"
    "free_frames s3 = free_frames s1 - of_nat (card ((A - {0}) \<inter> {g. g \<le> unat k}))"
    using mark_kernel_spec [of "frame_set 0 s1" 0 k] s1' by (simp_all add: s3_def)
  define s4 where "s4 = (if b < MAX_FRAMES \<and> \<not> frame_test b s3
    then (frame_set b s3)\<lparr>free_frames := free_frames s3 - 1\<rparr> else s3)"
  note s4 = mark_boot_info [OF s3(2), of b, folded s4_def]
  have R: "reserved kernel_end mboot_ptr = {g. g \<le> unat k} \<union> {unat b}"
    by (simp add: reserved_def k_def b_def)
  have "card ((A - {0}) \<inter> ({g. g \<le> unat k} \<union> {unat b})) =
      card ((A - {0}) \<inter> {g. g \<le> unat k}) + card ((A - {0} - {g. g \<le> unat k}) \<inter> {unat b})"
    by (subst card_Un_disjoint [symmetric]) (auto intro!: arg_cong [where f = card])
  then have "free_frames s4 = free_frames s1 - of_nat (card ((A - {0}) \<inter> reserved kernel_end mboot_ptr))"
    by (simp add: s4(4) s3 R)
  moreover have "pmm_init m kernel_end mboot_ptr s = Inr s4"
    using s1(1) by (simp add: pmm_init_def Let_def s4_def s3_def k_def b_def s0_def)
  moreover have "free_set s4 = A - reserved kernel_end mboot_ptr"
    unfolding s4(1) s3 R by auto
  ultimately show ?thesis using s4(2,3) s3(3) s1' by (simp add: A_def)
qed

lemma avail_count_disjoint:
  assumes "distinct es" "pairwise (\<lambda>x y. entry_frames x \<inter> entry_frames y = {}) (set es)"
  shows "avail_count es = card (avail es)"
proof -
  have "avail_count es = (\<Sum>x\<in>set es. card (entry_frames x))"
    using assms(1) by (simp add: avail_count_def sum_list_distinct_conv_sum_set)
  also have "\<dots> = card (avail es)"
    unfolding avail_def using assms(2)
    by (intro card_UN_disjoint [symmetric]) (auto simp: pairwise_def)
  finally show ?thesis .
qed

lemma frame_clear_set:
  assumes "bitmap_ok s" "unat f \<in> free_set s"
  shows "frame_clear f (frame_set f s) = s"
proof -
  let ?i = "unat f div 32" and ?w = "pmm_bitmap s ! (unat f div 32)"
  have i: "?i < length (pmm_bitmap s)" using assms free_set_bound [OF assms(2)] by (simp add: bitmap_ok_def)
  have nb: "\<not> bit ?w (unat f mod 32)" using assms(2) by (simp add: free_set_def)
  have "(?w OR push_bit (unat f mod 32) 1) AND NOT (push_bit (unat f mod 32) 1) = ?w"
    by (rule bit_word_eqI) (use nb in \<open>auto simp: bit_simps\<close>)
  then have "(pmm_bitmap s)[?i := (?w OR push_bit (unat f mod 32) 1) AND NOT (push_bit (unat f mod 32) 1)] = pmm_bitmap s"
    by (simp only: list_update_id)
  then show ?thesis using i by (simp add: frame_clear_def frame_set_def Let_def)
qed

lemma pmm_alloc_Some:
  assumes "pmm_inv s" "pmm_alloc_frame s = (p, s')" "p \<noteq> 0"
  shows "\<exists>f. unat f \<in> free_set s \<and> p = f * PAGE_SIZE \<and> s' = (frame_set f s)\<lparr>free_frames := free_frames s - 1\<rparr>"
proof -
  from assms obtain f where f: "scan_words 0 s = Some f" "p = f * PAGE_SIZE" "s' = (frame_set f s)\<lparr>free_frames := free_frames s - 1\<rparr>"
    by (auto simp: pmm_alloc_frame_def split: if_splits option.splits)
  moreover have "unat f \<in> free_set s" using scan_words_spec [of 0 s] f(1) by simp
  ultimately show ?thesis by blast
qed

lemma frame_addr_div: "unat f < 32768 \<Longrightarrow> f * PAGE_SIZE div PAGE_SIZE = f"
  using unat_frame_addr [of "unat f"] by (simp add: word_unat_eq_iff)

lemma pmm_init_count:
  assumes "tags_at m (mboot_ptr + 8) ts" "list_all entry_ok (tag_entries ts)" "free_frames s = 0"
    and "distinct (tag_entries ts)" "pairwise (\<lambda>x y. entry_frames x \<inter> entry_frames y = {}) (set (tag_entries ts))"
  shows "\<exists>s'. pmm_init m kernel_end mboot_ptr s = Inr s' \<and>
    free_set s' = avail (tag_entries ts) - reserved kernel_end mboot_ptr \<and>
    unat (free_frames s') = card (free_set s') + (if 0 \<in> avail (tag_entries ts) then 1 else 0) \<and> pmm_inv s'"
proof -
  define A where "A = avail (tag_entries ts)"
  define R where "R = reserved kernel_end mboot_ptr"
  have fin: "A \<subseteq> {..<32768}" "finite A"
    by (auto simp: A_def avail_def entry_frames_def split: if_splits)
  have cA: "card A \<le> 32768" using card_mono [OF _ fin(1)] by simp
  from pmm_init_spec [OF assms(1,2), of kernel_end s] obtain s' where
    s': "pmm_init m kernel_end mboot_ptr s = Inr s'" "bitmap_ok s'" "free_set s' = A - R"
      "free_frames s' = of_nat (card A) - of_nat (card ((A - {0}) \<inter> R))"
    using assms(3) avail_count_disjoint [OF assms(4,5)] by (auto simp: A_def R_def)
  have "A = (A - R) \<union> ((A - {0}) \<inter> R) \<union> (A \<inter> {0})" using zero_reserved by (auto simp: R_def)
  then have "card A = card ((A - R) \<union> ((A - {0}) \<inter> R) \<union> (A \<inter> {0}))" by simp
  also have "\<dots> = card ((A - R) \<union> ((A - {0}) \<inter> R)) + card (A \<inter> {0})"
    using fin zero_reserved by (intro card_Un_disjoint) (auto simp: R_def)
  also have "card ((A - R) \<union> ((A - {0}) \<inter> R)) = card (A - R) + card ((A - {0}) \<inter> R)"
    using fin by (intro card_Un_disjoint) auto
  finally have c: "card A = card (A - R) + card ((A - {0}) \<inter> R) + card (A \<inter> {0})" .
  have z: "card (A \<inter> {0}) = (if 0 \<in> A then 1 else 0)" by auto
  have "free_frames s' = of_nat (card (A - R) + card (A \<inter> {0}))"
    using s'(4) c by simp
  then have ff: "unat (free_frames s') = card (A - R) + (if 0 \<in> A then 1 else 0)"
    using c cA unfolding z by (simp add: unat_of_nat del: of_nat_add)
  moreover have "pmm_inv s'"
    using s' ff zero_reserved by (auto simp: pmm_inv_def R_def)
  ultimately show ?thesis using s' by (auto simp: A_def R_def)
qed

definition boot_mem_ex :: mem where
  "boot_mem_ex = store32 0x10008 6 (store32 0x1000C 64 (store32 0x10010 24
     (store32 0x10018 0 (store32 0x1001C 0 (store32 0x10020 0x9F000 (store32 0x10024 0 (store32 0x10028 1
     (store32 0x10030 0x100000 (store32 0x10034 0 (store32 0x10038 0x200000 (store32 0x1003C 0 (store32 0x10040 1
       (\<lambda>_. 0)))))))))))))"

definition boot_entries_ex :: "mb_entry list" where
  "boot_entries_ex = [(0, 0x9F000, 1), (0x100000, 0x200000, 1)]"

lemma boot_tags_ex: "tags_at boot_mem_ex (0x10000 + 8) [MmapTag boot_entries_ex]"
  by (simp add: tags_at.simps boot_entries_ex_def boot_mem_ex_def mem_simps tag_type_def tag_size_def mmap_entry_size_def
     entry_base_addr_def entry_length_def entry_mem_type_def load64_def next_tag_def)

section \<open>Properties\<close>

text \<open>
  C10: on a boot information block whose tag list ends, \<open>pmm_init\<close> returns, and the frames it
  leaves free are exactly those that lie wholly inside an available region of the memory map, less
  frame 0, the kernel image and the frame that holds the boot information.
\<close>

theorem pmm_init_free_frames:
  assumes "tags_at m (mboot_ptr + 8) ts" "list_all entry_ok (tag_entries ts)"
  shows "\<exists>s'. pmm_init m kernel_end mboot_ptr s = Inr s' \<and>
    free_set s' = avail (tag_entries ts) - reserved kernel_end mboot_ptr"
  using pmm_init_spec [OF assms] by blast

definition pmm_zero :: pmm where
  "pmm_zero = \<lparr>pmm_bitmap = replicate 1024 0, total_frames = 0, free_frames = 0\<rparr>"

theorem pmm_init_free_frames_witness:
  "\<exists>s'. pmm_init boot_mem_ex 0x150000 0x10000 pmm_zero = Inr s' \<and>
    free_set s' = avail boot_entries_ex - reserved 0x150000 0x10000"
  using pmm_init_free_frames [OF boot_tags_ex, of "0x150000" pmm_zero]
  by (simp add: boot_entries_ex_def entry_ok_def)

text \<open>
  With memory map entries that do not overlap, \<open>pmm_init\<close> counts one free frame too many
  when frame 0 is available: step 3 of the code marks frame 0 as used without decrementing
  \<open>free_frames\<close>. The state it leaves satisfies the invariant of the allocator all the same.
\<close>

theorem pmm_init_counts_frame_zero:
  assumes "tags_at m (mboot_ptr + 8) ts" "list_all entry_ok (tag_entries ts)" "free_frames s = 0"
    and "distinct (tag_entries ts)"
    and "pairwise (\<lambda>x y. entry_frames x \<inter> entry_frames y = {}) (set (tag_entries ts))"
  shows "\<exists>s'. pmm_init m kernel_end mboot_ptr s = Inr s' \<and> pmm_inv s' \<and>
    unat (free_frames s') = card (free_set s') + (if 0 \<in> avail (tag_entries ts) then 1 else 0)"
  using pmm_init_count [OF assms] by blast

lemma boot_entries_ex_frames:
  "entry_frames (0, 0x9F000, 1) = {..<159}" "entry_frames (0x100000, 0x200000, 1) = {256..<768}"
  by (auto simp: entry_frames_def MB2_MEMORY_AVAILABLE_def)

theorem pmm_init_counts_frame_zero_witness:
  "\<exists>s'. pmm_init boot_mem_ex 0x150000 0x10000 pmm_zero = Inr s' \<and> pmm_inv s' \<and>
    unat (free_frames s') = card (free_set s') + 1"
proof -
  have "0 \<in> avail boot_entries_ex" by (simp add: avail_def boot_entries_ex_def boot_entries_ex_frames)
  then show ?thesis
    using pmm_init_counts_frame_zero [OF boot_tags_ex, of pmm_zero "0x150000"]
    by (simp add: boot_entries_ex_def entry_ok_def pmm_zero_def pairwise_insert boot_entries_ex_frames)
      (auto simp: disjoint_iff)
qed

text \<open>
  C30: allocation is first fit. With a free frame, \<open>pmm_alloc_frame\<close> returns the address of the
  lowest one, marks that frame and no other as used, counts it and keeps the invariant; with none
  it returns 0 and changes nothing.
\<close>

theorem pmm_alloc_first_fit:
  assumes "pmm_inv s"
  shows "if free_set s = {} then pmm_alloc_frame s = (0, s)
    else \<exists>s'. pmm_alloc_frame s = (of_nat (Min (free_set s)) * PAGE_SIZE, s') \<and>
      free_set s' = free_set s - {Min (free_set s)} \<and>
      unat (free_frames s') = unat (free_frames s) - 1 \<and> pmm_inv s'"
  using pmm_alloc_frame_spec [OF assms] pmm_alloc_frame_empty by auto

text \<open>Three free frames, handed back by the code itself.\<close>

definition pmm_three :: pmm where
  "pmm_three = pmm_free_frame 0x3000 (pmm_free_frame 0x2000 (pmm_free_frame 0x1000
     (pmm_zero\<lparr>pmm_bitmap := replicate 1024 0xFFFFFFFF\<rparr>)))"

lemma pmm_full_inv: "pmm_inv (pmm_zero\<lparr>pmm_bitmap := replicate 1024 0xFFFFFFFF\<rparr>)"
  unfolding pmm_inv_def free_set_all_used by (simp add: bitmap_ok_def pmm_zero_def)

lemma pmm_three_inv: "pmm_inv pmm_three"
  unfolding pmm_three_def by (intro pmm_free_frame_inv pmm_full_inv) simp_all

lemma pmm_three_free: "free_set pmm_three = {1, 2, 3}"
proof -
  have ok: "bitmap_ok (pmm_free_frame p s)" if "bitmap_ok s" for p s
    using that by (simp add: pmm_free_frame_def Let_def)
  show ?thesis
    using pmm_inv_bitmap [OF pmm_full_inv]
    by (simp add: pmm_three_def pmm_free_frame_spec(1) ok free_set_all_used insert_commute)
qed

theorem pmm_alloc_first_fit_witness:
  "\<exists>s'. pmm_alloc_frame pmm_three = (0x1000, s') \<and> free_set s' = {2, 3} \<and> pmm_inv s'"
  using pmm_alloc_first_fit [OF pmm_three_inv]
  by (auto simp: pmm_three_free PAGE_SIZE_def insert_Diff_if)

text \<open>
  Releasing the frame an allocation returned restores the allocator exactly, bitmap and
  counters.
\<close>

theorem pmm_free_alloc_roundtrip:
  assumes "pmm_inv s" "pmm_alloc_frame s = (p, s')" "p \<noteq> 0"
  shows "pmm_free_frame p s' = s"
proof -
  from pmm_alloc_Some [OF assms] obtain f where f: "unat f \<in> free_set s" "p = f * PAGE_SIZE"
    "s' = (frame_set f s)\<lparr>free_frames := free_frames s - 1\<rparr>" by blast
  have lt: "unat f < 32768" using f(1) by (rule free_set_bound)
  have ok: "bitmap_ok s" using assms(1) by (rule pmm_inv_bitmap)
  have "frame_test f s'" using f lt ok by (simp add: frame_test_iff)
  then have "pmm_free_frame p s' = (frame_clear f s')\<lparr>free_frames := free_frames s' + 1\<rparr>"
    using lt by (simp add: pmm_free_frame_def f(2) frame_addr_div frame_ge_MAX)
  also have "\<dots> = (frame_clear f (frame_set f s))\<lparr>free_frames := free_frames s\<rparr>"
    by (simp add: f(3) frame_clear_def Let_def)
  also have "\<dots> = s" using frame_clear_set [OF ok f(1)] by simp
  finally show ?thesis .
qed

theorem pmm_free_alloc_roundtrip_witness:
  "pmm_alloc_frame pmm_three = (0x1000, snd (pmm_alloc_frame pmm_three)) \<and>
   pmm_free_frame 0x1000 (snd (pmm_alloc_frame pmm_three)) = pmm_three"
proof -
  have "pmm_alloc_frame pmm_three = (0x1000, snd (pmm_alloc_frame pmm_three))"
    using pmm_alloc_frame_spec [OF pmm_three_inv] by (auto simp: pmm_three_free PAGE_SIZE_def)
  then show ?thesis using pmm_free_alloc_roundtrip [OF pmm_three_inv, of "0x1000"] by simp
qed

text \<open>
  The double free guard works: releasing an address a second time changes nothing, whatever the
  address.
\<close>

theorem pmm_free_frame_twice:
  assumes "bitmap_ok s"
  shows "pmm_free_frame p (pmm_free_frame p s) = pmm_free_frame p s"
  by (rule pmm_free_frame_noop) (use pmm_free_frame_spec(1) [OF assms, of p] in auto)

theorem pmm_free_frame_twice_witness:
  "pmm_free_frame 0x5000 (pmm_free_frame 0x5000 pmm_three) = pmm_free_frame 0x5000 pmm_three"
  by (rule pmm_free_frame_twice [OF pmm_inv_bitmap [OF pmm_three_inv]])

end
