(* ===== verification/Kmalloc.thy ===== *)
theory Kmalloc
  imports Pmm
begin

text \<open>
  The kernel heap of \<open>mm/kmalloc.c\<close>: blocks with a 16 byte header in physical memory, linked in
  a list, allocated first fit with splitting and merged again on release. The block headers live
  in the same byte memory as the data of the blocks.

  \<open>heap_inv\<close> relates the memory to a list of abstract blocks. \<open>kmalloc\<close> and \<open>kfree\<close>
  refine first-fit allocation and merging on that list; the locale \<open>object_heap\<close> is the contract
  the process code relies on.
\<close>

section \<open>Model\<close>

definition BLOCK_MAGIC :: u32 where "BLOCK_MAGIC = 0xB10C0DE0"
definition BLOCK_HEADER_SIZE :: u32 where "BLOCK_HEADER_SIZE = 16"
definition MIN_SPLIT_SIZE :: u32 where "MIN_SPLIT_SIZE = 8"

record heap =
  heap_start :: u32
  heap_total_bytes :: u32

text \<open>The fields of \<open>block_t\<close>, at their offsets.\<close>

definition blk_magic :: "mem \<Rightarrow> u32 \<Rightarrow> u32" where "blk_magic m b = load32 m b"
definition blk_size :: "mem \<Rightarrow> u32 \<Rightarrow> u32" where "blk_size m b = load32 m (b + 4)"
definition blk_free :: "mem \<Rightarrow> u32 \<Rightarrow> u32" where "blk_free m b = load32 m (b + 8)"
definition blk_next :: "mem \<Rightarrow> u32 \<Rightarrow> u32" where "blk_next m b = load32 m (b + 12)"

definition write_block :: "u32 \<Rightarrow> u32 \<Rightarrow> u32 \<Rightarrow> u32 \<Rightarrow> mem \<Rightarrow> mem" where
  "write_block b sz free nxt m =
     store32 (b + 12) nxt (store32 (b + 8) free (store32 (b + 4) sz (store32 b BLOCK_MAGIC m)))"

fun kmalloc_init_loop :: "nat \<Rightarrow> u32 \<Rightarrow> heap \<Rightarrow> pmm \<Rightarrow> mem \<Rightarrow> heap \<times> pmm \<times> mem" where
  "kmalloc_init_loop 0 prev h p m = (h, p, m)"
| "kmalloc_init_loop (Suc n) prev h p m =
     (let (phys, p) = pmm_alloc_frame p in
      if phys = 0 then (h, p, m)
      else
        (let m = write_block phys (PAGE_SIZE - BLOCK_HEADER_SIZE) 1 0 m;
             h = (if heap_start h = 0 then h\<lparr>heap_start := phys\<rparr> else h);
             m = (if prev \<noteq> 0 then store32 (prev + 12) phys m else m);
             h = h\<lparr>heap_total_bytes := heap_total_bytes h + PAGE_SIZE\<rparr>
         in kmalloc_init_loop n phys h p m))"

definition kmalloc_init :: "u32 \<Rightarrow> heap \<Rightarrow> pmm \<Rightarrow> mem \<Rightarrow> heap \<times> pmm \<times> mem" where
  "kmalloc_init pages h p m =
     (if pages = 0 then (h, p, m)
      else kmalloc_init_loop (unat pages) 0 (h\<lparr>heap_total_bytes := 0\<rparr>) p m)"

definition split_block :: "u32 \<Rightarrow> u32 \<Rightarrow> mem \<Rightarrow> mem" where
  "split_block blk sz m =
     (if blk_size m blk \<le> sz + BLOCK_HEADER_SIZE + MIN_SPLIT_SIZE then m
      else
        (let new_blk = blk + BLOCK_HEADER_SIZE + sz;
             m = write_block new_blk (blk_size m blk - sz - BLOCK_HEADER_SIZE) 1 (blk_next m blk) m;
             m = store32 (blk + 4) sz m
         in store32 (blk + 12) new_blk m))"

fun coalesce_loop :: "nat \<Rightarrow> u32 \<Rightarrow> mem \<Rightarrow> mem res" where
  "coalesce_loop 0 cur m = Inl NoReturn"
| "coalesce_loop (Suc fuel) cur m =
     (if cur \<noteq> 0 \<and> blk_next m cur \<noteq> 0 then
        (let end_of_cur = cur + BLOCK_HEADER_SIZE + blk_size m cur; nxt = blk_next m cur in
         if blk_free m cur \<noteq> 0 \<and> blk_free m nxt \<noteq> 0 \<and> nxt = end_of_cur then
           (let m1 = store32 (cur + 4) (blk_size m cur + (BLOCK_HEADER_SIZE + blk_size m nxt)) m;
                m2 = store32 (cur + 12) (blk_next m1 (blk_next m1 cur)) m1
            in coalesce_loop fuel cur m2)
         else coalesce_loop fuel nxt m)
      else Inr m)"

definition coalesce :: "heap \<Rightarrow> mem \<Rightarrow> mem res" where
  "coalesce h m = coalesce_loop walk_fuel (heap_start h) m"

fun kmalloc_loop :: "nat \<Rightarrow> u32 \<Rightarrow> u32 \<Rightarrow> mem \<Rightarrow> (u32 \<times> mem) res" where
  "kmalloc_loop 0 cur sz m = Inl NoReturn"
| "kmalloc_loop (Suc fuel) cur sz m =
     (if cur \<noteq> 0 then
        (if blk_free m cur \<noteq> 0 \<and> blk_size m cur \<ge> sz
         then Inr (cur + BLOCK_HEADER_SIZE, store32 (cur + 8) 0 (split_block cur sz m))
         else kmalloc_loop fuel (blk_next m cur) sz m)
      else Inr (0, m))"

definition kmalloc :: "heap \<Rightarrow> u32 \<Rightarrow> mem \<Rightarrow> (u32 \<times> mem) res" where
  "kmalloc h sz m =
     (if sz = 0 \<or> heap_start h = 0 then Inr (0, m)
      else kmalloc_loop walk_fuel (heap_start h) ((sz + 3) AND NOT 3) m)"

definition kfree :: "heap \<Rightarrow> u32 \<Rightarrow> mem \<Rightarrow> mem res" where
  "kfree h ptr m =
     (if ptr = 0 then Inr m
      else
        (let blk = ptr - BLOCK_HEADER_SIZE in
         if blk_magic m blk \<noteq> BLOCK_MAGIC \<or> blk_free m blk \<noteq> 0
         then Inl (Panic ''kfree: invalid pointer or double-free'')
         else coalesce h (store32 (blk + 8) 1 m)))"

record heap_stats =
  total_blocks :: u32
  free_blocks :: u32
  used_blocks :: u32
  free_bytes :: u32
  used_bytes :: u32

fun stats_loop :: "nat \<Rightarrow> mem \<Rightarrow> u32 \<Rightarrow> heap_stats \<Rightarrow> heap_stats res" where
  "stats_loop 0 m cur st = Inl NoReturn"
| "stats_loop (Suc fuel) m cur st =
     (if cur \<noteq> 0 then
        (let st = st\<lparr>total_blocks := total_blocks st + 1\<rparr>;
             st = (if blk_free m cur \<noteq> 0
                   then st\<lparr>free_blocks := free_blocks st + 1, free_bytes := free_bytes st + blk_size m cur\<rparr>
                   else st\<lparr>used_blocks := used_blocks st + 1, used_bytes := used_bytes st + blk_size m cur\<rparr>)
         in stats_loop fuel m (blk_next m cur) st)
      else Inr st)"

definition kmalloc_print_stats :: "heap \<Rightarrow> mem \<Rightarrow> vga \<Rightarrow> vga res" where
  "kmalloc_print_stats h m s =
     bindR (stats_loop walk_fuel m (heap_start h)
              \<lparr>total_blocks = 0, free_blocks = 0, used_blocks = 0, free_bytes = 0, used_bytes = 0\<rparr>)
       (\<lambda>st. let s = vga_set_color VGA_COLOR_LIGHT_GREEN s;
             s = kprint (lit ''[OK] kmalloc heap initialized\<newline>'') s;
             s = vga_set_color VGA_COLOR_LIGHT_GREY s;
             s = kprint (lit ''     Heap size   : '') s;
             s = kprint_int (heap_total_bytes h) s;
             s = kprint (lit '' bytes ('') s;
             s = kprint_int (heap_total_bytes h div 1024) s;
             s = kprint (lit '' KB)\<newline>'') s;
             s = kprint (lit ''     Free        : '') s;
             s = kprint_int (free_bytes st) s;
             s = kprint (lit '' bytes in '') s;
             s = kprint_int (free_blocks st) s;
             s = kprint (lit '' block(s)\<newline>'') s;
             s = kprint (lit ''     Used        : '') s;
             s = kprint_int (used_bytes st) s;
             s = kprint (lit '' bytes in '') s;
             s = kprint_int (used_blocks st) s;
             s = kprint (lit '' block(s)\<newline>'') s;
             s = kprint (lit ''     Total       : '') s;
             s = kprint_int (total_blocks st) s
         in Inr (kprint (lit '' block(s)\<newline>'') s))"

section \<open>Abstract blocks\<close>

datatype blk = Blk (b_addr: u32) (b_size: u32) (b_free: bool)

definition extent :: "blk \<Rightarrow> nat set" where
  "extent b = {unat (b_addr b)..<unat (b_addr b) + 16 + unat (b_size b)}"

definition header :: "blk \<Rightarrow> nat set" where
  "header b = {unat (b_addr b)..<unat (b_addr b) + 16}"

definition blk_ok :: "blk \<Rightarrow> bool" where
  "blk_ok b \<longleftrightarrow> b_addr b \<noteq> 0 \<and> aligned 4 (b_addr b) \<and> aligned 4 (b_size b) \<and>
     unat (b_addr b) + 16 + unat (b_size b) < 2 ^ 31"

definition wf_arena :: "blk list \<Rightarrow> bool" where
  "wf_arena bs \<longleftrightarrow> list_all blk_ok bs \<and> sorted_wrt (\<lambda>a b. extent a \<inter> extent b = {}) bs"

fun arena :: "mem \<Rightarrow> u32 \<Rightarrow> blk list \<Rightarrow> bool" where
  "arena m p [] \<longleftrightarrow> p = 0"
| "arena m p (b # bs) \<longleftrightarrow> p = b_addr b \<and> p \<noteq> 0 \<and> blk_magic m p = BLOCK_MAGIC \<and> blk_size m p = b_size b \<and>
     (blk_free m p \<noteq> 0) = b_free b \<and> arena m (blk_next m p) bs"

definition heap_inv :: "heap \<Rightarrow> mem \<Rightarrow> blk list \<Rightarrow> bool" where
  "heap_inv h m bs \<longleftrightarrow> arena m (heap_start h) bs \<and> wf_arena bs"

subsection \<open>The operations on abstract blocks\<close>

definition take_block :: "blk \<Rightarrow> u32 \<Rightarrow> blk list" where
  "take_block b sz =
     (if b_size b \<le> sz + BLOCK_HEADER_SIZE + MIN_SPLIT_SIZE then [Blk (b_addr b) (b_size b) False]
      else [Blk (b_addr b) sz False, Blk (b_addr b + BLOCK_HEADER_SIZE + sz) (b_size b - sz - BLOCK_HEADER_SIZE) True])"

fun abs_alloc :: "u32 \<Rightarrow> blk list \<Rightarrow> u32 \<times> blk list" where
  "abs_alloc sz [] = (0, [])"
| "abs_alloc sz (b # bs) =
     (if b_free b \<and> sz \<le> b_size b then (b_addr b + BLOCK_HEADER_SIZE, take_block b sz @ bs)
      else (let (p, bs') = abs_alloc sz bs in (p, b # bs')))"

definition mergeable :: "blk \<Rightarrow> blk \<Rightarrow> bool" where
  "mergeable a b \<longleftrightarrow> b_free a \<and> b_free b \<and> b_addr b = b_addr a + BLOCK_HEADER_SIZE + b_size a"

fun abs_coalesce :: "blk list \<Rightarrow> blk list" where
  "abs_coalesce (a # b # bs) =
     (if mergeable a b
      then abs_coalesce (Blk (b_addr a) (b_size a + (BLOCK_HEADER_SIZE + b_size b)) True # bs)
      else a # abs_coalesce (b # bs))"
| "abs_coalesce bs = bs"

definition abs_mark :: "u32 \<Rightarrow> blk list \<Rightarrow> blk list" where
  "abs_mark a bs = map (\<lambda>b. if b_addr b = a then Blk (b_addr b) (b_size b) True else b) bs"

definition abs_free :: "u32 \<Rightarrow> blk list \<Rightarrow> blk list" where
  "abs_free p bs = abs_coalesce (abs_mark (p - BLOCK_HEADER_SIZE) bs)"

section \<open>Geometry\<close>

lemma hdr_size [simp]: "unat BLOCK_HEADER_SIZE = 16"
  by (simp add: BLOCK_HEADER_SIZE_def)

lemma aligned4_add: "aligned 4 a \<Longrightarrow> aligned 4 b \<Longrightarrow> unat a + unat b < 2 ^ 32 \<Longrightarrow> aligned 4 (a + b)"
  by (simp add: aligned_def unat_add_nowrap)

lemma header_subset_extent: "header b \<subseteq> extent b"
  by (auto simp: header_def extent_def)

lemma blk_okD:
  assumes "blk_ok b"
  shows "b_addr b \<noteq> 0" "aligned 4 (b_addr b)" "aligned 4 (b_size b)"
    "unat (b_addr b) + 16 + unat (b_size b) < 2 ^ 31"
  using assms by (auto simp: blk_ok_def)

lemma blk_ok_fields:
  assumes "blk_ok b"
  shows "unat (b_addr b + 4) = unat (b_addr b) + 4" "unat (b_addr b + 8) = unat (b_addr b) + 8"
    "unat (b_addr b + 12) = unat (b_addr b) + 12" "unat (b_addr b + 16) = unat (b_addr b) + 16"
    "aligned 4 (b_addr b + 4)" "aligned 4 (b_addr b + 8)" "aligned 4 (b_addr b + 12)"
  using blk_okD [OF assms] by (auto simp: unat_add_nowrap aligned_def)

lemma wf_arena_Cons: "wf_arena (b # bs) \<longleftrightarrow> blk_ok b \<and> (\<forall>c \<in> set bs. extent b \<inter> extent c = {}) \<and> wf_arena bs"
  by (auto simp: wf_arena_def)

lemma wf_arena_append:
  "wf_arena (as @ bs) \<longleftrightarrow> wf_arena as \<and> wf_arena bs \<and> (\<forall>a \<in> set as. \<forall>b \<in> set bs. extent a \<inter> extent b = {})"
  by (auto simp: wf_arena_def sorted_wrt_append)

lemma blk_addr_in_extent: "blk_ok b \<Longrightarrow> unat (b_addr b) \<in> extent b"
  by (simp add: extent_def)

lemma wf_arena_distinct: "wf_arena bs \<Longrightarrow> distinct (map b_addr bs) \<and> 0 \<notin> set (map b_addr bs)"
proof (induction bs)
  case (Cons b bs)
  then have "b_addr b \<notin> set (map b_addr bs)"
    using blk_addr_in_extent unfolding wf_arena_Cons
    by (fastforce simp: extent_def)
  with Cons show ?case by (auto simp: wf_arena_Cons dest: blk_okD(1))
qed simp

lemma wf_arena_length: "wf_arena bs \<Longrightarrow> length bs < walk_fuel"
  using length_distinct_nonzero_u32 [of "map b_addr bs"] wf_arena_distinct [of bs] by simp

lemma agree_header:
  assumes "blk_ok b" "agree (header b) m m'"
  shows "blk_magic m (b_addr b) = blk_magic m' (b_addr b)" "blk_size m (b_addr b) = blk_size m' (b_addr b)"
    "blk_free m (b_addr b) = blk_free m' (b_addr b)" "blk_next m (b_addr b) = blk_next m' (b_addr b)"
  unfolding blk_magic_def blk_size_def blk_free_def blk_next_def
  using blk_ok_fields [OF assms(1)] blk_okD [OF assms(1)]
  by (auto intro!: agree_load32 [OF assms(2)] simp: header_def)

lemma arena_cong:
  assumes "wf_arena bs" "agree (\<Union> (header ` set bs)) m m'"
  shows "arena m p bs \<longleftrightarrow> arena m' p bs"
  using assms
proof (induction bs arbitrary: p)
  case (Cons b bs)
  have "agree (header b) m m'" using Cons.prems(2) by (rule agree_subset) auto
  moreover have "agree (\<Union> (header ` set bs)) m m'" using Cons.prems(2) by (rule agree_subset) auto
  ultimately show ?case
    using Cons.IH Cons.prems(1) agree_header [of b m m'] by (auto simp: wf_arena_Cons)
qed simp

section \<open>Memory and blocks\<close>

lemma split_guard:
  assumes "blk_ok b" "sz \<le> b_size b"
  shows "b_size b \<le> sz + BLOCK_HEADER_SIZE + MIN_SPLIT_SIZE \<longleftrightarrow> unat (b_size b) \<le> unat sz + 24"
proof -
  have "unat sz \<le> unat (b_size b)" using assms(2) by (simp add: word_le_nat_alt)
  then have "unat (sz + BLOCK_HEADER_SIZE + MIN_SPLIT_SIZE) = unat sz + 24"
    using blk_okD(4) [OF assms(1)] by (simp add: BLOCK_HEADER_SIZE_def MIN_SPLIT_SIZE_def unat_add_nowrap)
  then show ?thesis by (simp add: word_le_nat_alt)
qed

lemma split_geometry:
  assumes "blk_ok b" "aligned 4 sz" "unat sz + 24 < unat (b_size b)"
  shows "unat (b_addr b + BLOCK_HEADER_SIZE + sz) = unat (b_addr b) + 16 + unat sz"
    "unat (b_size b - sz - BLOCK_HEADER_SIZE) = unat (b_size b) - unat sz - 16"
    "aligned 4 (b_addr b + BLOCK_HEADER_SIZE + sz)" "aligned 4 (b_size b - sz - BLOCK_HEADER_SIZE)"
proof -
  note ok = blk_okD [OF assms(1)]
  show a: "unat (b_addr b + BLOCK_HEADER_SIZE + sz) = unat (b_addr b) + 16 + unat sz"
    using ok assms(3) by (simp add: BLOCK_HEADER_SIZE_def unat_add_nowrap)
  show s: "unat (b_size b - sz - BLOCK_HEADER_SIZE) = unat (b_size b) - unat sz - 16"
    using assms(3) by (simp add: unat_sub_nowrap word_le_nat_alt)
  show "aligned 4 (b_addr b + BLOCK_HEADER_SIZE + sz)" using ok assms(2) unfolding aligned_def a by simp
  show "aligned 4 (b_size b - sz - BLOCK_HEADER_SIZE)" using ok assms(2) unfolding aligned_def s
    by (intro dvd_diff_nat) auto
qed

lemma take_block_geometry:
  assumes "blk_ok b" "aligned 4 sz" "sz \<le> b_size b"
  shows "wf_arena (take_block b sz)" "(\<Union>c \<in> set (take_block b sz). extent c) = extent b"
    "\<exists>sz' rest. take_block b sz = Blk (b_addr b) sz' False # rest \<and> sz \<le> sz'"
proof -
  note ok = blk_okD [OF assms(1)]
  have "wf_arena (take_block b sz) \<and> (\<Union>c \<in> set (take_block b sz). extent c) = extent b \<and>
    (\<exists>sz' rest. take_block b sz = Blk (b_addr b) sz' False # rest \<and> sz \<le> sz')"
  proof (cases "unat (b_size b) \<le> unat sz + 24")
    case True
    then show ?thesis
      using assms ok by (auto simp: take_block_def split_guard wf_arena_def blk_ok_def extent_def)
  next
    case False
    then have lt: "unat sz + 24 < unat (b_size b)" by simp
    let ?n = "b_addr b + BLOCK_HEADER_SIZE + sz" and ?r = "b_size b - sz - BLOCK_HEADER_SIZE"
    note g = split_geometry [OF assms(1,2) lt]
    have tb: "take_block b sz = [Blk (b_addr b) sz False, Blk ?n ?r True]"
      using False assms by (simp add: take_block_def split_guard)
    have nz: "?n \<noteq> 0" using g(1) by (metis add_is_0 unat_0 zero_neq_numeral)
    have "blk_ok (Blk (b_addr b) sz False)" using ok assms lt by (simp add: blk_ok_def)
    moreover have "blk_ok (Blk ?n ?r True)"
      unfolding blk_ok_def blk.sel g(1,2) using ok lt g(3,4) nz by simp
    moreover have "extent (Blk (b_addr b) sz False) \<inter> extent (Blk ?n ?r True) = {}"
      unfolding extent_def blk.sel g(1,2) by auto
    moreover have "extent (Blk (b_addr b) sz False) \<union> extent (Blk ?n ?r True) = extent b"
      unfolding extent_def blk.sel g(1,2) using lt by auto
    ultimately show ?thesis unfolding tb by (simp add: wf_arena_def)
  qed
  then show "wf_arena (take_block b sz)" "(\<Union>c \<in> set (take_block b sz). extent c) = extent b"
    "\<exists>sz' rest. take_block b sz = Blk (b_addr b) sz' False # rest \<and> sz \<le> sz'" by blast+
qed

lemma abs_alloc_extents:
  assumes "wf_arena bs" "aligned 4 sz"
  shows "(\<Union>c \<in> set (snd (abs_alloc sz bs)). extent c) = (\<Union>c \<in> set bs. extent c) \<and> wf_arena (snd (abs_alloc sz bs))"
  using assms
proof (induction bs)
  case (Cons b bs)
  then have ok: "blk_ok b" "wf_arena bs" "\<forall>c \<in> set bs. extent b \<inter> extent c = {}" by (auto simp: wf_arena_Cons)
  show ?case
  proof (cases "b_free b \<and> sz \<le> b_size b")
    case True
    then have sz: "sz \<le> b_size b" by simp
    note t = take_block_geometry [OF ok(1) Cons.prems(2) sz]
    have sub: "extent c \<subseteq> extent b" if "c \<in> set (take_block b sz)" for c
      using t(2) that by blast
    then have "\<forall>a \<in> set (take_block b sz). \<forall>c \<in> set bs. extent a \<inter> extent c = {}"
      using ok(3) by blast
    with True t ok show ?thesis by (simp add: wf_arena_append)
  next
    case False
    obtain p bs' where r: "abs_alloc sz bs = (p, bs')" by force
    with Cons.IH [OF ok(2) Cons.prems(2)]
    have e: "(\<Union>c \<in> set bs'. extent c) = (\<Union>c \<in> set bs. extent c)" "wf_arena bs'" by auto
    then have "\<forall>c \<in> set bs'. extent b \<inter> extent c = {}" using ok(3) by blast
    then show ?thesis using False r e ok by (auto simp: wf_arena_Cons)
  qed
qed simp

section \<open>kmalloc\<close>

lemma agree_write_block:
  assumes "aligned 4 a" "unat a + 16 < 2 ^ 32" "X \<inter> {unat a..<unat a + 16} = {}"
  shows "agree X (write_block a sz fr nx m) m"
proof -
  have u: "unat (a + 4) = unat a + 4" "unat (a + 8) = unat a + 8" "unat (a + 12) = unat a + 12"
    using assms(2) by (simp_all add: unat_add_nowrap)
  then have al: "aligned 4 (a + 4)" "aligned 4 (a + 8)" "aligned 4 (a + 12)"
    using assms(1) by (auto simp: aligned_def)
  have "X \<inter> {unat a..<unat a + 4} = {}" "X \<inter> {unat (a + 4)..<unat (a + 4) + 4} = {}"
    "X \<inter> {unat (a + 8)..<unat (a + 8) + 4} = {}" "X \<inter> {unat (a + 12)..<unat (a + 12) + 4} = {}"
    using assms(3) unfolding u by auto
  then show ?thesis
    unfolding write_block_def using al assms(1) by (meson agree_store32 agree_trans)
qed

lemma write_block_fields:
  assumes "aligned 4 a" "unat a + 16 < 2 ^ 32"
  shows "blk_magic (write_block a sz fr nx m) a = BLOCK_MAGIC" "blk_size (write_block a sz fr nx m) a = sz"
    "blk_free (write_block a sz fr nx m) a = fr" "blk_next (write_block a sz fr nx m) a = nx"
proof -
  have u: "unat (a + 4) = unat a + 4" "unat (a + 8) = unat a + 8" "unat (a + 12) = unat a + 12"
    using assms(2) by (simp_all add: unat_add_nowrap)
  then have al: "aligned 4 (a + 4)" "aligned 4 (a + 8)" "aligned 4 (a + 12)"
    using assms(1) by (auto simp: aligned_def)
  show "blk_magic (write_block a sz fr nx m) a = BLOCK_MAGIC" "blk_size (write_block a sz fr nx m) a = sz"
    "blk_free (write_block a sz fr nx m) a = fr" "blk_next (write_block a sz fr nx m) a = nx"
    using al assms(1) by (simp_all add: write_block_def blk_magic_def blk_size_def blk_free_def blk_next_def load32_store32_other)
qed

lemma store_field_reads:
  assumes "blk_ok b"
  shows "blk_magic (store32 (b_addr b + 4) v m) (b_addr b) = blk_magic m (b_addr b)"
    "blk_magic (store32 (b_addr b + 8) v m) (b_addr b) = blk_magic m (b_addr b)"
    "blk_magic (store32 (b_addr b + 12) v m) (b_addr b) = blk_magic m (b_addr b)"
    "blk_size (store32 (b_addr b + 4) v m) (b_addr b) = v"
    "blk_size (store32 (b_addr b + 8) v m) (b_addr b) = blk_size m (b_addr b)"
    "blk_size (store32 (b_addr b + 12) v m) (b_addr b) = blk_size m (b_addr b)"
    "blk_free (store32 (b_addr b + 4) v m) (b_addr b) = blk_free m (b_addr b)"
    "blk_free (store32 (b_addr b + 8) v m) (b_addr b) = v"
    "blk_free (store32 (b_addr b + 12) v m) (b_addr b) = blk_free m (b_addr b)"
    "blk_next (store32 (b_addr b + 4) v m) (b_addr b) = blk_next m (b_addr b)"
    "blk_next (store32 (b_addr b + 8) v m) (b_addr b) = blk_next m (b_addr b)"
    "blk_next (store32 (b_addr b + 12) v m) (b_addr b) = v"
  using blk_ok_fields [OF assms] blk_okD [OF assms]
  by (simp_all add: blk_magic_def blk_size_def blk_free_def blk_next_def load32_store32_other)

lemma agree_store_field:
  assumes "blk_ok b" "X \<inter> header b = {}"
  shows "agree X (store32 (b_addr b + 4) v m) m" "agree X (store32 (b_addr b + 8) v m) m"
    "agree X (store32 (b_addr b + 12) v m) m"
proof -
  note f = blk_ok_fields [OF assms(1)]
  have "X \<inter> {unat (b_addr b + 4)..<unat (b_addr b + 4) + 4} = {}"
    "X \<inter> {unat (b_addr b + 8)..<unat (b_addr b + 8) + 4} = {}"
    "X \<inter> {unat (b_addr b + 12)..<unat (b_addr b + 12) + 4} = {}"
    using assms(2) unfolding f header_def by auto
  with f(5-7) show "agree X (store32 (b_addr b + 4) v m) m" "agree X (store32 (b_addr b + 8) v m) m"
    "agree X (store32 (b_addr b + 12) v m) m" by (blast intro: agree_store32)+
qed

section \<open>\<open>kmalloc\<close> is first fit\<close>

lemma take_block_memory:
  assumes ok: "blk_ok b" and al: "aligned 4 sz" and fit: "sz \<le> b_size b"
    and hdr: "blk_magic m (b_addr b) = BLOCK_MAGIC" "blk_size m (b_addr b) = b_size b"
  defines "m' \<equiv> store32 (b_addr b + 8) 0 (split_block (b_addr b) sz m)"
  shows "agree (- extent b) m' m"
    and "arena m (blk_next m (b_addr b)) bs \<Longrightarrow> wf_arena bs \<Longrightarrow> \<forall>c \<in> set bs. extent b \<inter> extent c = {} \<Longrightarrow>
      arena m' (b_addr b) (take_block b sz @ bs)"
proof -
  have outX: "- extent b \<inter> header b = {}" using header_subset_extent by blast
  have rest: "arena m (blk_next m (b_addr b)) bs \<Longrightarrow> arena m' (blk_next m (b_addr b)) bs"
    if "agree (- extent b) m' m" "wf_arena bs" "\<forall>c \<in> set bs. extent b \<inter> extent c = {}" for bs
  proof -
    have "agree (\<Union> (header ` set bs)) m m'"
      using that(1,3) header_subset_extent unfolding agree_def by fastforce
    then show "arena m (blk_next m (b_addr b)) bs \<Longrightarrow> arena m' (blk_next m (b_addr b)) bs"
      using arena_cong [OF that(2)] by blast
  qed
  have "agree (- extent b) m' m \<and>
    (arena m (blk_next m (b_addr b)) bs \<longrightarrow> wf_arena bs \<longrightarrow> (\<forall>c \<in> set bs. extent b \<inter> extent c = {}) \<longrightarrow>
      arena m' (b_addr b) (take_block b sz @ bs))" for bs
  proof (cases "unat (b_size b) \<le> unat sz + 24")
    case True
    then have m': "m' = store32 (b_addr b + 8) 0 m"
      using ok fit by (simp add: m'_def split_block_def hdr split_guard)
    have a: "agree (- extent b) m' m"
      unfolding m' by (rule agree_store_field(2) [OF ok outX])
    have "take_block b sz = [Blk (b_addr b) (b_size b) False]"
      using True ok fit by (simp add: take_block_def split_guard)
    with a rest show ?thesis
      using blk_okD(1) [OF ok] hdr by (auto simp: m' store_field_reads [OF ok])
  next
    case False
    then have lt: "unat sz + 24 < unat (b_size b)" by simp
    note g = split_geometry [OF ok al lt]
    define n where "n = b_addr b + BLOCK_HEADER_SIZE + sz"
    define r where "r = b_size b - sz - BLOCK_HEADER_SIZE"
    define m1 where "m1 = write_block n r 1 (blk_next m (b_addr b)) m"
    define m2 where "m2 = store32 (b_addr b + 4) sz m1"
    define m3 where "m3 = store32 (b_addr b + 12) n m2"
    have m': "m' = store32 (b_addr b + 8) 0 m3"
      using False ok fit by (simp add: m'_def split_block_def hdr split_guard Let_def m1_def m2_def m3_def n_def r_def)
    have n: "unat n = unat (b_addr b) + 16 + unat sz" "unat r = unat (b_size b) - unat sz - 16" "aligned 4 n"
      using g by (simp_all add: n_def r_def)
    have nroom: "unat n + 16 < 2 ^ 32" using n lt blk_okD(4) [OF ok] by simp
    have hn: "{unat n..<unat n + 16} \<subseteq> extent b" "header b \<inter> {unat n..<unat n + 16} = {}"
      using n lt by (auto simp: extent_def header_def)
    have a1: "agree (- extent b \<union> header b) m1 m"
      unfolding m1_def using hn by (intro agree_write_block n nroom) auto
    have hX: "{unat n..<unat n + 16} \<inter> header b = {}" using hn(2) by blast
    have a2: "agree (- extent b) m' m"
      unfolding m' m3_def m2_def
      using agree_store_field [OF ok outX] a1 by (meson agree_trans agree_subset Un_upper1)
    have nm: "agree {unat n..<unat n + 16} m' m1"
      unfolding m' m3_def m2_def using agree_store_field [OF ok hX] by (meson agree_trans)
    have bn: "blk_ok (Blk n r True)" 
      using n lt blk_okD [OF ok] g(4) by (auto simp: blk_ok_def r_def)
    have hd_n: "header (Blk n r True) = {unat n..<unat n + 16}" by (simp add: header_def)
    note fn = agree_header [OF bn, unfolded hd_n, OF nm, simplified]
    note wn = write_block_fields [OF n(3) nroom, of r 1 "blk_next m (b_addr b)" m, folded m1_def]
    have a0: "agree (header b) m1 m" using a1 by (rule agree_subset) simp
    note fb = agree_header [OF ok a0]
    have "take_block b sz = [Blk (b_addr b) sz False, Blk n r True]"
      using False ok fit by (simp add: take_block_def split_guard n_def r_def)
    moreover have "blk_magic m' (b_addr b) = BLOCK_MAGIC" "blk_size m' (b_addr b) = sz" "blk_free m' (b_addr b) = 0"
      "blk_next m' (b_addr b) = n"
      by (simp_all add: m' m3_def m2_def store_field_reads [OF ok] fb hdr)
    moreover have "n \<noteq> 0" using blk_okD(1) [OF bn] by simp
    ultimately show ?thesis
      using a2 rest blk_okD(1) [OF ok] by (auto simp: fn wn)
  qed
  then show "agree (- extent b) m' m"
    and "arena m (blk_next m (b_addr b)) bs \<Longrightarrow> wf_arena bs \<Longrightarrow> \<forall>c \<in> set bs. extent b \<inter> extent c = {} \<Longrightarrow>
      arena m' (b_addr b) (take_block b sz @ bs)" by blast+
qed

definition free_extents :: "blk list \<Rightarrow> nat set" where
  "free_extents bs = (\<Union>b \<in> {b \<in> set bs. b_free b}. extent b)"

lemma kmalloc_loop_refines:
  assumes "arena m p bs" "wf_arena bs" "length bs < fuel" "aligned 4 sz"
  shows "\<exists>m'. kmalloc_loop fuel p sz m = Inr (fst (abs_alloc sz bs), m') \<and> arena m' p (snd (abs_alloc sz bs)) \<and>
    agree (- free_extents bs) m' m"
  using assms
proof (induction bs arbitrary: p fuel)
  case Nil
  then show ?case by (cases fuel) auto
next
  case (Cons b bs)
  then obtain n where fuel: "fuel = Suc n" by (cases fuel) auto
  from Cons.prems have ok: "blk_ok b" "wf_arena bs" "\<forall>c \<in> set bs. extent b \<inter> extent c = {}" by (auto simp: wf_arena_Cons)
  from Cons.prems(1) have p: "p = b_addr b" "b_addr b \<noteq> 0" "blk_magic m (b_addr b) = BLOCK_MAGIC" "blk_size m (b_addr b) = b_size b"
    "(blk_free m (b_addr b) \<noteq> 0) = b_free b" "arena m (blk_next m (b_addr b)) bs" by auto
  show ?case
  proof (cases "b_free b \<and> sz \<le> b_size b")
    case True
    then have fit: "sz \<le> b_size b" by simp
    note t = take_block_memory [OF ok(1) Cons.prems(4) fit p(3,4)]
    have "- free_extents (b # bs) \<subseteq> - extent b" using True by (auto simp: free_extents_def)
    with t(1) t(2) [OF p(6) ok(2,3)] True p fuel show ?thesis by (auto intro: agree_subset)
  next
    case False
    obtain q bs' where q: "abs_alloc sz bs = (q, bs')" by force
    from Cons.IH [OF p(6) ok(2), of n] Cons.prems fuel q
    obtain m' where m': "kmalloc_loop n (blk_next m (b_addr b)) sz m = Inr (q, m')"
      "arena m' (blk_next m (b_addr b)) bs'" "agree (- free_extents bs) m' m" by auto
    have "agree (header b) m' m" using m'(3)
    proof (rule agree_subset)
      show "header b \<subseteq> - free_extents bs"
        using ok(3) header_subset_extent [of b] by (auto simp: free_extents_def)
    qed
    note h = agree_header [OF ok(1) this]
    have "- free_extents (b # bs) \<subseteq> - free_extents bs" by (auto simp: free_extents_def)
    then have "agree (- free_extents (b # bs)) m' m" using m'(3) by (rule agree_subset [rotated])
    then show ?thesis using m' False q p fuel h by auto
  qed
qed

section \<open>Merging\<close>

definition links :: "blk \<Rightarrow> nat set" where
  "links b = {unat (b_addr b) + 4..<unat (b_addr b) + 8} \<union> {unat (b_addr b) + 12..<unat (b_addr b) + 16}"

definition free_links :: "blk list \<Rightarrow> nat set" where
  "free_links bs = (\<Union>b \<in> {b \<in> set bs. b_free b}. links b)"

lemma free_links_Cons: "free_links (b # bs) = (if b_free b then links b \<union> free_links bs else free_links bs)"
  by (auto simp: free_links_def)

lemma links_subset_header: "links b \<subseteq> header b"
  by (auto simp: links_def header_def)

lemma free_links_subset: "free_links bs \<subseteq> free_extents bs"
  using links_subset_header header_subset_extent by (fastforce simp: free_links_def free_extents_def)

definition merge_blk :: "blk \<Rightarrow> blk \<Rightarrow> blk" where
  "merge_blk a b = Blk (b_addr a) (b_size a + (BLOCK_HEADER_SIZE + b_size b)) True"

lemma links_merge [simp]: "links (merge_blk a b) = links a" "b_free (merge_blk a b)"
  by (simp_all add: links_def merge_blk_def)

lemma merge_geometry:
  assumes "blk_ok a" "blk_ok b" "mergeable a b" "extent a \<inter> extent b = {}"
  shows "unat (b_size (merge_blk a b)) = unat (b_size a) + 16 + unat (b_size b)"
    and "blk_ok (merge_blk a b)" and "extent (merge_blk a b) = extent a \<union> extent b"
proof -
  note a = blk_okD [OF assms(1)] and b = blk_okD [OF assms(2)]
  have adr: "unat (b_addr b) = unat (b_addr a) + 16 + unat (b_size a)"
    using assms(3) a(4) unfolding mergeable_def by (simp add: unat_add_nowrap)
  have hb: "unat (BLOCK_HEADER_SIZE + b_size b) = 16 + unat (b_size b)"
    using b(4) by (simp add: unat_add_nowrap)
  show sz: "unat (b_size (merge_blk a b)) = unat (b_size a) + 16 + unat (b_size b)"
    using b(4) adr hb by (simp add: merge_blk_def unat_add_nowrap)
  have "aligned 4 (b_size (merge_blk a b))"
    using a(3) b(3) sz unfolding aligned_def by presburger
  then show "blk_ok (merge_blk a b)"
    using a b adr sz by (simp add: blk_ok_def merge_blk_def)
  show "extent (merge_blk a b) = extent a \<union> extent b"
    unfolding extent_def sz adr by (auto simp: merge_blk_def)
qed

lemma merge_memory:
  assumes ok: "blk_ok a" "blk_ok b" and disj: "extent a \<inter> extent b = {}" and mg: "mergeable a b"
    and wf: "wf_arena bs" "\<forall>c \<in> set bs. extent a \<inter> extent c = {}"
    and ar: "arena m p (a # b # bs)"
  defines "m1 \<equiv> store32 (p + 4) (blk_size m p + (BLOCK_HEADER_SIZE + blk_size m (blk_next m p))) m"
  defines "m2 \<equiv> store32 (p + 12) (blk_next m1 (blk_next m1 p)) m1"
  shows "arena m2 p (merge_blk a b # bs)" and "agree (- links a) m2 m"
proof -
  from ar have p: "p = b_addr a" "blk_magic m (b_addr a) = BLOCK_MAGIC" "blk_size m (b_addr a) = b_size a"
    "blk_free m (b_addr a) \<noteq> 0" "blk_next m (b_addr a) = b_addr b" "blk_size m (b_addr b) = b_size b"
    "arena m (blk_next m (b_addr b)) bs"
    using mg by (auto simp: mergeable_def)
  have ab: "header b \<inter> header a = {}" using disj header_subset_extent by blast
  have m1: "m1 = store32 (b_addr a + 4) (b_size (merge_blk a b)) m"
    by (simp only: m1_def p merge_blk_def blk.sel)
  have "agree (header b) m1 m" unfolding m1 by (rule agree_store_field(1) [OF ok(1) ab])
  note h1 = agree_header [OF ok(2) this]
  have "blk_next m1 (b_addr a) = b_addr b" by (simp only: m1 store_field_reads [OF ok(1)] p)
  then have m2: "m2 = store32 (b_addr a + 12) (blk_next m (b_addr b)) m1" by (simp only: m2_def p(1) h1)
  have l: "- links a \<inter> {unat (b_addr a) + 4..<unat (b_addr a) + 4 + 4} = {}"
    "- links a \<inter> {unat (b_addr a) + 12..<unat (b_addr a) + 12 + 4} = {}" by (auto simp: links_def)
  note f = blk_ok_fields [OF ok(1)]
  have "agree (- links a) m1 m" unfolding m1 by (rule agree_store32 [OF f(5)]) (simp only: f l)
  moreover have "agree (- links a) m2 m1" unfolding m2 by (rule agree_store32 [OF f(7)]) (simp only: f l)
  ultimately show ag: "agree (- links a) m2 m" by (blast intro: agree_trans)
  have "header c \<subseteq> - links a" if "c \<in> set bs" for c
    using wf(2) that header_subset_extent [of c] header_subset_extent [of a] links_subset_header [of a] by blast
  then have "\<Union> (header ` set bs) \<subseteq> - links a" by blast
  then have "agree (\<Union> (header ` set bs)) m m2" using agree_subset [OF ag] by (auto simp: agree_def)
  then have "arena m2 (blk_next m (b_addr b)) bs" using arena_cong [OF wf(1)] p(7) by blast
  moreover have "blk_magic m2 (b_addr a) = BLOCK_MAGIC" "blk_size m2 (b_addr a) = b_size (merge_blk a b)"
    "blk_free m2 (b_addr a) = blk_free m (b_addr a)" "blk_next m2 (b_addr a) = blk_next m (b_addr b)"
    unfolding m2 m1 by (simp_all only: store_field_reads [OF ok(1)] p)
  ultimately show "arena m2 p (merge_blk a b # bs)"
    using p(1,4) blk_okD(1) [OF ok(1)] by (simp add: merge_blk_def)
qed

lemma wf_arena_merge:
  assumes "wf_arena (a # b # bs)" "mergeable a b"
  shows "wf_arena (merge_blk a b # bs)"
  using assms merge_geometry [of a b] by (auto simp: wf_arena_Cons)

lemma abs_coalesce_merge:
  "abs_coalesce (a # b # bs) = (if mergeable a b then abs_coalesce (merge_blk a b # bs) else a # abs_coalesce (b # bs))"
  by (simp add: merge_blk_def abs_coalesce.simps)

declare abs_coalesce.simps [simp del]

lemma abs_coalesce_single [simp]: "abs_coalesce [a] = [a]" "abs_coalesce [] = []"
  by (simp_all add: abs_coalesce.simps)

lemmas abs_coalesce_rec = abs_coalesce_merge abs_coalesce_single

lemma abs_coalesce_induct [case_names nil single merge skip]:
  assumes "P []" "\<And>a. P [a]"
    and "\<And>a b bs. mergeable a b \<Longrightarrow> P (merge_blk a b # bs) \<Longrightarrow> P (a # b # bs)"
    and "\<And>a b bs. \<not> mergeable a b \<Longrightarrow> P (b # bs) \<Longrightarrow> P (a # b # bs)"
  shows "P bs"
proof (induction bs rule: abs_coalesce.induct)
  case (1 a b bs)
  then show ?case using assms(3,4) [of a b bs] by (cases "mergeable a b") (auto simp: merge_blk_def)
qed (use assms in auto)

lemma coalesce_loop_refines:
  assumes "arena m p bs" "wf_arena bs" "length bs < fuel"
  shows "\<exists>m'. coalesce_loop fuel p m = Inr m' \<and> arena m' p (abs_coalesce bs) \<and> agree (- free_links bs) m' m"
  using assms
proof (induction bs arbitrary: p m fuel rule: abs_coalesce_induct)
  case nil
  then show ?case by (cases fuel) auto
next
  case (single a)
  then show ?case by (cases fuel) auto
next
  case (merge a b bs)
  from merge.prems(3) obtain n where fuel: "fuel = Suc n" by (cases fuel) auto
  from merge.prems(2) have ok: "blk_ok a" "blk_ok b" "extent a \<inter> extent b = {}" "wf_arena bs"
    "\<forall>c \<in> set bs. extent a \<inter> extent c = {}" by (auto simp: wf_arena_Cons)
  define m1 where "m1 = store32 (p + 4) (blk_size m p + (BLOCK_HEADER_SIZE + blk_size m (blk_next m p))) m"
  define m2 where "m2 = store32 (p + 12) (blk_next m1 (blk_next m1 p)) m1"
  note mm = merge_memory [OF ok(1-3) merge.hyps ok(4,5) merge.prems(1), folded m1_def, folded m2_def]
  have g: "p \<noteq> 0 \<and> blk_next m p \<noteq> 0"
    "blk_free m p \<noteq> 0 \<and> blk_free m (blk_next m p) \<noteq> 0 \<and> blk_next m p = p + BLOCK_HEADER_SIZE + blk_size m p"
    using merge.prems(1) merge.hyps unfolding mergeable_def arena.simps by metis+
  have step: "coalesce_loop fuel p m = coalesce_loop n p m2"
    unfolding fuel coalesce_loop.simps Let_def if_P [OF g(1)] if_P [OF g(2)] m2_def m1_def ..
  from merge.IH [OF mm(1) wf_arena_merge [OF merge.prems(2) merge.hyps], of n] merge.prems(3) fuel
  obtain m' where m': "coalesce_loop n p m2 = Inr m'" "arena m' p (abs_coalesce (merge_blk a b # bs))"
    "agree (- free_links (merge_blk a b # bs)) m' m2" by auto
  have fa: "b_free a" using merge.hyps by (simp add: mergeable_def)
  have "free_links (merge_blk a b # bs) \<subseteq> free_links (a # b # bs)" "links a \<subseteq> free_links (a # b # bs)"
    using fa by (auto simp: free_links_Cons)
  then have "agree (- free_links (a # b # bs)) m' m"
    using agree_trans [OF agree_subset [OF m'(3)] agree_subset [OF mm(2)]] by blast
  moreover have "arena m' p (abs_coalesce (a # b # bs))" using m'(2) merge.hyps by (simp add: abs_coalesce_rec)
  ultimately show ?case using m'(1) unfolding step by blast
next
  case (skip a b bs)
  from skip.prems(3) obtain n where fuel: "fuel = Suc n" by (cases fuel) auto
  from skip.prems(2) have ok: "blk_ok a" "wf_arena (b # bs)" "\<forall>c \<in> set (b # bs). extent a \<inter> extent c = {}"
    by (auto simp: wf_arena_Cons)
  from skip.prems(1) have p: "p = b_addr a" "arena m (b_addr b) (b # bs)" "blk_next m p = b_addr b" "b_addr b \<noteq> 0" by auto
  have g: "p \<noteq> 0 \<and> blk_next m p \<noteq> 0"
    "\<not> (blk_free m p \<noteq> 0 \<and> blk_free m (blk_next m p) \<noteq> 0 \<and> blk_next m p = p + BLOCK_HEADER_SIZE + blk_size m p)"
    using skip.prems(1) skip.hyps unfolding mergeable_def arena.simps by metis+
  have "coalesce_loop fuel p m = coalesce_loop n (blk_next m p) m"
    unfolding fuel coalesce_loop.simps Let_def if_P [OF g(1)] if_not_P [OF g(2)] ..
  then have step: "coalesce_loop fuel p m = coalesce_loop n (b_addr b) m" by (simp only: p(3))
  from skip.IH [OF p(2) ok(2), of n] skip.prems(3) fuel
  obtain m' where m': "coalesce_loop n (b_addr b) m = Inr m'" "arena m' (b_addr b) (abs_coalesce (b # bs))"
    "agree (- free_links (b # bs)) m' m" by auto
  have "agree (header a) m' m" using m'(3)
  proof (rule agree_subset)
    show "header a \<subseteq> - free_links (b # bs)"
      using ok(3) header_subset_extent [of a] free_links_subset [of "b # bs"] by (fastforce simp: free_extents_def)
  qed
  note h = agree_header [OF ok(1) this]
  have "agree (- free_links (a # b # bs)) m' m" using m'(3) by (rule agree_subset) (auto simp: free_links_def)
  moreover have "arena m' p (abs_coalesce (a # b # bs))"
    using skip.prems(1) m'(2) skip.hyps p(3) unfolding p(1) by (simp add: abs_coalesce_rec h)
  ultimately show ?case using m'(1) unfolding step by blast
qed

section \<open>Live objects\<close>

lemma blk_fresh_ptr: "blk_ok b \<Longrightarrow> unat (b_addr b + BLOCK_HEADER_SIZE) = unat (b_addr b) + 16"
  using blk_okD(4) [of b] by (simp add: unat_add_nowrap)

lemma blk_ptr_nonzero: "blk_ok b \<Longrightarrow> b_addr b + BLOCK_HEADER_SIZE \<noteq> 0"
  using blk_fresh_ptr [of b] by (metis add_is_0 unat_0 zero_neq_numeral)

lemma round4_unat: "unat ((w :: u32) AND NOT 3) = unat w div 4 * 4"
proof -
  have three: "(3 :: u32) = mask 2" by (simp add: mask_eq_exp_minus_1)
  have s: "Suc (Suc (n - 2)) = n" if "2 \<le> n" for n :: nat using that by simp
  have "w AND NOT 3 = push_bit 2 (drop_bit 2 w)"
    unfolding three by (rule bit_word_eqI) (simp only: bit_simps, auto simp: s)
  then have "w AND NOT 3 = w div 4 * 4" by (simp only: push_bit_eq_mult drop_bit_eq_div) simp
  moreover have "unat w div 4 * 4 < 2 ^ 32" using unat_u32_less [of w] by linarith
  ultimately show ?thesis by (simp only: unat_word_ariths unat_div) simp
qed

lemma round4:
  assumes "sz \<le> 0xFFFFFFFC"
  shows "aligned 4 ((sz + 3) AND NOT 3)" "sz \<le> (sz + 3) AND NOT 3"
proof -
  have "unat sz \<le> 0xFFFFFFFC" using assms by (simp add: word_le_nat_alt)
  then have u: "unat (sz + 3) = unat sz + 3" by (simp add: unat_add_nowrap)
  show "aligned 4 ((sz + 3) AND NOT 3)" by (simp only: aligned_def round4_unat dvd_triv_right)
  show "sz \<le> (sz + 3) AND NOT 3" unfolding word_le_nat_alt round4_unat u by linarith
qed

definition objs :: "blk list \<Rightarrow> u32 \<rightharpoonup> u32" where
  "objs bs = map_of (map (\<lambda>b. (b_addr b + BLOCK_HEADER_SIZE, b_size b)) (filter (\<lambda>b. \<not> b_free b) bs))"

lemma objs_Nil [simp]: "objs [] = Map.empty" by (simp add: objs_def)

lemma objs_Cons [simp]:
  "objs (b # bs) = (if b_free b then objs bs else (objs bs)(b_addr b + BLOCK_HEADER_SIZE \<mapsto> b_size b))"
  by (simp add: objs_def)

lemma objs_SomeD: "objs bs p = Some k \<Longrightarrow> \<exists>b \<in> set bs. \<not> b_free b \<and> p = b_addr b + BLOCK_HEADER_SIZE \<and> k = b_size b"
  by (auto simp: objs_def dest!: map_of_SomeD)

lemma objs_None: "b_addr b \<notin> b_addr ` set bs \<Longrightarrow> objs bs (b_addr b + BLOCK_HEADER_SIZE) = None"
  by (force simp: objs_def map_of_eq_None_iff)

lemma objs_used: "wf_arena bs \<Longrightarrow> b \<in> set bs \<Longrightarrow> \<not> b_free b \<Longrightarrow> objs bs (b_addr b + BLOCK_HEADER_SIZE) = Some (b_size b)"
  using wf_arena_distinct [of bs]
  by (auto simp: objs_def intro!: map_of_is_SomeI) (auto simp: distinct_map inj_on_def)

lemma abs_alloc_none: "wf_arena bs \<Longrightarrow> fst (abs_alloc sz bs) = 0 \<Longrightarrow>
    snd (abs_alloc sz bs) = bs \<and> (\<forall>b \<in> set bs. b_free b \<longrightarrow> b_size b < sz)"
  by (induction bs) (auto simp: wf_arena_Cons blk_ptr_nonzero split: if_splits prod.splits)

lemma wf_arena_addr_notin: "wf_arena (b # bs) \<Longrightarrow> b_addr b \<notin> b_addr ` set bs"
  using wf_arena_distinct [of "b # bs"] by simp

lemma abs_alloc_objs:
  assumes "wf_arena bs" "aligned 4 sz" "fst (abs_alloc sz bs) \<noteq> 0"
  shows "objs bs (fst (abs_alloc sz bs)) = None \<and>
    (\<exists>k \<ge> sz. objs (snd (abs_alloc sz bs)) = (objs bs)(fst (abs_alloc sz bs) \<mapsto> k))"
  using assms
proof (induction bs)
  case (Cons b bs)
  then have ok: "blk_ok b" "wf_arena bs" "b_addr b \<notin> b_addr ` set bs"
    using wf_arena_addr_notin by (auto simp: wf_arena_Cons)
  show ?case
  proof (cases "b_free b \<and> sz \<le> b_size b")
    case True
    then have a: "abs_alloc sz (b # bs) = (b_addr b + BLOCK_HEADER_SIZE, take_block b sz @ bs)" by simp
    have o: "objs (b # bs) = objs bs" using True by simp
    have "objs (take_block b sz @ bs) = (objs bs)(b_addr b + BLOCK_HEADER_SIZE \<mapsto> b_size b) \<or>
      objs (take_block b sz @ bs) = (objs bs)(b_addr b + BLOCK_HEADER_SIZE \<mapsto> sz)"
      by (simp add: take_block_def)
    then show ?thesis unfolding a o fst_conv snd_conv using objs_None [OF ok(3)] True by blast
  next
    case False
    obtain p bs' where p: "abs_alloc sz bs = (p, bs')" by force
    then have a: "abs_alloc sz (b # bs) = (p, b # bs')" using False by auto
    from Cons.IH [OF ok(2) Cons.prems(2)] Cons.prems(3)
    obtain k where k: "objs bs p = None" "k \<ge> sz" "objs bs' = (objs bs)(p \<mapsto> k)"
      unfolding a p fst_conv snd_conv by blast
    have ne: "b_addr b + BLOCK_HEADER_SIZE \<noteq> p"
    proof
      assume eq: "b_addr b + BLOCK_HEADER_SIZE = p"
      from k(3) objs_SomeD [of bs' p k] obtain c where c: "c \<in> set bs'" "p = b_addr c + BLOCK_HEADER_SIZE" by auto
      from abs_alloc_extents [OF ok(2) Cons.prems(2)] p
      have e: "(\<Union>c \<in> set bs'. extent c) = (\<Union>c \<in> set bs. extent c)" "wf_arena bs'" by simp_all
      from e(2) c(1) have "unat (b_addr c) \<in> extent c" using blk_addr_in_extent by (simp add: wf_arena_def list_all_iff)
      with c(1) e(1) obtain d where d: "d \<in> set bs" "unat (b_addr c) \<in> extent d" by blast
      have "b_addr c = b_addr b" using eq c by simp
      then show False using d Cons.prems(1) blk_addr_in_extent [OF ok(1)] by (auto simp: wf_arena_Cons)
    qed
    have "objs (b # bs') = (objs (b # bs))(p \<mapsto> k)" using ne by (simp add: k(3) fun_upd_twist)
    moreover have "objs (b # bs) p = None" using ne k(1) by simp
    ultimately show ?thesis unfolding a fst_conv snd_conv using k(2) by blast
  qed
qed simp

lemma abs_coalesce_used: "filter (\<lambda>b. \<not> b_free b) (abs_coalesce bs) = filter (\<lambda>b. \<not> b_free b) bs"
  by (induction bs rule: abs_coalesce_induct) (auto simp: abs_coalesce_rec mergeable_def)

lemma abs_coalesce_objs [simp]: "objs (abs_coalesce bs) = objs bs"
  by (simp add: objs_def abs_coalesce_used)

lemma abs_coalesce_wf:
  "wf_arena bs \<Longrightarrow> wf_arena (abs_coalesce bs) \<and> (\<Union>c \<in> set (abs_coalesce bs). extent c) = (\<Union>c \<in> set bs. extent c)"
proof (induction bs rule: abs_coalesce_induct)
  case (merge a b bs)
  then have "extent (merge_blk a b) = extent a \<union> extent b" using merge_geometry(3) by (auto simp: wf_arena_Cons)
  with merge wf_arena_merge [OF merge.prems merge.hyps] show ?case by (auto simp: abs_coalesce_rec)
next
  case (skip a b bs)
  then show ?case by (auto simp: abs_coalesce_rec wf_arena_Cons)
qed (auto simp: abs_coalesce_rec)

lemma abs_coalesce_head: "bs \<noteq> [] \<Longrightarrow> abs_coalesce bs \<noteq> [] \<and> b_addr (hd (abs_coalesce bs)) = b_addr (hd bs)
   \<and> b_free (hd (abs_coalesce bs)) = b_free (hd bs)"
  by (induction bs rule: abs_coalesce_induct) (auto simp: abs_coalesce_rec merge_blk_def mergeable_def)

definition coalesced :: "blk list \<Rightarrow> bool" where
  "coalesced bs = successively (\<lambda>a b. \<not> mergeable a b) bs"

lemma abs_coalesce_coalesced: "coalesced (abs_coalesce bs)"
proof (induction bs rule: abs_coalesce_induct)
  case (skip a b bs)
  then show ?case
    using abs_coalesce_head [of "b # bs"]
    by (cases "abs_coalesce (b # bs)") (auto simp: abs_coalesce_rec coalesced_def mergeable_def)
qed (auto simp: abs_coalesce_rec coalesced_def)

lemma abs_coalesce_id: "coalesced bs \<Longrightarrow> abs_coalesce bs = bs"
  by (induction bs rule: abs_coalesce_induct) (auto simp: abs_coalesce_rec coalesced_def)

section \<open>\<open>kfree\<close>\<close>

lemma abs_mark_Cons [simp]: "abs_mark a (b # bs) = (if b_addr b = a then Blk (b_addr b) (b_size b) True else b) # abs_mark a bs"
  by (simp add: abs_mark_def)

lemma abs_mark_Nil [simp]: "abs_mark a [] = []" by (simp add: abs_mark_def)

lemma mark_same [simp]:
  "extent (if b_addr b = a then Blk (b_addr b) (b_size b) True else b) = extent b"
  "blk_ok (if b_addr b = a then Blk (b_addr b) (b_size b) True else b) = blk_ok b"
  by (simp_all add: extent_def blk_ok_def)

lemma abs_mark_wf [simp]: "wf_arena (abs_mark a bs) = wf_arena bs"
  unfolding wf_arena_def abs_mark_def by (simp add: list.pred_map sorted_wrt_map comp_def del: if_split)

lemma abs_mark_other: "a \<notin> b_addr ` set bs \<Longrightarrow> abs_mark a bs = bs"
  by (induction bs) auto

lemma abs_mark_extents: "(\<Union>c \<in> set (abs_mark a bs). extent c) = (\<Union>c \<in> set bs. extent c)"
  unfolding abs_mark_def set_map image_image mark_same(1) ..

lemma abs_mark_objs: "wf_arena bs \<Longrightarrow> objs (abs_mark a bs) = (objs bs)(a + BLOCK_HEADER_SIZE := None)"
proof (induction bs)
  case (Cons b bs)
  then have wf: "wf_arena bs" "b_addr b \<notin> b_addr ` set bs" using wf_arena_addr_notin by (auto simp: wf_arena_Cons)
  show ?case
  proof (cases "b_addr b = a")
    case True
    then show ?thesis using wf objs_None [OF wf(2)] by (auto simp: abs_mark_other)
  next
    case False
    then show ?thesis using Cons.IH [OF wf(1)] by (auto simp: fun_upd_twist)
  qed
qed auto

lemma mark_memory:
  assumes "arena m p bs" "wf_arena bs" "b \<in> set bs"
  shows "arena (store32 (b_addr b + 8) 1 m) p (abs_mark (b_addr b) bs)"
  using assms
proof (induction bs arbitrary: p)
  case (Cons c cs)
  let ?m = "store32 (b_addr b + 8) 1 m"
  have ok: "blk_ok c" "wf_arena cs" "\<forall>d \<in> set cs. extent c \<inter> extent d = {}" "b_addr c \<notin> b_addr ` set cs"
    using Cons.prems(2) wf_arena_addr_notin by (auto simp: wf_arena_Cons)
  have okb: "blk_ok b" using Cons.prems(2,3) by (auto simp: wf_arena_def list_all_iff)
  from Cons.prems(1) have p: "p = b_addr c" "arena m (blk_next m (b_addr c)) cs" by auto
  show ?case
  proof (cases "c = b")
    case True
    have "agree (\<Union> (header ` set cs)) ?m m"
      using ok(3) True header_subset_extent by (intro agree_store_field(2) [OF okb]) blast
    then have "arena ?m (blk_next m (b_addr b)) cs" using arena_cong [OF ok(2)] p(2) True by blast
    then show ?thesis
      using Cons.prems(1) True ok(4) unfolding p(1) by (simp add: store_field_reads [OF okb] abs_mark_other)
  next
    case False
    then have b: "b \<in> set cs" using Cons.prems(3) by simp
    then have "header c \<inter> header b = {}" using ok(3) header_subset_extent by blast
    then have "agree (header c) ?m m" by (rule agree_store_field(2) [OF okb])
    note h = agree_header [OF ok(1) this]
    have "b_addr c \<noteq> b_addr b" using ok(4) b by auto
    then show ?thesis using Cons.IH [OF p(2) ok(2) b] Cons.prems(1) unfolding p(1) by (simp add: h)
  qed
qed simp

lemma arena_head: "arena m p bs \<Longrightarrow> p = 0 \<Longrightarrow> bs = []"
  by (cases bs) auto

lemma arena_used:
  assumes "arena m p bs" "b \<in> set bs"
  shows "blk_magic m (b_addr b) = BLOCK_MAGIC" "blk_free m (b_addr b) \<noteq> 0 \<longleftrightarrow> b_free b" "blk_size m (b_addr b) = b_size b"
  using assms by (induction bs arbitrary: p) auto

theorem kmalloc_refines:
  assumes "heap_inv h m bs" "0 < sz" "sz \<le> 0xFFFFFFFC"
  shows "\<exists>m'. kmalloc h sz m = Inr (fst (abs_alloc ((sz + 3) AND NOT 3) bs), m') \<and>
    heap_inv h m' (snd (abs_alloc ((sz + 3) AND NOT 3) bs)) \<and> agree (- free_extents bs) m' m"
proof -
  define sz' where "sz' = (sz + 3) AND NOT 3"
  have al: "aligned 4 sz'" unfolding sz'_def by (rule round4(1) [OF assms(3)])
  from assms(1) have a: "arena m (heap_start h) bs" "wf_arena bs" by (auto simp: heap_inv_def)
  from kmalloc_loop_refines [OF a wf_arena_length [OF a(2)] al] abs_alloc_extents [OF a(2) al]
  obtain m' where m': "kmalloc_loop walk_fuel (heap_start h) sz' m = Inr (fst (abs_alloc sz' bs), m')"
    "heap_inv h m' (snd (abs_alloc sz' bs))" "agree (- free_extents bs) m' m"
    by (auto simp: heap_inv_def)
  show ?thesis
  proof (cases "heap_start h = 0")
    case True
    then have "bs = []" using a(1) arena_head by blast
    then show ?thesis using True assms(1) by (auto simp: kmalloc_def)
  next
    case False
    then have "kmalloc h sz m = kmalloc_loop walk_fuel (heap_start h) sz' m"
      using assms(2) unfolding kmalloc_def sz'_def by auto
    with m' show ?thesis unfolding sz'_def by simp
  qed
qed

definition mark_word :: "blk \<Rightarrow> nat set" where
  "mark_word b = {unat (b_addr b) + 8..<unat (b_addr b) + 12}"

theorem kfree_refines:
  assumes "heap_inv h m bs" "b \<in> set bs" "\<not> b_free b"
  shows "\<exists>m'. kfree h (b_addr b + BLOCK_HEADER_SIZE) m = Inr m' \<and>
    heap_inv h m' (abs_free (b_addr b + BLOCK_HEADER_SIZE) bs) \<and>
    agree (- (mark_word b \<union> free_links (abs_mark (b_addr b) bs))) m' m"
proof -
  from assms(1) have a: "arena m (heap_start h) bs" "wf_arena bs" by (auto simp: heap_inv_def)
  then have ok: "blk_ok b" using assms(2) by (auto simp: wf_arena_def list_all_iff)
  define m1 where "m1 = store32 (b_addr b + 8) 1 m"
  have a1: "arena m1 (heap_start h) (abs_mark (b_addr b) bs)" unfolding m1_def by (rule mark_memory [OF a assms(2)])
  have wf1: "wf_arena (abs_mark (b_addr b) bs)" using a(2) by simp
  from coalesce_loop_refines [OF a1 wf1 wf_arena_length [OF wf1]]
  obtain m' where m': "coalesce h m1 = Inr m'" "arena m' (heap_start h) (abs_coalesce (abs_mark (b_addr b) bs))"
    "agree (- free_links (abs_mark (b_addr b) bs)) m' m1" unfolding coalesce_def by auto
  have "kfree h (b_addr b + BLOCK_HEADER_SIZE) m = Inr m'"
    using m'(1) arena_used [OF a(1) assms(2)] assms(3) blk_ptr_nonzero [OF ok]
    by (simp add: kfree_def m1_def)
  moreover have "heap_inv h m' (abs_free (b_addr b + BLOCK_HEADER_SIZE) bs)"
    using m'(2) abs_coalesce_wf [OF wf1] by (simp add: heap_inv_def abs_free_def)
  moreover have "agree (- mark_word b) m1 m"
    unfolding m1_def using blk_ok_fields [OF ok] by (intro agree_store32) (auto simp: mark_word_def)
  then have "agree (- (mark_word b \<union> free_links (abs_mark (b_addr b) bs))) m' m"
    using m'(3) by (auto simp: agree_def)
  ultimately show ?thesis by blast
qed

section \<open>The contract of the heap\<close>

fun blocks :: "nat \<Rightarrow> mem \<Rightarrow> u32 \<Rightarrow> blk list" where
  "blocks 0 m p = []"
| "blocks (Suc n) m p =
     (if p = 0 then [] else Blk p (blk_size m p) (blk_free m p \<noteq> 0) # blocks n m (blk_next m p))"

definition heap_blocks :: "heap \<Rightarrow> mem \<Rightarrow> blk list" where
  "heap_blocks h m = blocks walk_fuel m (heap_start h)"

definition heap_ok :: "heap \<Rightarrow> mem \<Rightarrow> bool" where
  "heap_ok h m \<longleftrightarrow> heap_inv h m (heap_blocks h m)"

definition live :: "heap \<Rightarrow> mem \<Rightarrow> u32 \<rightharpoonup> u32" where
  "live h m = objs (heap_blocks h m)"

definition bytes :: "u32 \<Rightarrow> u32 \<Rightarrow> nat set" where
  "bytes p k = {unat p..<unat p + unat k}"

lemma blocks_arena: "arena m p bs \<Longrightarrow> length bs < n \<Longrightarrow> blocks n m p = bs"
proof (induction bs arbitrary: p n)
  case Nil
  then show ?case by (cases n) auto
next
  case (Cons b bs)
  then obtain k where "n = Suc k" by (cases n) auto
  with Cons show ?case by (cases b) auto
qed

lemma heap_blocks_eq: "heap_inv h m bs \<Longrightarrow> heap_blocks h m = bs"
  unfolding heap_inv_def heap_blocks_def using blocks_arena wf_arena_length by blast

lemma heap_inv_ok: "heap_inv h m bs \<Longrightarrow> heap_ok h m \<and> live h m = objs bs"
  by (simp add: heap_ok_def live_def heap_blocks_eq)

lemma heap_inv_wf: "heap_inv h m bs \<Longrightarrow> wf_arena bs \<and> (\<forall>b \<in> set bs. blk_ok b)"
  by (auto simp: heap_inv_def wf_arena_def list_all_iff)

lemma heap_okE:
  assumes "heap_ok h m"
  obtains bs where "heap_inv h m bs" "live h m = objs bs" "wf_arena bs"
  using assms heap_inv_wf by (auto simp: heap_ok_def live_def)

lemma live_block:
  assumes "heap_inv h m bs" "objs bs p = Some k"
  obtains b where "b \<in> set bs" "\<not> b_free b" "p = b_addr b + BLOCK_HEADER_SIZE" "k = b_size b"
    "blk_ok b" "bytes p k = {unat (b_addr b) + 16..<unat (b_addr b) + 16 + unat (b_size b)}"
proof -
  from objs_SomeD [OF assms(2)] obtain b where b: "b \<in> set bs" "\<not> b_free b" "p = b_addr b + BLOCK_HEADER_SIZE" "k = b_size b"
    by blast
  moreover have "blk_ok b" using heap_inv_wf [OF assms(1)] b(1) by blast
  ultimately show thesis using that blk_fresh_ptr [of b] by (simp add: bytes_def)
qed

lemma wf_arena_apart: "wf_arena bs \<Longrightarrow> b \<in> set bs \<Longrightarrow> c \<in> set bs \<Longrightarrow> b \<noteq> c \<Longrightarrow> extent b \<inter> extent c = {}"
  by (induction bs) (auto simp: wf_arena_Cons)

lemma bytes_extent: "blk_ok b \<Longrightarrow> bytes (b_addr b + BLOCK_HEADER_SIZE) (b_size b) \<subseteq> extent b - header b"
  by (auto simp: bytes_def extent_def header_def blk_fresh_ptr)

lemma bytes_not_free:
  assumes "wf_arena bs" "b \<in> set bs" "\<not> b_free b"
  shows "extent b \<inter> free_extents bs = {}"
  using wf_arena_apart [OF assms(1,2)] assms(3) unfolding free_extents_def by blast

lemma kmalloc_contract:
  assumes "heap_ok h m" "0 < n" "n \<le> 0xFFFFFFFC"
  shows "\<exists>p m'. kmalloc h n m = Inr (p, m') \<and> heap_ok h m' \<and> (p = 0 \<longrightarrow> live h m' = live h m) \<and>
    (p \<noteq> 0 \<longrightarrow> live h m p = None \<and> (\<exists>k \<ge> n. live h m' = (live h m)(p \<mapsto> k))) \<and>
    (\<forall>q k. live h m q = Some k \<longrightarrow> agree (bytes q k) m' m)"
proof -
  from assms(1) obtain bs where bs: "heap_inv h m bs" "live h m = objs bs" "wf_arena bs" by (rule heap_okE)
  define sz where "sz = (n + 3) AND NOT 3"
  note sz = round4 [OF assms(3), folded sz_def]
  from kmalloc_refines [OF bs(1) assms(2,3), folded sz_def]
  obtain m' where m': "kmalloc h n m = Inr (fst (abs_alloc sz bs), m')" "heap_inv h m' (snd (abs_alloc sz bs))"
    "agree (- free_extents bs) m' m" by blast
  from heap_inv_ok [OF m'(2)] have ok: "heap_ok h m'" "live h m' = objs (snd (abs_alloc sz bs))" by auto
  have "agree (bytes q k) m' m" if "live h m q = Some k" for q k
  proof -
    from live_block [OF bs(1)] that bs(2) obtain b where
      b: "b \<in> set bs" "\<not> b_free b" "q = b_addr b + BLOCK_HEADER_SIZE" "k = b_size b" "blk_ok b" by metis
    have "bytes q k \<subseteq> - free_extents bs"
      using bytes_extent [OF b(5)] bytes_not_free [OF bs(3) b(1,2)] b(3,4) by blast
    then show ?thesis using m'(3) agree_subset by blast
  qed
  moreover have "fst (abs_alloc sz bs) = 0 \<longrightarrow> live h m' = live h m"
    using abs_alloc_none [OF bs(3), of sz] ok(2) bs(2) by auto
  moreover have "fst (abs_alloc sz bs) \<noteq> 0 \<longrightarrow> live h m (fst (abs_alloc sz bs)) = None \<and>
    (\<exists>k \<ge> n. live h m' = (live h m)(fst (abs_alloc sz bs) \<mapsto> k))"
    using abs_alloc_objs [OF bs(3) sz(1)] sz(2) order_trans unfolding ok(2) bs(2) by blast
  ultimately show ?thesis using m'(1) ok(1) by blast
qed

lemma kfree_keeps:
  assumes "wf_arena bs" "b \<in> set bs" "c \<in> set bs" "b \<noteq> c" "\<not> b_free c" "b_addr c \<noteq> b_addr b"
  shows "extent c \<inter> (mark_word b \<union> free_links (abs_mark (b_addr b) bs)) = {}"
proof -
  have "extent c \<inter> extent b = {}" using wf_arena_apart [OF assms(1,3,2)] assms(4) by blast
  then have "extent c \<inter> mark_word b = {}" by (auto simp: mark_word_def extent_def)
  moreover have "c \<in> set (abs_mark (b_addr b) bs)" using assms(3,6) by (force simp: abs_mark_def)
  then have "extent c \<inter> free_extents (abs_mark (b_addr b) bs) = {}"
    using bytes_not_free [of "abs_mark (b_addr b) bs" c] assms(1,5) by simp
  ultimately show ?thesis using free_links_subset by blast
qed

lemma kfree_contract:
  assumes "heap_ok h m" "live h m p = Some k"
  shows "\<exists>m'. kfree h p m = Inr m' \<and> heap_ok h m' \<and> live h m' = (live h m)(p := None) \<and>
    (\<forall>q l. q \<noteq> p \<longrightarrow> live h m q = Some l \<longrightarrow> agree (bytes q l) m' m)"
proof -
  from assms(1) obtain bs where bs: "heap_inv h m bs" "live h m = objs bs" "wf_arena bs" by (rule heap_okE)
  from live_block [OF bs(1)] assms(2) bs(2) obtain b where
    b: "b \<in> set bs" "\<not> b_free b" "p = b_addr b + BLOCK_HEADER_SIZE" "k = b_size b" "blk_ok b" by metis
  from kfree_refines [OF bs(1) b(1,2)] obtain m' where m': "kfree h p m = Inr m'" "heap_inv h m' (abs_free p bs)"
    "agree (- (mark_word b \<union> free_links (abs_mark (b_addr b) bs))) m' m" unfolding b(3) by blast
  have "live h m' = (live h m)(p := None)"
    using heap_inv_ok [OF m'(2)] abs_mark_objs [OF bs(3), of "b_addr b"] by (simp add: abs_free_def b(3) bs(2))
  moreover have "agree (bytes q l) m' m" if "q \<noteq> p" "live h m q = Some l" for q l
  proof -
    from live_block [OF bs(1)] that(2) bs(2) obtain c where
      c: "c \<in> set bs" "\<not> b_free c" "q = b_addr c + BLOCK_HEADER_SIZE" "l = b_size c" "blk_ok c" by metis
    have "b \<noteq> c" "b_addr c \<noteq> b_addr b" using that(1) c(3) b(3) by auto
    from kfree_keeps [OF bs(3) b(1) c(1) this(1) c(2) this(2)] bytes_extent [OF c(5)] c(3,4)
    have "bytes q l \<subseteq> - (mark_word b \<union> free_links (abs_mark (b_addr b) bs))" by blast
    then show ?thesis using m'(3) agree_subset by blast
  qed
  ultimately show ?thesis using m'(1) heap_inv_ok [OF m'(2)] by blast
qed

lemma kfree_panics:
  assumes "heap_ok h m" "live h m p = Some k" "kfree h p m = Inr m'"
  shows "kfree h p m' = Inl (Panic ''kfree: invalid pointer or double-free'')"
proof -
  from assms(1) obtain bs where bs: "heap_inv h m bs" "live h m = objs bs" "wf_arena bs" by (rule heap_okE)
  from live_block [OF bs(1)] assms(2) bs(2) obtain b where
    b: "b \<in> set bs" "\<not> b_free b" "p = b_addr b + BLOCK_HEADER_SIZE" "k = b_size b" "blk_ok b" by metis
  define m1 where "m1 = store32 (b_addr b + 8) 1 m"
  have a1: "arena m1 (heap_start h) (abs_mark (b_addr b) bs)"
    unfolding m1_def using mark_memory [OF _ bs(3) b(1)] bs(1) by (simp add: heap_inv_def)
  have wf1: "wf_arena (abs_mark (b_addr b) bs)" using bs(3) by simp
  have "kfree h p m = coalesce h m1"
    using arena_used [of m "heap_start h" bs b] bs(1) b blk_ptr_nonzero [OF b(5)]
    by (simp add: kfree_def m1_def heap_inv_def)
  with assms(3) coalesce_loop_refines [OF a1 wf1 wf_arena_length [OF wf1]]
  have ag: "agree (- free_links (abs_mark (b_addr b) bs)) m' m1" unfolding coalesce_def by auto
  define w where "w = {unat (b_addr b) + 8..<unat (b_addr b) + 12}"
  have "w \<inter> links c = {}" if "c \<in> set (abs_mark (b_addr b) bs)" for c
  proof (cases "b_addr c = b_addr b")
    case True
    then show ?thesis by (auto simp: w_def links_def)
  next
    case False
    let ?b = "Blk (b_addr b) (b_size b) True"
    have "?b \<in> set (abs_mark (b_addr b) bs)" using b(1) by (force simp: abs_mark_def)
    with wf_arena_apart [OF wf1 _ that] False have "extent ?b \<inter> extent c = {}" by force
    moreover have "w \<subseteq> extent ?b" by (auto simp: w_def extent_def)
    ultimately show ?thesis using links_subset_header [of c] header_subset_extent [of c] by blast
  qed
  then have "w \<subseteq> - free_links (abs_mark (b_addr b) bs)" by (auto simp: free_links_def)
  then have "agree w m' m1" using ag agree_subset by blast
  then have "blk_free m' (b_addr b) = blk_free m1 (b_addr b)"
    unfolding blk_free_def using blk_ok_fields [OF b(5)] by (intro agree_load32) (auto simp: w_def)
  also have "\<dots> = 1" by (simp add: m1_def store_field_reads [OF b(5)])
  finally show ?thesis using b(3) blk_ptr_nonzero [OF b(5)] by (simp add: kfree_def)
qed

lemma client_write_ok:
  assumes "heap_ok h m" "live h m p = Some k" "agree (- bytes p k) m' m"
  shows "heap_ok h m' \<and> live h m' = live h m"
proof -
  from assms(1) obtain bs where bs: "heap_inv h m bs" "live h m = objs bs" "wf_arena bs" by (rule heap_okE)
  from live_block [OF bs(1)] assms(2) bs(2) obtain b where
    b: "b \<in> set bs" "\<not> b_free b" "p = b_addr b + BLOCK_HEADER_SIZE" "k = b_size b" "blk_ok b" by metis
  have "header c \<subseteq> - bytes p k" if "c \<in> set bs" for c
    using wf_arena_apart [OF bs(3) b(1) that] bytes_extent [OF b(5)] header_subset_extent [of c] b(3,4)
    by (cases "b = c") blast+
  then have "\<Union> (header ` set bs) \<subseteq> - bytes p k" by blast
  then have "agree (\<Union> (header ` set bs)) m m'" using agree_subset [OF assms(3)] by (auto simp: agree_def)
  then have "heap_inv h m' bs" using bs(1) arena_cong [OF bs(3)] unfolding heap_inv_def by blast
  then show ?thesis using heap_inv_ok bs(2) by simp
qed

locale object_heap =
  fixes alloc :: "u32 \<Rightarrow> mem \<Rightarrow> (u32 \<times> mem) res"
    and release :: "u32 \<Rightarrow> mem \<Rightarrow> mem res"
    and objects :: "mem \<Rightarrow> u32 \<rightharpoonup> u32"
    and inv :: "mem \<Rightarrow> bool"
    and limit :: u32
  assumes alloc_ok: "inv m \<Longrightarrow> 0 < n \<Longrightarrow> n \<le> limit \<Longrightarrow>
      \<exists>p m'. alloc n m = Inr (p, m') \<and> inv m' \<and> (p = 0 \<longrightarrow> objects m' = objects m) \<and>
        (p \<noteq> 0 \<longrightarrow> objects m p = None \<and> (\<exists>k \<ge> n. objects m' = (objects m)(p \<mapsto> k))) \<and>
        (\<forall>q k. objects m q = Some k \<longrightarrow> agree (bytes q k) m' m)"
    and release_ok: "inv m \<Longrightarrow> objects m p = Some k \<Longrightarrow>
      \<exists>m'. release p m = Inr m' \<and> inv m' \<and> objects m' = (objects m)(p := None) \<and>
        (\<forall>q l. q \<noteq> p \<longrightarrow> objects m q = Some l \<longrightarrow> agree (bytes q l) m' m)"
    and write_ok: "inv m \<Longrightarrow> objects m p = Some k \<Longrightarrow> agree (- bytes p k) m' m \<Longrightarrow>
      inv m' \<and> objects m' = objects m"
    and apart: "inv m \<Longrightarrow> objects m p = Some k \<Longrightarrow> objects m q = Some l \<Longrightarrow> p \<noteq> q \<Longrightarrow>
      bytes p k \<inter> bytes q l = {}"
    and nonnull: "inv m \<Longrightarrow> objects m p = Some k \<Longrightarrow> p \<noteq> 0"
begin

lemma alloc_release:
  assumes "inv m" "0 < n" "n \<le> limit" "alloc n m = Inr (p, m1)" "p \<noteq> 0"
  obtains m2 where "release p m1 = Inr m2" "inv m2" "objects m2 = objects m"
proof -
  from alloc_ok [OF assms(1-3)] assms(4,5) obtain k where
    a: "inv m1" "objects m p = None" "objects m1 = (objects m)(p \<mapsto> k)" by auto
  from release_ok [OF a(1), of p k] a(3) obtain m2 where
    r: "release p m1 = Inr m2" "inv m2" "objects m2 = (objects m1)(p := None)" by auto
  moreover have "(objects m)(p := None) = objects m" using a(2) by (metis fun_upd_triv)
  ultimately show thesis using that a(3) by simp
qed

text \<open>What a client stores in an object is still there after any later allocation and after the release of
  any other object.\<close>

lemma contents_survive_alloc:
  assumes "inv m" "objects m q = Some k" "0 < n" "n \<le> limit" "alloc n m = Inr (p, m1)"
  shows "agree (bytes q k) m1 m \<and> objects m1 q = Some k"
proof -
  from alloc_ok [OF assms(1,3,4)] assms(2,5)
  have "agree (bytes q k) m1 m" "p = 0 \<longrightarrow> objects m1 = objects m"
    "p \<noteq> 0 \<longrightarrow> objects m p = None \<and> (\<exists>k \<ge> n. objects m1 = (objects m)(p \<mapsto> k))" by auto
  with assms(2) show ?thesis by (cases "p = 0") auto
qed

lemma contents_survive_release:
  assumes "inv m" "objects m q = Some k" "objects m p = Some l" "p \<noteq> q" "release p m = Inr m1"
  shows "agree (bytes q k) m1 m \<and> objects m1 q = Some k"
  using release_ok [OF assms(1,3)] assms(2,4,5) by auto

lemma write_leaves_others:
  assumes "inv m" "objects m p = Some k" "objects m q = Some l" "p \<noteq> q" "agree (- bytes p k) m' m"
  shows "agree (bytes q l) m' m"
  using agree_subset [OF assms(5), of "bytes q l"] apart [OF assms(1-4)] by blast

end

lemma live_apart:
  assumes "heap_ok h m" "live h m p = Some k" "live h m q = Some l" "p \<noteq> q"
  shows "bytes p k \<inter> bytes q l = {}"
proof -
  from assms(1) obtain bs where bs: "heap_inv h m bs" "live h m = objs bs" "wf_arena bs" by (rule heap_okE)
  from live_block [OF bs(1)] assms(2) bs(2) obtain b where
    b: "b \<in> set bs" "p = b_addr b + BLOCK_HEADER_SIZE" "k = b_size b" "blk_ok b" by metis
  from live_block [OF bs(1)] assms(3) bs(2) obtain c where
    c: "c \<in> set bs" "q = b_addr c + BLOCK_HEADER_SIZE" "l = b_size c" "blk_ok c" by metis
  have "b \<noteq> c" using assms(4) b(2) c(2) by auto
  from wf_arena_apart [OF bs(3) b(1) c(1) this] bytes_extent [OF b(4)] bytes_extent [OF c(4)] b(2,3) c(2,3)
  show ?thesis by blast
qed

lemma live_nonnull: "heap_ok h m \<Longrightarrow> live h m p = Some k \<Longrightarrow> p \<noteq> 0"
  by (metis blk_ptr_nonzero heap_okE live_block)

interpretation kheap: object_heap "kmalloc h" "kfree h" "live h" "heap_ok h" "0xFFFFFFFC" for h
proof
  fix m :: mem and n p q k l :: u32 and m'
  show "heap_ok h m \<Longrightarrow> 0 < n \<Longrightarrow> n \<le> 0xFFFFFFFC \<Longrightarrow>
      \<exists>p m'. kmalloc h n m = Inr (p, m') \<and> heap_ok h m' \<and> (p = 0 \<longrightarrow> live h m' = live h m) \<and>
        (p \<noteq> 0 \<longrightarrow> live h m p = None \<and> (\<exists>k \<ge> n. live h m' = (live h m)(p \<mapsto> k))) \<and>
        (\<forall>q k. live h m q = Some k \<longrightarrow> agree (bytes q k) m' m)"
    by (rule kmalloc_contract)
  show "heap_ok h m \<Longrightarrow> live h m p = Some k \<Longrightarrow>
      \<exists>m'. kfree h p m = Inr m' \<and> heap_ok h m' \<and> live h m' = (live h m)(p := None) \<and>
        (\<forall>q l. q \<noteq> p \<longrightarrow> live h m q = Some l \<longrightarrow> agree (bytes q l) m' m)"
    by (rule kfree_contract)
  show "heap_ok h m \<Longrightarrow> live h m p = Some k \<Longrightarrow> agree (- bytes p k) m' m \<Longrightarrow> heap_ok h m' \<and> live h m' = live h m"
    by (rule client_write_ok)
  show "heap_ok h m \<Longrightarrow> live h m p = Some k \<Longrightarrow> live h m q = Some l \<Longrightarrow> p \<noteq> q \<Longrightarrow> bytes p k \<inter> bytes q l = {}"
    by (rule live_apart)
  show "heap_ok h m \<Longrightarrow> live h m p = Some k \<Longrightarrow> p \<noteq> 0" by (rule live_nonnull)
qed

section \<open>Allocation and release cancel\<close>

lemma abs_alloc_split:
  "fst (abs_alloc sz bs) \<noteq> 0 \<Longrightarrow> \<exists>xs b ys. bs = xs @ b # ys \<and> b_free b \<and> sz \<le> b_size b \<and>
     (\<forall>x \<in> set xs. b_free x \<longrightarrow> b_size x < sz) \<and>
     fst (abs_alloc sz bs) = b_addr b + BLOCK_HEADER_SIZE \<and> snd (abs_alloc sz bs) = xs @ take_block b sz @ ys"
proof (induction bs)
  case (Cons c bs)
  show ?case
  proof (cases "b_free c \<and> sz \<le> b_size c")
    case True
    then show ?thesis by (intro exI [of _ "[]"] exI [of _ c] exI [of _ bs]) simp
  next
    case False
    obtain p bs' where p: "abs_alloc sz bs = (p, bs')" by force
    have a: "abs_alloc sz (c # bs) = (p, c # bs')" using False p by auto
    from Cons.IH Cons.prems p a obtain xs b ys where "bs = xs @ b # ys" "b_free b" "sz \<le> b_size b"
      "\<forall>x \<in> set xs. b_free x \<longrightarrow> b_size x < sz" "p = b_addr b + BLOCK_HEADER_SIZE" "bs' = xs @ take_block b sz @ ys"
      by auto
    then show ?thesis using a False by (intro exI [of _ "c # xs"] exI [of _ b] exI [of _ ys]) auto
  qed
qed simp

lemma coalesced_ConsD: "coalesced (x # xs) \<Longrightarrow> coalesced xs"
  by (cases xs) (auto simp: coalesced_def)

lemma abs_coalesce_rejoin:
  assumes "coalesced (xs @ merge_blk a b # ys)" "mergeable a b"
  shows "abs_coalesce (xs @ a # b # ys) = xs @ merge_blk a b # ys"
  using assms(1)
proof (induction xs)
  case Nil
  then show ?case using assms(2) abs_coalesce_id [of "merge_blk a b # ys"] by (simp add: abs_coalesce_rec)
next
  case (Cons x xs)
  have c: "coalesced (xs @ merge_blk a b # ys)" using Cons.prems coalesced_ConsD by auto
  have fa: "b_free a" using assms(2) by (simp add: mergeable_def)
  obtain z zs where z: "xs @ a # b # ys = z # zs" by (cases xs) auto
  have "\<not> mergeable x z"
  proof (cases xs)
    case Nil
    with z Cons.prems fa show ?thesis by (auto simp: coalesced_def mergeable_def merge_blk_def)
  next
    case (Cons w ws)
    with z Cons.prems show ?thesis by (auto simp: coalesced_def)
  qed
  with Cons.IH [OF c] z show ?case by (simp add: abs_coalesce_rec)
qed

lemma abs_mark_append: "abs_mark a (xs @ ys) = abs_mark a xs @ abs_mark a ys"
  by (simp add: abs_mark_def)

lemma abs_free_alloc:
  assumes wf: "wf_arena bs" and al: "aligned 4 sz" and co: "coalesced bs" and ok: "fst (abs_alloc sz bs) \<noteq> 0"
  shows "abs_free (fst (abs_alloc sz bs)) (snd (abs_alloc sz bs)) = bs"
proof -
  from abs_alloc_split [OF ok] obtain xs b ys where s: "bs = xs @ b # ys" "b_free b" "sz \<le> b_size b"
    "fst (abs_alloc sz bs) = b_addr b + BLOCK_HEADER_SIZE" "snd (abs_alloc sz bs) = xs @ take_block b sz @ ys" by blast
  from wf_arena_distinct [OF wf] s(1) have n: "b_addr b \<notin> b_addr ` set xs" "b_addr b \<notin> b_addr ` set ys" by auto
  have okb: "blk_ok b" using wf s(1) by (simp add: wf_arena_def)
  have fr: "abs_free (fst (abs_alloc sz bs)) (snd (abs_alloc sz bs)) = abs_coalesce (xs @ abs_mark (b_addr b) (take_block b sz) @ ys)"
    by (simp add: abs_free_def s(4,5) abs_mark_append abs_mark_other n)
  show ?thesis
  proof (cases "unat (b_size b) \<le> unat sz + 24")
    case True
    then have "take_block b sz = [Blk (b_addr b) (b_size b) False]"
      by (simp add: take_block_def split_guard [OF okb s(3)])
    then have "abs_mark (b_addr b) (take_block b sz) = [b]" using s(2) by (cases b) simp
    with fr co s(1) show ?thesis by (simp add: abs_coalesce_id)
  next
    case False
    note g = split_geometry [OF okb al]
    let ?a = "Blk (b_addr b) sz True" and ?c = "Blk (b_addr b + BLOCK_HEADER_SIZE + sz) (b_size b - sz - BLOCK_HEADER_SIZE) True"
    have "unat (b_addr b + BLOCK_HEADER_SIZE + sz) \<noteq> unat (b_addr b)" using g(1) False by simp
    then have ne: "b_addr b + BLOCK_HEADER_SIZE + sz \<noteq> b_addr b" by metis
    have mk: "abs_mark (b_addr b) (take_block b sz) = [?a, ?c]"
      using False ne by (simp add: take_block_def split_guard [OF okb s(3)])
    have mg: "merge_blk ?a ?c = b" using s(2) by (cases b) (simp add: merge_blk_def)
    have "mergeable ?a ?c" by (simp add: mergeable_def)
    from abs_coalesce_rejoin [OF _ this, of xs ys] co s(1) fr mk mg show ?thesis by simp
  qed
qed

section \<open>Building the heap\<close>

lemma arena_link:
  assumes "arena m p (bs @ [b])" "wf_arena (bs @ [b, c])"
    "blk_magic m (b_addr c) = BLOCK_MAGIC" "blk_size m (b_addr c) = b_size c"
    "(blk_free m (b_addr c) \<noteq> 0) = b_free c" "blk_next m (b_addr c) = 0"
  shows "arena (store32 (b_addr b + 12) (b_addr c) m) p (bs @ [b, c])"
  using assms(1,2)
proof (induction bs arbitrary: p)
  case Nil
  then have ok: "blk_ok b" "blk_ok c" "extent b \<inter> extent c = {}" by (auto simp: wf_arena_Cons)
  then have "header c \<inter> header b = {}" using header_subset_extent by blast
  note h = agree_header [OF ok(2) agree_store_field(3) [OF ok(1) this]]
  from Nil(1) have p: "p = b_addr b" by simp
  from Nil(1) blk_okD(1) [OF ok(2)] assms(3-6) show ?case
    unfolding p by (simp add: store_field_reads [OF ok(1)] h)
next
  case (Cons x xs)
  then have ok: "blk_ok x" "blk_ok b" "extent x \<inter> extent b = {}" "wf_arena (xs @ [b, c])"
    by (auto simp: wf_arena_Cons wf_arena_append)
  then have "header x \<inter> header b = {}" using header_subset_extent by blast
  note h = agree_header [OF ok(1) agree_store_field(3) [OF ok(2) this]]
  from Cons.prems(1) have x: "p = b_addr x" "arena m (blk_next m (b_addr x)) (xs @ [b])" by auto
  from Cons.IH [OF x(2) ok(4)] Cons.prems(1) show ?case unfolding x(1) by (simp add: h)
qed

definition page_blk :: "u32 \<Rightarrow> blk" where
  "page_blk f = Blk f (PAGE_SIZE - BLOCK_HEADER_SIZE) True"

lemma page_blk_sel [simp]: "b_addr (page_blk f) = f" "b_free (page_blk f)" "unat (b_size (page_blk f)) = 4080"
  by (simp_all add: page_blk_def PAGE_SIZE_def BLOCK_HEADER_SIZE_def)

lemma page_blk_ok: "aligned 4096 f \<Longrightarrow> f \<noteq> 0 \<Longrightarrow> unat f div 4096 < 32768 \<Longrightarrow> blk_ok (page_blk f)"
proof -
  assume f: "aligned 4096 f" "f \<noteq> 0" "unat f div 4096 < 32768"
  from f(1) obtain k where k: "unat f = 4096 * k" by (auto simp: aligned_def)
  have "aligned 4 f" unfolding aligned_def using k by (simp add: dvd_mult2)
  moreover have "unat f + 16 + 4080 < 2 ^ 31" using f(3) k by simp
  ultimately show ?thesis using f(2) by (simp add: blk_ok_def aligned_def)
qed

lemma page_blk_extent: "aligned 4096 f \<Longrightarrow> x \<in> extent (page_blk f) \<longleftrightarrow> x div 4096 = unat f div 4096"
proof -
  assume "aligned 4096 f"
  then obtain k where "unat f = 4096 * k" by (auto simp: aligned_def)
  then show ?thesis by (auto simp: extent_def)
qed

definition pages_ok :: "u32 list \<Rightarrow> nat set \<Rightarrow> bool" where
  "pages_ok fs free \<longleftrightarrow> distinct (map (\<lambda>f. unat f div 4096) fs) \<and>
     (\<forall>f \<in> set fs. aligned 4096 f \<and> f \<noteq> 0 \<and> unat f div 4096 < 32768 \<and> unat f div 4096 \<notin> free)"

lemma pages_wf: "pages_ok fs A \<Longrightarrow> wf_arena (map page_blk fs)"
proof (induction fs)
  case (Cons f fs)
  then have "extent (page_blk f) \<inter> extent (page_blk g) = {}" if "g \<in> set fs" for g
    using that page_blk_extent by (fastforce simp: pages_ok_def)
  with Cons page_blk_ok show ?case by (auto simp: wf_arena_Cons pages_ok_def)
qed (simp add: wf_arena_def)

definition init_inv :: "heap \<Rightarrow> mem \<Rightarrow> u32 \<Rightarrow> u32 list \<Rightarrow> pmm \<Rightarrow> bool" where
  "init_inv h m prev fs s \<longleftrightarrow> pmm_inv s \<and> pages_ok fs (free_set s) \<and> heap_inv h m (map page_blk fs) \<and>
     prev = (if fs = [] then 0 else last fs) \<and> unat (heap_total_bytes h) = 4096 * length fs \<and> heap_start h = (if fs = [] then 0 else hd fs)"

lemma pages_ok_length: "pages_ok fs A \<Longrightarrow> length fs \<le> 32768"
proof -
  assume a: "pages_ok fs A"
  then have "set (map (\<lambda>f. unat f div 4096) fs) \<subseteq> {..<32768}" by (auto simp: pages_ok_def)
  then have "card (set (map (\<lambda>f. unat f div 4096) fs)) \<le> card {..<32768 :: nat}" by (intro card_mono) auto
  then show ?thesis using a distinct_card [of "map (\<lambda>f. unat f div 4096) fs"] by (simp add: pages_ok_def)
qed

lemma kmalloc_init_step:
  assumes inv: "init_inv h m prev fs s" and al: "pmm_alloc_frame s = (phys, s')" "phys \<noteq> 0"
  defines "m1 \<equiv> write_block phys (PAGE_SIZE - BLOCK_HEADER_SIZE) 1 0 m"
  defines "m2 \<equiv> (if prev \<noteq> 0 then store32 (prev + 12) phys m1 else m1)"
  defines "h1 \<equiv> (if heap_start h = 0 then h\<lparr>heap_start := phys\<rparr> else h)"
  defines "h2 \<equiv> h1\<lparr>heap_total_bytes := heap_total_bytes h1 + PAGE_SIZE\<rparr>"
  shows "init_inv h2 m2 phys (fs @ [phys]) s'"
    and "agree {x. x div 4096 \<notin> (\<lambda>f. unat f div 4096) ` set (fs @ [phys])} m2 m"
proof -
  let ?c = "page_blk phys"
  from inv have i: "pmm_inv s" "pages_ok fs (free_set s)" "heap_inv h m (map page_blk fs)" by (auto simp: init_inv_def)
  from pmm.alloc_some [OF i(1) al] pmm.frames_range [OF i(1)]
  have p: "aligned 4096 phys" "unat phys div 4096 \<in> free_set s" "free_set s' = free_set s - {unat phys div 4096}" "pmm_inv s'"
    "unat phys div 4096 < 32768" by blast+
  have new: "unat phys div 4096 \<notin> (\<lambda>f. unat f div 4096) ` set fs" using i(2) p(2) unfolding pages_ok_def by force
  have "\<forall>f \<in> set fs. unat f div 4096 \<notin> free_set s'" using i(2) unfolding p(3) pages_ok_def by blast
  then have pg: "pages_ok (fs @ [phys]) (free_set s')"
    using i(2) p(1,5) al(2) new unfolding pages_ok_def by (simp add: p(3))
  have wf: "wf_arena (map page_blk fs @ [?c])" using pages_wf [OF pg] by simp
  have okc: "blk_ok ?c" by (rule page_blk_ok [OF p(1) al(2) p(5)])
  note c = blk_okD [OF okc, simplified]
  have room: "unat phys + 16 < 2 ^ 32" using c(4) by simp
  have hc: "header ?c = {unat phys..<unat phys + 16}" by (simp add: header_def)
  have "(\<Union> (header ` set (map page_blk fs))) \<inter> {unat phys..<unat phys + 16} = {}"
    using wf header_subset_extent unfolding wf_arena_append hc [symmetric] by fastforce
  then have "agree (\<Union> (header ` set (map page_blk fs))) m1 m"
    unfolding m1_def using c(2) room by (intro agree_write_block) auto
  then have a1: "arena m1 (heap_start h) (map page_blk fs)"
    using i(3) arena_cong [of "map page_blk fs" m1 m] by (auto simp: heap_inv_def)
  note w = write_block_fields [OF c(2) room, of "PAGE_SIZE - BLOCK_HEADER_SIZE" 1 0 m, folded m1_def]
  have "arena m2 (heap_start h2) (map page_blk fs @ [?c])"
  proof (cases fs rule: rev_cases)
    case Nil
    with inv have "m2 = m1" "heap_start h2 = phys" by (auto simp: init_inv_def m2_def h2_def h1_def)
    then show ?thesis using Nil w al(2) by (simp add: page_blk_def)
  next
    case (snoc gs g)
    with inv i(2) have g: "prev = g" "g \<noteq> 0" "heap_start h = hd fs" "hd fs \<noteq> 0"
      by (auto simp: init_inv_def pages_ok_def hd_append)
    then have "m2 = store32 (g + 12) phys m1" "heap_start h2 = heap_start h" by (auto simp: m2_def h2_def h1_def)
    with arena_link [of m1 "heap_start h" "map page_blk gs" "page_blk g" ?c] a1 wf w snoc show ?thesis
      by (simp add: page_blk_def)
  qed
  then have hp: "heap_inv h2 m2 (map page_blk (fs @ [phys]))" using wf by (simp add: heap_inv_def)
  have "unat (heap_total_bytes h2) = 4096 * length (fs @ [phys])"
    using inv pages_ok_length [OF i(2)] by (simp add: init_inv_def h2_def h1_def PAGE_SIZE_def unat_add_nowrap)
  with hp pg p(4) inv show "init_inv h2 m2 phys (fs @ [phys]) s'"
    by (auto simp: init_inv_def h2_def h1_def pages_ok_def hd_append)
  let ?X = "{x. x div 4096 \<notin> (\<lambda>f. unat f div 4096) ` set (fs @ [phys])}"
  have out: "?X \<inter> header (page_blk g) = {}" if "g \<in> set (fs @ [phys])" for g
    using that pg page_blk_extent [of g] header_subset_extent [of "page_blk g"] by (fastforce simp: pages_ok_def)
  have "agree ?X m1 m"
    unfolding m1_def using c(2) room out [of phys] hc by (intro agree_write_block) auto
  moreover have "agree ?X m2 m1"
  proof (cases "prev = 0")
    case False
    with inv have g: "prev \<in> set fs" by (auto simp: init_inv_def split: if_splits)
    with pg have "blk_ok (page_blk prev)" by (intro page_blk_ok) (auto simp: pages_ok_def)
    from agree_store_field(3) [OF this out [of prev], of phys m1] g False show ?thesis by (simp add: m2_def)
  qed (simp add: m2_def)
  ultimately show "agree ?X m2 m" by (blast intro: agree_trans)
qed

lemma kmalloc_init_loop_spec:
  assumes "init_inv h m prev fs s"
  shows "\<exists>gs h' s' m' q. kmalloc_init_loop n prev h s m = (h', s', m') \<and> init_inv h' m' q (fs @ gs) s' \<and>
    length gs = min n (card (free_set s)) \<and> free_set s' = free_set s - (\<lambda>f. unat f div 4096) ` set gs \<and>
    (\<lambda>f. unat f div 4096) ` set gs \<subseteq> free_set s \<and>
    agree {x. x div 4096 \<notin> (\<lambda>f. unat f div 4096) ` set (fs @ gs)} m' m"
  using assms
proof (induction n arbitrary: prev h s m fs)
  case 0
  then show ?case by (intro exI [of _ "[]"]) auto
next
  case (Suc n)
  obtain phys s1 where al: "pmm_alloc_frame s = (phys, s1)" by force
  have inv: "pmm_inv s" using Suc.prems by (simp add: init_inv_def)
  show ?case
  proof (cases "phys = 0")
    case True
    with pmm.alloc_none [OF inv] al have "free_set s = {}" "s1 = s" by auto
    with True al Suc.prems show ?thesis by (intro exI [of _ "[]"]) auto
  next
    case False
    define m1 where "m1 = write_block phys (PAGE_SIZE - BLOCK_HEADER_SIZE) 1 0 m"
    define m2 where "m2 = (if prev \<noteq> 0 then store32 (prev + 12) phys m1 else m1)"
    define h1 where "h1 = (if heap_start h = 0 then h\<lparr>heap_start := phys\<rparr> else h)"
    define h2 where "h2 = h1\<lparr>heap_total_bytes := heap_total_bytes h1 + PAGE_SIZE\<rparr>"
    note st = kmalloc_init_step [OF Suc.prems al False, folded m1_def h1_def, folded m2_def h2_def]
    have step: "kmalloc_init_loop (Suc n) prev h s m = kmalloc_init_loop n phys h2 s1 m2"
      using al False by (simp add: Let_def m1_def m2_def h1_def h2_def)
    from pmm.alloc_some [OF inv al False]
    have fr: "unat phys div 4096 \<in> free_set s" "free_set s1 = free_set s - {unat phys div 4096}" by auto
    then have "card (free_set s) = Suc (card (free_set s1))"
      unfolding fr(2) by (intro card.remove finite_free_set)
    then have len: "min (Suc n) (card (free_set s)) = Suc (min n (card (free_set s1)))" by simp
    obtain gs h' s' m' q where
      g: "kmalloc_init_loop n phys h2 s1 m2 = (h', s', m')" "init_inv h' m' q ((fs @ [phys]) @ gs) s'"
        "length gs = min n (card (free_set s1))" "free_set s' = free_set s1 - (\<lambda>f. unat f div 4096) ` set gs"
        "agree {x. x div 4096 \<notin> (\<lambda>f. unat f div 4096) ` set ((fs @ [phys]) @ gs)} m' m2"
        "(\<lambda>f. unat f div 4096) ` set gs \<subseteq> free_set s1"
      using Suc.IH [OF st(1)] by (elim exE conjE) (rule that)
    have "agree {x. x div 4096 \<notin> (\<lambda>f. unat f div 4096) ` set ((fs @ [phys]) @ gs)} m2 m"
      by (rule agree_subset [OF st(2)]) auto
    from agree_trans [OF g(5) this]
    have "agree {x. x div 4096 \<notin> (\<lambda>f. unat f div 4096) ` set (fs @ phys # gs)} m' m" by simp
    moreover have "free_set s' = free_set s - (\<lambda>f. unat f div 4096) ` set (phys # gs)" using g(4) fr(2) by auto
    moreover have "(\<lambda>f. unat f div 4096) ` set (phys # gs) \<subseteq> free_set s" using g(6) fr by auto
    ultimately show ?thesis using g(1-3) len step
      by (intro exI [of _ "phys # gs"] exI [of _ h'] exI [of _ s'] exI [of _ m'] exI [of _ q]) simp
  qed
qed

lemma kmalloc_init_spec:
  assumes "pmm_inv s" "heap_start h = 0" "0 < pages"
  shows "\<exists>fs h' s' m'. kmalloc_init pages h s m = (h', s', m') \<and> heap_inv h' m' (map page_blk fs) \<and>
    length fs = min (unat pages) (card (free_set s)) \<and> unat (heap_total_bytes h') = 4096 * length fs \<and>
    pmm_inv s' \<and> free_set s' = free_set s - (\<lambda>f. unat f div 4096) ` set fs \<and>
    agree {x. x div 4096 \<notin> (\<lambda>f. unat f div 4096) ` set fs} m' m \<and>
    pages_ok fs (free_set s') \<and> (\<lambda>f. unat f div 4096) ` set fs \<subseteq> free_set s"
proof -
  have "init_inv (h\<lparr>heap_total_bytes := 0\<rparr>) m 0 [] s"
    using assms by (simp add: init_inv_def pages_ok_def heap_inv_def wf_arena_def)
  from kmalloc_init_loop_spec [OF this, of "unat pages"] assms(3) show ?thesis
    unfolding init_inv_def kmalloc_init_def by auto
qed

lemma kfree_blocks:
  assumes "heap_ok h m" "live h m p = Some k" "kfree h p m = Inr m'"
  shows "heap_blocks h m' = abs_free p (heap_blocks h m)"
proof -
  from assms(1) have inv: "heap_inv h m (heap_blocks h m)" by (simp add: heap_ok_def)
  from live_block [OF inv] assms(2) obtain b where
    b: "b \<in> set (heap_blocks h m)" "\<not> b_free b" "p = b_addr b + BLOCK_HEADER_SIZE" unfolding live_def by metis
  from kfree_refines [OF inv b(1,2)] assms(3) b(3) heap_blocks_eq show ?thesis by auto
qed

lemma objs_pages [simp]: "objs (map page_blk fs) = Map.empty"
  by (induction fs) auto

lemma round4_overflow: "0xFFFFFFFC < (n :: u32) \<Longrightarrow> (n + 3) AND NOT 3 = 0"
proof -
  assume "0xFFFFFFFC < n"
  then have n: "0xFFFFFFFC < unat n" by (simp add: word_less_nat_alt)
  have "unat (n + 3) = (unat n + 3) mod 2 ^ 32" by (simp only: unat_word_ariths) simp
  also have "\<dots> = unat n + 3 - 2 ^ 32" using n unat_u32_less [of n] by (simp add: mod_if)
  finally have "unat (n + 3) div 4 = 0" using unat_u32_less [of n] by simp
  then have "unat ((n + 3) AND NOT 3) = 0" by (simp only: round4_unat)
  then show ?thesis by (simp only: unat_eq_zero)
qed

lemma kmalloc_wrapped:
  assumes "heap_inv h m bs" "b \<in> set bs" "b_free b" "0xFFFFFFFC < n"
  shows "\<exists>p m' k. kmalloc h n m = Inr (p, m') \<and> p \<noteq> 0 \<and> live h m' p = Some k \<and> k < n"
proof -
  from assms(1) have a: "arena m (heap_start h) bs" "wf_arena bs" by (auto simp: heap_inv_def)
  have al: "aligned 4 0" by (simp add: aligned_def)
  from kmalloc_loop_refines [OF a wf_arena_length [OF a(2)] al] abs_alloc_extents [OF a(2) al]
  obtain m' where m': "kmalloc_loop walk_fuel (heap_start h) 0 m = Inr (fst (abs_alloc 0 bs), m')"
    "heap_inv h m' (snd (abs_alloc 0 bs))" by (auto simp: heap_inv_def)
  have ne: "fst (abs_alloc 0 bs) \<noteq> 0" using abs_alloc_none [OF a(2), of 0] assms(2,3) by auto
  from abs_alloc_objs [OF a(2) al ne] heap_inv_ok [OF m'(2)]
  obtain k where k: "live h m' (fst (abs_alloc 0 bs)) = Some k" by auto
  with live_block [OF m'(2)] heap_inv_ok [OF m'(2)] obtain c where "blk_ok c" "k = b_size c" by metis
  then have "unat k < 2 ^ 31" using blk_okD(4) [of c] by simp
  moreover have "0xFFFFFFFC < unat n" using assms(4) by (simp add: word_less_nat_alt)
  ultimately have "k < n" unfolding word_less_nat_alt by simp
  moreover have "heap_start h \<noteq> 0" using a(1) assms(2) by (cases bs) auto
  moreover have "n \<noteq> 0" using assms(4) by auto
  then have "kmalloc h n m = Inr (fst (abs_alloc 0 bs), m')"
    using m'(1) \<open>heap_start h \<noteq> 0\<close> unfolding kmalloc_def round4_overflow [OF assms(4)] by simp
  ultimately show ?thesis using ne k by blast
qed

section \<open>The memory of the heap\<close>

definition heap_bytes :: "heap \<Rightarrow> mem \<Rightarrow> nat set" where
  "heap_bytes h m = (\<Union>b \<in> set (heap_blocks h m). extent b)"

lemma heap_agree:
  assumes "heap_ok h m" "agree (heap_bytes h m) m' m"
  shows "heap_ok h m'" "heap_blocks h m' = heap_blocks h m" "live h m' = live h m" "heap_bytes h m' = heap_bytes h m"
proof -
  have i: "heap_inv h m (heap_blocks h m)" using assms(1) by (simp add: heap_ok_def)
  have "\<Union> (header ` set (heap_blocks h m)) \<subseteq> heap_bytes h m"
    unfolding heap_bytes_def using header_subset_extent by blast
  from agree_subset [OF assms(2) this] have "agree (\<Union> (header ` set (heap_blocks h m))) m m'" by (simp only: agree_def eq_commute)
  then have i': "heap_inv h m' (heap_blocks h m)" using i arena_cong by (auto simp: heap_inv_def)
  show "heap_ok h m'" using heap_inv_ok [OF i'] by simp
  show "heap_blocks h m' = heap_blocks h m" by (rule heap_blocks_eq [OF i'])
  then show "live h m' = live h m" "heap_bytes h m' = heap_bytes h m" by (simp_all add: live_def heap_bytes_def)
qed

lemma kmalloc_bytes:
  assumes "heap_ok h m" "0 < n" "n \<le> 0xFFFFFFFC" "kmalloc h n m = Inr (p, m')"
  shows "heap_bytes h m' = heap_bytes h m" "agree (- heap_bytes h m) m' m" "p \<noteq> 0 \<Longrightarrow> unat p \<in> heap_bytes h m"
proof -
  define bs where "bs = heap_blocks h m"
  define sz where "sz = (n + 3) AND NOT 3"
  have i: "heap_inv h m bs" using assms(1) by (simp add: heap_ok_def bs_def)
  have wf: "wf_arena bs" using heap_inv_wf [OF i] by simp
  have r: "p = fst (abs_alloc sz bs)" "heap_inv h m' (snd (abs_alloc sz bs))" "agree (- free_extents bs) m' m"
    using kmalloc_refines [OF i assms(2,3)] assms(4) by (auto simp: sz_def)
  note e = abs_alloc_extents [OF wf round4(1) [OF assms(3)], folded sz_def]
  show eq: "heap_bytes h m' = heap_bytes h m" using heap_blocks_eq [OF r(2)] e by (simp add: heap_bytes_def bs_def)
  have "free_extents bs \<subseteq> heap_bytes h m" by (auto simp: free_extents_def heap_bytes_def bs_def)
  then show "agree (- heap_bytes h m) m' m" using r(3) by (auto simp: agree_def)
  assume "p \<noteq> 0"
  then obtain k where k: "k \<ge> n" "live h m' p = Some k" "heap_ok h m'"
    using kmalloc_contract [OF assms(1-3)] assms(4) by auto
  have i': "heap_inv h m' (heap_blocks h m')" using k(3) by (simp add: heap_ok_def)
  obtain b where b: "b \<in> set (heap_blocks h m')" "bytes p k = {unat (b_addr b) + 16..<unat (b_addr b) + 16 + unat (b_size b)}"
    using live_block [OF i', of p k] k(2) by (auto simp: live_def)
  have "0 < unat k" using k(1) assms(2) by (simp add: word_less_nat_alt word_le_nat_alt)
  then have "unat p \<in> bytes p k" by (simp add: bytes_def)
  then have "unat p \<in> extent b" using b(2) by (simp add: extent_def)
  then have "unat p \<in> heap_bytes h m'" unfolding heap_bytes_def using b(1) by blast
  then show "unat p \<in> heap_bytes h m" unfolding eq .
qed

lemma kfree_bytes:
  assumes "heap_ok h m" "live h m p = Some k" "kfree h p m = Inr m'"
  shows "heap_bytes h m' = heap_bytes h m" "agree (- heap_bytes h m) m' m"
proof -
  define bs where "bs = heap_blocks h m"
  have i: "heap_inv h m bs" using assms(1) by (simp add: heap_ok_def bs_def)
  have wf: "wf_arena bs" using heap_inv_wf [OF i] by simp
  obtain b where b: "b \<in> set bs" "\<not> b_free b" "p = b_addr b + BLOCK_HEADER_SIZE"
    using live_block [OF i, of p k] assms(2) by (auto simp: live_def bs_def)
  have r: "heap_inv h m' (abs_free p bs)" "agree (- (mark_word b \<union> free_links (abs_mark (b_addr b) bs))) m' m"
    using kfree_refines [OF i b(1,2)] assms(3) by (auto simp: b(3))
  have "(\<Union>c \<in> set (abs_free p bs). extent c) = (\<Union>c \<in> set bs. extent c)"
    unfolding abs_free_def using abs_coalesce_wf [of "abs_mark (p - BLOCK_HEADER_SIZE) bs"] wf by (simp add: abs_mark_extents)
  then show "heap_bytes h m' = heap_bytes h m" using heap_blocks_eq [OF r(1)] by (simp add: heap_bytes_def bs_def)
  have "mark_word b \<subseteq> extent b" by (auto simp: mark_word_def extent_def)
  moreover have "free_extents (abs_mark (b_addr b) bs) \<subseteq> (\<Union>c \<in> set bs. extent c)"
    using abs_mark_extents [of "b_addr b" bs] by (auto simp: free_extents_def)
  ultimately have "mark_word b \<union> free_links (abs_mark (b_addr b) bs) \<subseteq> heap_bytes h m"
    using b(1) free_links_subset [of "abs_mark (b_addr b) bs"] unfolding heap_bytes_def bs_def [symmetric] by blast
  then show "agree (- heap_bytes h m) m' m" using r(2) by (auto simp: agree_def)
qed

section \<open>Properties\<close>

text \<open>A heap of one page at \<open>0x1000\<close>, free or allocated.\<close>

definition heap_ex :: heap where
  "heap_ex = \<lparr>heap_start = 0x1000, heap_total_bytes = 4096\<rparr>"

definition heap_mem_ex :: "u32 \<Rightarrow> mem" where
  "heap_mem_ex free = write_block 0x1000 0xFF0 free 0 (\<lambda>_. 0)"

lemma heap_ex_inv: "heap_inv heap_ex (heap_mem_ex f) [Blk 0x1000 0xFF0 (f \<noteq> 0)]"
proof -
  have "aligned 4 0x1000" "unat (0x1000 :: u32) + 16 < 2 ^ 32" by simp_all
  note w = write_block_fields [OF this, of "0xFF0" f 0 "\<lambda>_. 0", folded heap_mem_ex_def]
  show ?thesis by (simp add: heap_inv_def heap_ex_def w wf_arena_def blk_ok_def)
qed

lemma heap_ex_ok: "heap_ok heap_ex (heap_mem_ex f)" "heap_blocks heap_ex (heap_mem_ex f) = [Blk 0x1000 0xFF0 (f \<noteq> 0)]"
  "live heap_ex (heap_mem_ex 0) = [0x1010 \<mapsto> 0xFF0]"
  using heap_inv_ok [OF heap_ex_inv, of f] heap_inv_ok [OF heap_ex_inv, of 0] heap_blocks_eq [OF heap_ex_inv, of f]
  by (simp_all add: BLOCK_HEADER_SIZE_def)

text \<open>
  C24: on a well-formed heap \<open>kmalloc\<close> returns for every non-zero size up to \<open>0xFFFFFFFC\<close>, and what it does
  to the block list is first fit with splitting: the result pointer and the new list of blocks are those of
  the reference allocator for the size rounded up to a multiple of four.
\<close>

theorem kmalloc_first_fit:
  assumes "heap_ok h m" "0 < n" "n \<le> 0xFFFFFFFC"
  shows "\<exists>m'. kmalloc h n m = Inr (fst (abs_alloc ((n + 3) AND NOT 3) (heap_blocks h m)), m') \<and>
    heap_ok h m' \<and> heap_blocks h m' = snd (abs_alloc ((n + 3) AND NOT 3) (heap_blocks h m))"
  using kmalloc_refines [OF assms(1) [unfolded heap_ok_def] assms(2,3)] heap_inv_ok heap_blocks_eq by blast

theorem kmalloc_first_fit_witness:
  "\<exists>m'. kmalloc heap_ex 100 (heap_mem_ex 1) = Inr (0x1010, m') \<and>
    heap_blocks heap_ex m' = [Blk 0x1000 100 False, Blk 0x1074 3964 True]"
  using kmalloc_first_fit [OF heap_ex_ok(1) [of 1], of 100]
  by (auto simp: heap_ex_ok take_block_def BLOCK_HEADER_SIZE_def MIN_SPLIT_SIZE_def)

text \<open>
  C2: the contract of \<open>kmalloc\<close> towards its callers, for sizes from 1 to \<open>0xFFFFFFFC\<close>. It returns; a non-null
  result is a fresh object of at least the requested size, a null result leaves the live objects as they were, and
  no byte of an object that was live is changed. For the three larger sizes the rounding to a multiple of four wraps
  to 0 and the result may be too small: see \<open>kmalloc_rounding_overflow\<close> below.
\<close>

theorem kmalloc_fresh_object:
  assumes "heap_ok h m" "0 < n" "n \<le> 0xFFFFFFFC"
  shows "\<exists>p m'. kmalloc h n m = Inr (p, m') \<and> heap_ok h m' \<and> (p = 0 \<longrightarrow> live h m' = live h m) \<and>
    (p \<noteq> 0 \<longrightarrow> live h m p = None \<and> (\<exists>k \<ge> n. live h m' = (live h m)(p \<mapsto> k))) \<and>
    (\<forall>q k. live h m q = Some k \<longrightarrow> agree (bytes q k) m' m)"
  by (rule kheap.alloc_ok [OF assms])

theorem kmalloc_fresh_object_witness:
  "\<exists>p m'. kmalloc heap_ex 100 (heap_mem_ex 1) = Inr (p, m') \<and> heap_ok heap_ex m'"
  using kmalloc_fresh_object [OF heap_ex_ok(1) [of 1], of 100] by auto

text \<open>
  C3: \<open>kfree\<close> of a live object returns, removes exactly that object, keeps the heap well formed and
  changes no byte of any other live object; the merging pass leaves no two adjacent free blocks; and
  a second \<open>kfree\<close> of the same pointer panics.
\<close>

theorem kfree_correct:
  assumes "heap_ok h m" "live h m p = Some k"
  shows "\<exists>m'. kfree h p m = Inr m' \<and> heap_ok h m' \<and> live h m' = (live h m)(p := None) \<and>
    (\<forall>q l. q \<noteq> p \<longrightarrow> live h m q = Some l \<longrightarrow> agree (bytes q l) m' m) \<and>
    coalesced (heap_blocks h m') \<and> kfree h p m' = Inl (Panic ''kfree: invalid pointer or double-free'')"
  using kheap.release_ok [OF assms] kfree_panics [OF assms] kfree_blocks [OF assms] abs_coalesce_coalesced
  unfolding abs_free_def by metis

theorem kfree_correct_witness:
  "\<exists>m'. kfree heap_ex 0x1010 (heap_mem_ex 0) = Inr m' \<and> heap_ok heap_ex m' \<and> live heap_ex m' = Map.empty"
  using kfree_correct [OF heap_ex_ok(1) [of 0], of "0x1010" "0xFF0"] by (auto simp: heap_ex_ok)

text \<open>
  C29: on a heap without adjacent free blocks, as every \<open>kfree\<close> leaves it, releasing what was just allocated
  restores the block list exactly: no fragmentation remains. (The heap that \<open>kmalloc_init\<close> builds has one free block
  per page, and pages are usually adjacent; there the first \<open>kfree\<close> also merges these blocks.)
\<close>

theorem kmalloc_kfree_restores:
  assumes "heap_ok h m" "coalesced (heap_blocks h m)" "0 < n" "n \<le> 0xFFFFFFFC"
    "kmalloc h n m = Inr (p, m1)" "p \<noteq> 0"
  shows "\<exists>m2. kfree h p m1 = Inr m2 \<and> heap_ok h m2 \<and> heap_blocks h m2 = heap_blocks h m"
proof -
  let ?sz = "(n + 3) AND NOT 3"
  from kmalloc_refines [OF assms(1) [unfolded heap_ok_def] assms(3,4)] assms(5)
  have a: "p = fst (abs_alloc ?sz (heap_blocks h m))" "heap_blocks h m1 = snd (abs_alloc ?sz (heap_blocks h m))"
    using heap_blocks_eq by fastforce+
  have wf: "wf_arena (heap_blocks h m)" using assms(1) heap_inv_wf by (auto simp: heap_ok_def)
  from kheap.alloc_ok [OF assms(1,3,4)] assms(5,6) obtain k where m1: "heap_ok h m1" "live h m1 p = Some k" by auto
  from kheap.release_ok [OF m1] obtain m2 where m2: "kfree h p m1 = Inr m2" "heap_ok h m2" by blast
  from kfree_blocks [OF m1 m2(1)] abs_free_alloc [OF wf round4(1) [OF assms(4)] assms(2)] assms(6) a
  have "heap_blocks h m2 = heap_blocks h m" by simp
  with m2 show ?thesis by blast
qed

theorem kmalloc_kfree_restores_witness:
  "\<exists>m1 m2. kmalloc heap_ex 100 (heap_mem_ex 1) = Inr (0x1010, m1) \<and> kfree heap_ex 0x1010 m1 = Inr m2 \<and>
    heap_blocks heap_ex m2 = [Blk 0x1000 0xFF0 True]"
proof -
  have "coalesced (heap_blocks heap_ex (heap_mem_ex 1))" by (simp add: heap_ex_ok coalesced_def)
  moreover have "\<exists>m1. kmalloc heap_ex 100 (heap_mem_ex 1) = Inr (0x1010, m1)"
    using kmalloc_refines [OF heap_ex_inv [of 1], of 100] by (auto simp: BLOCK_HEADER_SIZE_def)
  ultimately show ?thesis
    using kmalloc_kfree_restores [OF heap_ex_ok(1) [of 1], of 100 "0x1010"] by (auto simp: heap_ex_ok)
qed

text \<open>
  C39: what a caller stores in its object does not disturb the allocator: any change confined to the bytes of
  one live object keeps the heap well formed and all objects live, and does not change any other object.
\<close>

theorem client_writes_are_safe:
  assumes "heap_ok h m" "live h m p = Some k" "agree (- bytes p k) m' m"
  shows "heap_ok h m' \<and> live h m' = live h m \<and>
    (\<forall>q l. q \<noteq> p \<longrightarrow> live h m q = Some l \<longrightarrow> agree (bytes q l) m' m)"
  using kheap.write_ok [OF assms] kheap.write_leaves_others [OF assms(1,2) _ _ assms(3)] by blast

theorem client_writes_are_safe_witness:
  "heap_ok heap_ex ((heap_mem_ex 0)(0x1010 := 42)) \<and> live heap_ex ((heap_mem_ex 0)(0x1010 := 42)) = [0x1010 \<mapsto> 0xFF0]"
proof -
  have "agree (- bytes 0x1010 0xFF0) ((heap_mem_ex 0)(0x1010 := 42)) (heap_mem_ex 0)"
    by (auto simp: agree_def bytes_def)
  with client_writes_are_safe [OF heap_ex_ok(1) [of 0], of "0x1010" "0xFF0"] show ?thesis by (simp add: heap_ex_ok)
qed

text \<open>
  \<open>kmalloc_init\<close> builds a heap with one free block of 4080 bytes per frame it obtained, as many as were
  asked for or as the frame allocator had, writes to no other page, and records the total size.
\<close>

theorem kmalloc_init_builds_heap:
  assumes "pmm_inv s" "heap_start h = 0" "0 < pages"
  shows "\<exists>fs h' s' m'. kmalloc_init pages h s m = (h', s', m') \<and> heap_ok h' m' \<and> live h' m' = Map.empty \<and>
    heap_blocks h' m' = map page_blk fs \<and>
    length fs = min (unat pages) (card (free_set s)) \<and> unat (heap_total_bytes h') = 4096 * length fs \<and>
    pmm_inv s' \<and> free_set s' = free_set s - (\<lambda>f. unat f div 4096) ` set fs \<and>
    agree {x. x div 4096 \<notin> (\<lambda>f. unat f div 4096) ` set fs} m' m"
proof -
  obtain fs h' s' m' where k: "kmalloc_init pages h s m = (h', s', m')"
    "heap_inv h' m' (map page_blk fs)" "length fs = min (unat pages) (card (free_set s))"
    "unat (heap_total_bytes h') = 4096 * length fs" "pmm_inv s'"
    "free_set s' = free_set s - (\<lambda>f. unat f div 4096) ` set fs"
    "agree {x. x div 4096 \<notin> (\<lambda>f. unat f div 4096) ` set fs} m' m"
    using kmalloc_init_spec [OF assms, of m] by (elim exE conjE) (rule that)
  have "heap_ok h' m'" "live h' m' = Map.empty" "heap_blocks h' m' = map page_blk fs"
    using heap_inv_ok [OF k(2)] heap_blocks_eq [OF k(2)] by simp_all
  with k show ?thesis by blast
qed

theorem kmalloc_init_builds_heap_witness:
  "\<exists>h' s' m'. kmalloc_init 2 \<lparr>heap_start = 0, heap_total_bytes = 0\<rparr> pmm_three (\<lambda>_. 0) = (h', s', m') \<and>
    heap_ok h' m' \<and> unat (heap_total_bytes h') = 8192"
  using kmalloc_init_builds_heap [OF pmm_three_inv, of "\<lparr>heap_start = 0, heap_total_bytes = 0\<rparr>" 2 "\<lambda>_. 0"]
  by (auto simp: pmm_three_free)

text \<open>
  Sizes above \<open>0xFFFFFFFC\<close> wrap to zero when they are rounded up. On a heap with any free block
  \<open>kmalloc\<close> then reports success with an object smaller than the requested size.
\<close>

theorem kmalloc_rounding_overflow:
  assumes "heap_ok h m" "b \<in> set (heap_blocks h m)" "b_free b" "0xFFFFFFFC < n"
  shows "\<exists>p m' k. kmalloc h n m = Inr (p, m') \<and> p \<noteq> 0 \<and> live h m' p = Some k \<and> k < n"
  using kmalloc_wrapped [OF assms(1) [unfolded heap_ok_def] assms(2-4)] .

theorem kmalloc_rounding_overflow_witness:
  "\<exists>p m' k. kmalloc heap_ex 0xFFFFFFFF (heap_mem_ex 1) = Inr (p, m') \<and> p \<noteq> 0 \<and> live heap_ex m' p = Some k \<and> k < 0xFFFFFFFF"
  using kmalloc_rounding_overflow [OF heap_ex_ok(1) [of 1], of "Blk 0x1000 0xFF0 True" "0xFFFFFFFF"]
  by (simp add: heap_ex_ok)

end
