(* ===== verification/Paging.thy ===== *)
theory Paging
  imports Pmm
begin

text \<open>
  The two-level page tables of \<open>kernel/paging.c\<close>. Page directories and page tables are arrays of
  32-bit entries in physical memory; \<open>translate\<close> is the address translation of the processor
  that reads them, as \<open>kernel/paging.h\<close> describes it. The addresses of the two static arrays
  \<open>kernel_pd\<close> and \<open>identity_pts\<close> are parameters, since the linker chooses them. Physical
  memory is accessed directly: the kernel runs on the identity mapping that \<open>paging_init\<close>
  installs. The translation cache is not modelled.
\<close>

section \<open>Model\<close>

definition PDE_PRESENT :: u32 where "PDE_PRESENT = 1"
definition PDE_WRITABLE :: u32 where "PDE_WRITABLE = 2"
definition PDE_USER :: u32 where "PDE_USER = 4"
definition PTE_PRESENT :: u32 where "PTE_PRESENT = 1"
definition PTE_WRITABLE :: u32 where "PTE_WRITABLE = 2"
definition PTE_USER :: u32 where "PTE_USER = 4"
definition PD_ENTRIES :: nat where "PD_ENTRIES = 1024"
definition PT_ENTRIES :: nat where "PT_ENTRIES = 1024"
definition IDENTITY_PT_COUNT :: nat where "IDENTITY_PT_COUNT = 8"

text \<open>The control registers \<open>paging_enable\<close> writes, and the global \<open>kernel_pd_phys\<close>.\<close>

record mmu =
  cr0 :: u32
  cr3 :: u32
  kernel_pd_phys :: u32

definition pd_index :: "u32 \<Rightarrow> u32" where "pd_index virt = drop_bit 22 virt"
definition pt_index :: "u32 \<Rightarrow> u32" where "pt_index virt = drop_bit 12 virt AND 0x3FF"

definition entry_at :: "u32 \<Rightarrow> u32 \<Rightarrow> u32" where "entry_at table i = table + 4 * i"

definition table_of :: "u32 \<Rightarrow> u32" where "table_of e = e AND NOT 0xFFF"

definition paging_enable :: "u32 \<Rightarrow> mmu \<Rightarrow> mmu" where
  "paging_enable pd_phys c = c\<lparr>cr3 := pd_phys, cr0 := cr0 c OR 0x80000000\<rparr>"

definition identity_pt :: "u32 \<Rightarrow> nat \<Rightarrow> u32" where
  "identity_pt ipts t = ipts + of_nat (t * 4096)"

definition identity_table :: "u32 \<Rightarrow> nat \<Rightarrow> mem \<Rightarrow> mem" where
  "identity_table ipts t m =
     fold (\<lambda>i. store32 (entry_at (identity_pt ipts t) (of_nat i))
             ((of_nat t * of_nat PT_ENTRIES * PAGE_SIZE + of_nat i * PAGE_SIZE) OR PTE_PRESENT OR PTE_WRITABLE))
       [0..<PT_ENTRIES] m"

definition identity_tables :: "u32 \<Rightarrow> u32 \<Rightarrow> mem \<Rightarrow> mem" where
  "identity_tables kernel_pd ipts m =
     fold (\<lambda>t m. store32 (entry_at kernel_pd (of_nat t)) (identity_pt ipts t OR PDE_PRESENT OR PDE_WRITABLE)
                   (identity_table ipts t m)) [0..<IDENTITY_PT_COUNT] m"

definition paging_init :: "u32 \<Rightarrow> u32 \<Rightarrow> mmu \<Rightarrow> mem \<Rightarrow> vga \<Rightarrow> mmu \<times> mem \<times> vga" where
  "paging_init kernel_pd ipts c m s =
     (let m = identity_tables kernel_pd ipts m;
          c = c\<lparr>kernel_pd_phys := kernel_pd\<rparr>;
          c = paging_enable (kernel_pd_phys c) c;
          s = vga_set_color VGA_COLOR_LIGHT_GREEN s;
          s = kprint (lit ''[OK] Paging enabled (identity 0 - '') s;
          s = kprint_int (of_nat (IDENTITY_PT_COUNT * 4)) s;
          s = kprint (lit ''MB)\<newline>'') s;
          s = vga_set_color VGA_COLOR_LIGHT_GREY s
      in (c, m, s))"

definition zero_table :: "u32 \<Rightarrow> mem \<Rightarrow> mem" where
  "zero_table pt m = fold (\<lambda>i. store32 (entry_at pt (of_nat i)) 0) [0..<PT_ENTRIES] m"

definition paging_map :: "u32 \<Rightarrow> u32 \<Rightarrow> u32 \<Rightarrow> pmm \<Rightarrow> mem \<Rightarrow> (pmm \<times> mem) res" where
  "paging_map kernel_pd virt phys p m =
     (let pde = entry_at kernel_pd (pd_index virt) in
      bindR
        (if load32 m pde AND PDE_PRESENT = 0 then
           (let (pt_phys, p) = pmm_alloc_frame p in
            if pt_phys = 0 then Inl (Panic ''paging_map: out of physical memory'')
            else Inr (p, store32 pde (pt_phys OR PDE_PRESENT OR PDE_WRITABLE) (zero_table pt_phys m)))
         else Inr (p, m))
        (\<lambda>(p, m). Inr (p, store32 (entry_at (table_of (load32 m pde)) (pt_index virt))
                          (table_of phys OR PTE_PRESENT OR PTE_WRITABLE) m)))"

definition paging_create_user_pd :: "u32 \<Rightarrow> pmm \<Rightarrow> mem \<Rightarrow> u32 \<times> pmm \<times> mem" where
  "paging_create_user_pd kernel_pd p m =
     (let (pd_phys, p) = pmm_alloc_frame p in
      if pd_phys = 0 then (0, p, m)
      else (pd_phys, p,
        fold (\<lambda>i m. store32 (entry_at pd_phys (of_nat i))
                      (if i < IDENTITY_PT_COUNT then load32 m (entry_at kernel_pd (of_nat i)) else 0) m)
          [0..<PD_ENTRIES] m))"

definition free_frames_of :: "mem \<Rightarrow> u32 \<Rightarrow> pmm \<Rightarrow> pmm" where
  "free_frames_of m pt p =
     fold (\<lambda>j p. if load32 m (entry_at pt (of_nat j)) AND PTE_PRESENT \<noteq> 0
                 then pmm_free_frame (table_of (load32 m (entry_at pt (of_nat j)))) p else p)
       [0..<PT_ENTRIES] p"

definition paging_free_pd :: "u32 \<Rightarrow> mem \<Rightarrow> pmm \<Rightarrow> pmm" where
  "paging_free_pd pd_phys m p =
     (if pd_phys = 0 then p
      else pmm_free_frame pd_phys
        (fold (\<lambda>i p. let e = load32 m (entry_at pd_phys (of_nat i)) in
                 if e AND PDE_PRESENT \<noteq> 0
                 then pmm_free_frame (table_of e) (free_frames_of m (table_of e) p) else p)
           [IDENTITY_PT_COUNT..<PD_ENTRIES] p))"

definition paging_map_into :: "u32 \<Rightarrow> u32 \<Rightarrow> u32 \<Rightarrow> u32 \<Rightarrow> pmm \<Rightarrow> mem \<Rightarrow> (pmm \<times> mem) res" where
  "paging_map_into pd_phys virt phys flags p m =
     (let pde = entry_at pd_phys (pd_index virt) in
      bindR
        (if load32 m pde AND PDE_PRESENT = 0 then
           (let (pt_phys, p) = pmm_alloc_frame p in
            if pt_phys = 0 then Inl (Panic ''paging_map_into: out of physical memory'')
            else
              (let m = zero_table pt_phys m;
                   pde_flags = PDE_PRESENT OR PDE_WRITABLE;
                   pde_flags = (if flags AND PTE_USER \<noteq> 0 then pde_flags OR PDE_USER else pde_flags)
               in Inr (p, store32 pde (pt_phys OR pde_flags) m)))
         else if flags AND PTE_USER \<noteq> 0 then Inr (p, store32 pde (load32 m pde OR PDE_USER) m)
         else Inr (p, m))
        (\<lambda>(p, m). Inr (p, store32 (entry_at (table_of (load32 m pde)) (pt_index virt)) (table_of phys OR flags) m)))"

definition copy_page :: "u32 \<Rightarrow> u32 \<Rightarrow> mem \<Rightarrow> mem" where
  "copy_page dst src m = fold (\<lambda>b m. m(dst + of_nat b := m (src + of_nat b))) [0..<4096] m"

text \<open>The two loops of \<open>paging_clone_user_space\<close>; False when a frame could not be allocated.\<close>

fun clone_ptes :: "u32 \<Rightarrow> u32 \<Rightarrow> nat \<Rightarrow> nat list \<Rightarrow> pmm \<Rightarrow> mem \<Rightarrow> (bool \<times> pmm \<times> mem) res" where
  "clone_ptes child_pd parent_pt pd_idx [] p m = Inr (True, p, m)"
| "clone_ptes child_pd parent_pt pd_idx (pt_idx # js) p m =
     (let e = load32 m (entry_at parent_pt (of_nat pt_idx)) in
      if e AND PTE_PRESENT = 0 then clone_ptes child_pd parent_pt pd_idx js p m
      else
        (let parent_frame = table_of e; flags = e AND 0xFFF; (child_frame, p) = pmm_alloc_frame p in
         if child_frame = 0 then Inr (False, paging_free_pd child_pd m p, m)
         else
           (let m = copy_page child_frame parent_frame m;
                virt = push_bit 22 (of_nat pd_idx) OR push_bit 12 (of_nat pt_idx)
            in bindR (paging_map_into child_pd virt child_frame flags p m)
                 (\<lambda>(p, m). clone_ptes child_pd parent_pt pd_idx js p m))))"

fun clone_pdes :: "u32 \<Rightarrow> u32 \<Rightarrow> nat list \<Rightarrow> pmm \<Rightarrow> mem \<Rightarrow> (bool \<times> pmm \<times> mem) res" where
  "clone_pdes child_pd parent_pd [] p m = Inr (True, p, m)"
| "clone_pdes child_pd parent_pd (pd_idx # is) p m =
     (let e = load32 m (entry_at parent_pd (of_nat pd_idx)) in
      if e AND PDE_PRESENT = 0 then clone_pdes child_pd parent_pd is p m
      else bindR (clone_ptes child_pd (table_of e) pd_idx [0..<PT_ENTRIES] p m)
        (\<lambda>(ok, p, m). if ok then clone_pdes child_pd parent_pd is p m else Inr (False, p, m)))"

definition paging_clone_user_space :: "u32 \<Rightarrow> u32 \<Rightarrow> pmm \<Rightarrow> mem \<Rightarrow> (u32 \<times> pmm \<times> mem) res" where
  "paging_clone_user_space kernel_pd parent_pd_phys p m =
     (let (child_pd_phys, p, m) = paging_create_user_pd kernel_pd p m in
      if child_pd_phys = 0 then Inr (0, p, m)
      else bindR (clone_pdes child_pd_phys parent_pd_phys [IDENTITY_PT_COUNT..<PD_ENTRIES] p m)
        (\<lambda>(ok, p, m). Inr (if ok then child_pd_phys else 0, p, m)))"

section \<open>Address translation\<close>

text \<open>
  What the processor does with a page directory: two table lookups. The result is the physical
  address with the writable and user permissions, each granted only if both entries grant it.
\<close>

record page_access =
  phys_addr :: u32
  can_write :: bool
  can_user :: bool

definition translate :: "mem \<Rightarrow> u32 \<Rightarrow> u32 \<Rightarrow> page_access option" where
  "translate m pd virt =
     (let pde = load32 m (entry_at pd (pd_index virt)) in
      if pde AND PDE_PRESENT = 0 then None
      else
        (let pte = load32 m (entry_at (table_of pde) (pt_index virt)) in
         if pte AND PTE_PRESENT = 0 then None
         else Some \<lparr>phys_addr = table_of pte OR (virt AND 0xFFF),
                    can_write = (pde AND PDE_WRITABLE \<noteq> 0 \<and> pte AND PTE_WRITABLE \<noteq> 0),
                    can_user = (pde AND PDE_USER \<noteq> 0 \<and> pte AND PTE_USER \<noteq> 0)\<rparr>))"

section \<open>Indices and entries\<close>

lemma low_mask: "(0xFFF :: u32) = mask 12" "(0x3FF :: u32) = mask 10"
  by (simp_all add: mask_eq_exp_minus_1)

lemma table_of_eq: "table_of e = push_bit 12 (drop_bit 12 e)"
  unfolding table_of_def low_mask by (rule bit_word_eqI) (auto simp: bit_simps)

lemma unat_table_of: "unat (table_of e) = unat e div 4096 * 4096"
proof -
  have "unat (table_of e) = unat (drop_bit 12 e) * 2 ^ 12 mod 2 ^ 32"
    unfolding table_of_eq push_bit_eq_mult by (simp add: unat_word_ariths)
  moreover have "unat (drop_bit 12 e) = unat e div 4096" by (simp add: drop_bit_eq_div unat_div)
  moreover have "unat e div 4096 * 4096 < 2 ^ 32" using unat_u32_less [of e] by linarith
  ultimately show ?thesis by simp
qed

lemma aligned_table_of [simp]: "aligned 4096 (table_of e)"
  by (simp add: aligned_def unat_table_of)

lemma table_of_aligned: "aligned 4096 a \<Longrightarrow> table_of a = a"
  by (simp add: word_unat_eq_iff unat_table_of aligned_def)

lemma unat_pd_index: "unat (pd_index v) = unat v div 2 ^ 22"
  by (simp add: pd_index_def drop_bit_eq_div unat_div)

lemma unat_pt_index: "unat (pt_index v) = unat v div 4096 mod 1024"
proof -
  have "pt_index v = take_bit 10 (drop_bit 12 v)" unfolding pt_index_def low_mask by (simp add: take_bit_eq_mask)
  then show ?thesis by (simp add: take_bit_eq_mod drop_bit_eq_div unat_div unat_mod)
qed

lemma index_bounds [simp]: "unat (pd_index v) < 1024" "unat (pt_index v) < 1024"
proof -
  have "unat v < 2 ^ 32" by (rule unat_u32_less)
  then show "unat (pd_index v) < 1024" unfolding unat_pd_index by simp
  show "unat (pt_index v) < 1024" unfolding unat_pt_index by simp
qed

text \<open>Two addresses lie in the same page if and only if both indices are equal.\<close>

lemma same_page_iff: "table_of v = table_of w \<longleftrightarrow> pd_index v = pd_index w \<and> pt_index v = pt_index w"
proof
  assume "table_of v = table_of w"
  then have e: "unat v div 4096 = unat w div 4096" unfolding word_unat_eq_iff unat_table_of by simp
  have "unat x div 2 ^ 22 = unat x div 4096 div 1024" for x :: u32 by (simp add: div_mult2_eq)
  then show "pd_index v = pd_index w \<and> pt_index v = pt_index w"
    unfolding word_unat_eq_iff unat_pd_index unat_pt_index using e by simp
next
  assume "pd_index v = pd_index w \<and> pt_index v = pt_index w"
  then have "unat v div 4096 div 1024 = unat w div 4096 div 1024" "unat v div 4096 mod 1024 = unat w div 4096 mod 1024"
    unfolding word_unat_eq_iff unat_pd_index unat_pt_index by (simp_all add: div_mult2_eq [symmetric])
  then have "unat v div 4096 = unat w div 4096" using div_mult_mod_eq by metis
  then show "table_of v = table_of w" unfolding word_unat_eq_iff unat_table_of by simp
qed

lemma unat_entry_at: "aligned 4096 t \<Longrightarrow> unat i < 1024 \<Longrightarrow> unat (entry_at t i) = unat t + 4 * unat i"
proof -
  assume t: "aligned 4096 t" and i: "unat i < 1024"
  obtain k where k: "unat t = 4096 * k" using t by (auto simp: aligned_def)
  have "unat t < 2 ^ 32" by (rule unat_u32_less)
  then have "unat t + 4096 \<le> 2 ^ 32" using k by simp
  moreover have "unat (4 * i) = 4 * unat i" using i by (simp add: unat_word_ariths)
  ultimately show ?thesis unfolding entry_at_def using i by (simp add: unat_add_nowrap)
qed

lemma entry_at_aligned: "aligned 4096 t \<Longrightarrow> unat i < 1024 \<Longrightarrow> aligned 4 (entry_at t i)"
proof -
  assume t: "aligned 4096 t" and i: "unat i < 1024"
  have "4 dvd unat t" using t unfolding aligned_def by (rule dvd_trans [rotated]) simp
  then show ?thesis using unat_entry_at [OF t i] by (simp add: aligned_def)
qed

lemma entry_at_eq_iff:
  assumes "aligned 4096 t" "aligned 4096 u" "unat i < 1024" "unat j < 1024"
  shows "entry_at t i = entry_at u j \<longleftrightarrow> t = u \<and> i = j"
proof
  assume e: "entry_at t i = entry_at u j"
  obtain k l where k: "unat t = 4096 * k" "unat u = 4096 * l" 
    using assms(1,2) unfolding aligned_def by (blast elim: dvdE)
  have "4096 * k + 4 * unat i = 4096 * l + 4 * unat j"
    using arg_cong [OF e, of unat] unat_entry_at assms k by simp
  moreover have "(4096 * a + 4 * b) div 4096 = a" if "b < 1024" for a b :: nat using that by simp
  ultimately have "k = l" using assms(3,4) by metis
  then have "unat i = unat j" using \<open>4096 * k + 4 * unat i = 4096 * l + 4 * unat j\<close> by simp
  then show "t = u \<and> i = j" using k \<open>k = l\<close> by (simp add: word_unat_eq_iff)
qed simp

lemma load_entry_store:
  assumes "aligned 4096 t" "aligned 4096 u" "unat i < 1024" "unat j < 1024"
  shows "load32 (store32 (entry_at t i) v m) (entry_at u j) = (if t = u \<and> i = j then v else load32 m (entry_at u j))"
  using entry_at_eq_iff [OF assms] entry_at_aligned assms by (auto simp: load32_store32_other)

lemma aligned_low_bits: "aligned 4096 t \<Longrightarrow> n < 12 \<Longrightarrow> \<not> bit t n"
proof -
  assume t: "aligned 4096 t" and n: "n < 12"
  have "bit t n = bit (push_bit 12 (drop_bit 12 t)) n" using table_of_aligned [OF t] table_of_eq [of t] by simp
  then show ?thesis using n by (simp add: bit_simps)
qed

lemma table_of_or: "aligned 4096 t \<Longrightarrow> f AND 0xFFF = f \<Longrightarrow> table_of (t OR f) = t"
proof (rule bit_word_eqI)
  fix n assume t: "aligned 4096 t" and f: "f AND 0xFFF = f" and n: "n < LENGTH(32)"
  have "bit f n \<Longrightarrow> n < 12" using f unfolding low_mask by (metis bit_and_iff bit_mask_iff)
  then show "bit (table_of (t OR f)) n = bit t n"
    unfolding table_of_eq using aligned_low_bits [OF t, of n] n by (cases "n < 12") (auto simp: bit_simps not_less)
qed

lemma and_flag: "aligned 4096 t \<Longrightarrow> b AND 0xFFF = b \<Longrightarrow> (t OR f) AND b = f AND b"
proof (rule bit_word_eqI)
  fix n assume t: "aligned 4096 t" and b: "b AND 0xFFF = b" and n: "n < LENGTH(32)"
  have "bit b n \<Longrightarrow> n < 12" using b unfolding low_mask by (metis bit_and_iff bit_mask_iff)
  then show "bit ((t OR f) AND b) n = bit (f AND b) n"
    using aligned_low_bits [OF t, of n] n by (auto simp: bit_simps)
qed

lemma low_flags [simp]: "PTE_PRESENT AND 0xFFF = PTE_PRESENT" "PTE_WRITABLE AND 0xFFF = PTE_WRITABLE" "PTE_USER AND 0xFFF = PTE_USER"
  "PDE_PRESENT AND 0xFFF = PDE_PRESENT" "PDE_WRITABLE AND 0xFFF = PDE_WRITABLE" "PDE_USER AND 0xFFF = PDE_USER"
  by (simp_all add: PTE_PRESENT_def PTE_WRITABLE_def PTE_USER_def PDE_PRESENT_def PDE_WRITABLE_def PDE_USER_def)

text \<open>Filling a table entry by entry.\<close>

lemma unat_of_nat_1024: "i < 1024 \<Longrightarrow> unat (of_nat i :: u32) = i"
  by (simp add: unat_of_nat_u32)

lemma fill_table:
  assumes t: "aligned 4096 t" and u: "aligned 4096 u" "unat j < 1024" and n: "n \<le> 1024"
  shows "load32 (fold (\<lambda>i. store32 (entry_at t (of_nat i)) (g i)) [0..<n] m) (entry_at u j) =
    (if u = t \<and> unat j < n then g (unat j) else load32 m (entry_at u j))"
  using n
proof (induction n)
  case (Suc n)
  have n: "unat (of_nat n :: u32) = n" using Suc.prems by (simp add: unat_of_nat_1024)
  have "t = u \<and> of_nat n = j \<longleftrightarrow> u = t \<and> unat j = n" using n by auto
  then show ?case using Suc load_entry_store [OF t u(1) _ u(2), of "of_nat n"] n by (auto simp: less_Suc_eq)
qed simp

definition page_bytes :: "u32 \<Rightarrow> nat set" where
  "page_bytes t = {unat t..<unat t + 4096}"

lemma page_bytes_frame: "aligned 4096 t \<Longrightarrow> x \<in> page_bytes t \<longleftrightarrow> x div 4096 = unat t div 4096"
proof -
  assume "aligned 4096 t"
  then obtain k where "unat t = 4096 * k" by (auto simp: aligned_def elim: dvdE)
  moreover have "x div 4096 = k \<longleftrightarrow> 4096 * k \<le> x \<and> x < 4096 * k + 4096" for k
    using div_nat_eqI [of 4096 k x] times_div_less_eq_dividend [of 4096 x] dividend_less_times_div [of 4096 x] by auto
  ultimately show ?thesis by (simp add: page_bytes_def)
qed

lemma entry_in_page: "aligned 4096 t \<Longrightarrow> unat i < 1024 \<Longrightarrow> {unat (entry_at t i)..<unat (entry_at t i) + 4} \<subseteq> page_bytes t"
  by (auto simp: unat_entry_at page_bytes_def)

lemma agree_store_entry:
  assumes "aligned 4096 t" "unat i < 1024" "X \<inter> page_bytes t = {}"
  shows "agree X (store32 (entry_at t i) v m) m"
  using entry_in_page [OF assms(1,2)] assms by (intro agree_store32 entry_at_aligned) auto

lemma agree_fill_table:
  assumes "aligned 4096 t" "n \<le> 1024" "X \<inter> page_bytes t = {}"
  shows "agree X (fold (\<lambda>i m. store32 (entry_at t (of_nat i)) (g i m) m) [0..<n] m) m"
  using assms(2)
proof (induction n)
  case (Suc n)
  have "unat (of_nat n :: u32) < 1024" using Suc.prems by (simp add: unat_of_nat_1024)
  then show ?case
    using agree_trans [OF agree_store_entry [OF assms(1) _ assms(3)]] Suc by simp
qed simp

text \<open>Different pages do not overlap.\<close>

lemma page_bytes_disjoint: "aligned 4096 t \<Longrightarrow> aligned 4096 u \<Longrightarrow> t \<noteq> u \<Longrightarrow> page_bytes t \<inter> page_bytes u = {}"
proof -
  assume a: "aligned 4096 t" "aligned 4096 u" "t \<noteq> u"
  then obtain k l where k: "unat t = 4096 * k" "unat u = 4096 * l" unfolding aligned_def by (blast elim: dvdE)
  have "k \<noteq> l" using k a(3) by (auto simp: word_unat_eq_iff)
  then have "unat t + 4096 \<le> unat u \<or> unat u + 4096 \<le> unat t" using k by linarith
  then show ?thesis by (auto simp: page_bytes_def)
qed

lemma frame_eq_iff: "aligned 4096 t \<Longrightarrow> aligned 4096 u \<Longrightarrow> unat t div 4096 = unat u div 4096 \<longleftrightarrow> t = u"
  unfolding aligned_def word_unat_eq_iff by (metis dvd_div_mult_self)

lemma agree_entry: "agree X m m' \<Longrightarrow> aligned 4096 t \<Longrightarrow> unat i < 1024 \<Longrightarrow> page_bytes t \<subseteq> X \<Longrightarrow>
  load32 m (entry_at t i) = load32 m' (entry_at t i)"
  using entry_in_page [of t i] by (meson agree_load32 entry_at_aligned order_trans)

section \<open>Well-formed page directories\<close>

definition pde :: "mem \<Rightarrow> u32 \<Rightarrow> nat \<Rightarrow> u32" where "pde m pd i = load32 m (entry_at pd (of_nat i))"

definition present :: "u32 \<Rightarrow> bool" where "present e \<longleftrightarrow> e AND PDE_PRESENT \<noteq> 0"

definition pd_tables :: "mem \<Rightarrow> u32 \<Rightarrow> u32 set" where
  "pd_tables m pd = (\<lambda>i. table_of (pde m pd i)) ` {i. i < 1024 \<and> present (pde m pd i)}"

text \<open>The frames of a directory and its tables.\<close>

definition pd_pages :: "mem \<Rightarrow> u32 \<Rightarrow> u32 set" where "pd_pages m pd = insert pd (pd_tables m pd)"

text \<open>No table is the directory itself, and no two entries share a table.\<close>

definition wf_pd :: "mem \<Rightarrow> u32 \<Rightarrow> bool" where
  "wf_pd m pd \<longleftrightarrow> aligned 4096 pd \<and> pd \<notin> pd_tables m pd \<and>
     inj_on (\<lambda>i. table_of (pde m pd i)) {i. i < 1024 \<and> present (pde m pd i)}"

definition owned :: "u32 set \<Rightarrow> pmm \<Rightarrow> bool" where
  "owned P p \<longleftrightarrow> (\<forall>t \<in> P. unat t div 4096 \<notin> free_set p)"

lemma pde_index: "load32 m (entry_at pd (pd_index w)) = pde m pd (unat (pd_index w))"
  by (simp add: pde_def)

lemma PTE_PDE: "PTE_PRESENT = PDE_PRESENT" "PTE_USER = PDE_USER" "PTE_WRITABLE = PDE_WRITABLE"
  by (simp_all add: PTE_PRESENT_def PTE_USER_def PTE_WRITABLE_def PDE_PRESENT_def PDE_USER_def PDE_WRITABLE_def)

lemma translate_alt:
  "translate m pd w =
     (let e = pde m pd (unat (pd_index w)); f = load32 m (entry_at (table_of e) (pt_index w)) in
      if present e \<and> present f
      then Some \<lparr>phys_addr = table_of f OR (w AND 0xFFF),
                 can_write = (e AND PDE_WRITABLE \<noteq> 0 \<and> f AND PTE_WRITABLE \<noteq> 0),
                 can_user = (e AND PDE_USER \<noteq> 0 \<and> f AND PTE_USER \<noteq> 0)\<rparr>
      else None)"
  by (simp add: translate_def pde_index present_def PTE_PDE Let_def)

lemma table_in_tables: "present (pde m pd (unat (pd_index w))) \<Longrightarrow> table_of (pde m pd (unat (pd_index w))) \<in> pd_tables m pd"
  by (auto simp: pd_tables_def)

lemma wf_pd_other:
  assumes "wf_pd m pd" "present (pde m pd (unat (pd_index v)))" "present (pde m pd (unat (pd_index w)))" "pd_index v \<noteq> pd_index w"
  shows "table_of (pde m pd (unat (pd_index v))) \<noteq> table_of (pde m pd (unat (pd_index w)))"
  using assms unfolding wf_pd_def inj_on_def by (auto simp: word_unat_eq_iff)

text \<open>Writing one entry of the table that maps \<open>virt\<close>.\<close>

lemma translate_set_pte:
  assumes wf: "wf_pd m pd" and e: "e = pde m pd (unat (pd_index virt))" "present e"
  shows "translate (store32 (entry_at (table_of e) (pt_index virt)) v m) pd w =
    (if table_of w = table_of virt then
       (if present v then Some \<lparr>phys_addr = table_of v OR (w AND 0xFFF),
          can_write = (e AND PDE_WRITABLE \<noteq> 0 \<and> v AND PTE_WRITABLE \<noteq> 0),
          can_user = (e AND PDE_USER \<noteq> 0 \<and> v AND PTE_USER \<noteq> 0)\<rparr> else None)
     else translate m pd w)"
proof -
  let ?m = "store32 (entry_at (table_of e) (pt_index virt)) v m"
  have pd: "aligned 4096 pd" using wf by (simp add: wf_pd_def)
  have ne: "table_of e \<noteq> pd" using wf e table_in_tables [of m pd virt] by (auto simp: wf_pd_def)
  have d: "pde ?m pd (unat (pd_index u)) = pde m pd (unat (pd_index u))" for u
    using load_entry_store [of "table_of e" pd "pt_index virt" "pd_index u" v m] pd ne by (simp add: pde_index [symmetric])
  show ?thesis
  proof (cases "pd_index w = pd_index virt")
    case True
    have "load32 ?m (entry_at (table_of e) (pt_index w)) =
      (if pt_index w = pt_index virt then v else load32 m (entry_at (table_of e) (pt_index w)))"
      using load_entry_store [of "table_of e" "table_of e" "pt_index virt" "pt_index w" v m] by auto
    then show ?thesis using True e d [of w] by (auto simp: translate_alt same_page_iff Let_def)
  next
    case False
    have "load32 ?m (entry_at (table_of f) (pt_index w)) = load32 m (entry_at (table_of f) (pt_index w))"
      if "f = pde m pd (unat (pd_index w))" "present f" for f
      using wf_pd_other [OF wf, of virt w] that e False
        load_entry_store [of "table_of e" "table_of f" "pt_index virt" "pt_index w" v m] by auto
    then show ?thesis using False d [of w] by (auto simp: translate_alt same_page_iff Let_def)
  qed
qed

text \<open>Writes outside the pages of a directory do not change its translation.\<close>

lemma pd_agree:
  assumes "agree (\<Union> (page_bytes ` pd_pages m pd)) m' m" "aligned 4096 pd"
  shows "i < 1024 \<Longrightarrow> pde m' pd i = pde m pd i" "translate m' pd = translate m pd" "pd_tables m' pd = pd_tables m pd"
    "wf_pd m' pd = wf_pd m pd"
proof -
  have p: "pde m' pd i = pde m pd i" if "i < 1024" for i
    unfolding pde_def using assms that
    by (intro agree_entry [where X = "\<Union> (page_bytes ` pd_pages m pd)"]) (auto simp: pd_pages_def unat_of_nat_1024)
  then show "i < 1024 \<Longrightarrow> pde m' pd i = pde m pd i" .
  have s: "{i. i < 1024 \<and> present (pde m' pd i)} = {i. i < 1024 \<and> present (pde m pd i)}" using p by auto
  have "translate m' pd w = translate m pd w" for w
  proof -
    have "load32 m' (entry_at (table_of e) (pt_index w)) = load32 m (entry_at (table_of e) (pt_index w))"
      if "e = pde m pd (unat (pd_index w))" "present e" for e
      using assms(1) that table_in_tables [of m pd w]
      by (intro agree_entry [where X = "\<Union> (page_bytes ` pd_pages m pd)"]) (auto simp: pd_pages_def)
    then show ?thesis using p [of "unat (pd_index w)"] by (auto simp: translate_alt Let_def)
  qed
  then show "translate m' pd = translate m pd" by blast
  show t: "pd_tables m' pd = pd_tables m pd" unfolding pd_tables_def s using p by (intro image_cong) auto
  have "inj_on (\<lambda>i. table_of (pde m' pd i)) {i. i < 1024 \<and> present (pde m' pd i)} =
    inj_on (\<lambda>i. table_of (pde m pd i)) {i. i < 1024 \<and> present (pde m pd i)}"
    unfolding s using p by (intro inj_on_cong) auto
  then show "wf_pd m' pd = wf_pd m pd" unfolding wf_pd_def t by simp
qed

lemma zero_table_load:
  "aligned 4096 t \<Longrightarrow> aligned 4096 u \<Longrightarrow> unat j < 1024 \<Longrightarrow>
   load32 (zero_table t m) (entry_at u j) = (if u = t then 0 else load32 m (entry_at u j))"
  unfolding zero_table_def PT_ENTRIES_def using fill_table [of t u j 1024 "\<lambda>_. 0" m] by simp

lemma agree_zero_table: "aligned 4096 t \<Longrightarrow> X \<inter> page_bytes t = {} \<Longrightarrow> agree X (zero_table t m) m"
  unfolding zero_table_def PT_ENTRIES_def using agree_fill_table [of t 1024 X "\<lambda>_ _. 0" m] by simp

text \<open>A new table for an address whose entry is not present.\<close>

lemma new_table:
  assumes wf: "wf_pd m pd" and np: "\<not> present (pde m pd (unat (pd_index virt)))"
    and t: "aligned 4096 t" "t \<notin> pd_pages m pd" and fl: "fl AND 0xFFF = fl" "present fl"
  defines "m' \<equiv> store32 (entry_at pd (pd_index virt)) (t OR fl) (zero_table t m)"
  shows "i < 1024 \<Longrightarrow> pde m' pd i = (if i = unat (pd_index virt) then t OR fl else pde m pd i)"
    and "pd_tables m' pd = insert t (pd_tables m pd)" and "wf_pd m' pd" and "translate m' pd = translate m pd"
    and "X \<inter> (page_bytes pd \<union> page_bytes t) = {} \<Longrightarrow> agree X m' m"
proof -
  let ?i = "unat (pd_index virt)"
  have pd: "aligned 4096 pd" and tpd: "t \<noteq> pd" using wf t by (auto simp: wf_pd_def pd_pages_def)
  have p: "pde m' pd i = (if i = ?i then t OR fl else pde m pd i)" if i: "i < 1024" for i
  proof -
    have u: "unat (of_nat i :: u32) = i" using i by (rule unat_of_nat_1024)
    have "pde m' pd i = (if pd_index virt = of_nat i then t OR fl else load32 (zero_table t m) (entry_at pd (of_nat i)))"
      unfolding pde_def m'_def using load_entry_store [OF pd pd, of "pd_index virt" "of_nat i"] u i by simp
    moreover have "load32 (zero_table t m) (entry_at pd (of_nat i)) = pde m pd i"
      unfolding pde_def using zero_table_load [OF t(1) pd, of "of_nat i" m] u i tpd by auto
    moreover have "pd_index virt = of_nat i \<longleftrightarrow> i = ?i" using u by auto
    ultimately show ?thesis by simp
  qed
  then show "i < 1024 \<Longrightarrow> pde m' pd i = (if i = ?i then t OR fl else pde m pd i)" .
  have pr: "present (t OR fl)" "table_of (t OR fl) = t"
    using fl t by (simp_all add: present_def and_flag table_of_or)
  have s: "{i. i < 1024 \<and> present (pde m' pd i)} = insert ?i {i. i < 1024 \<and> present (pde m pd i)}"
    using p pr np index_bounds(1) [of virt] by auto
  have im: "(\<lambda>i. table_of (pde m' pd i)) ` {i. i < 1024 \<and> present (pde m pd i)} = pd_tables m pd"
    unfolding pd_tables_def using p np by (intro image_cong) auto
  have ti: "table_of (pde m' pd ?i) = t" using p [of ?i] pr by simp
  show tb: "pd_tables m' pd = insert t (pd_tables m pd)" unfolding pd_tables_def [of m'] s using im ti by simp
  have "inj_on (\<lambda>i. table_of (pde m' pd i)) {i. i < 1024 \<and> present (pde m pd i)} =
    inj_on (\<lambda>i. table_of (pde m pd i)) {i. i < 1024 \<and> present (pde m pd i)}"
    using p np by (intro inj_on_cong) auto
  then have "inj_on (\<lambda>i. table_of (pde m' pd i)) {i. i < 1024 \<and> present (pde m' pd i)}"
    unfolding s inj_on_insert ti using wf t(2) im by (auto simp: wf_pd_def pd_pages_def pd_tables_def)
  then show "wf_pd m' pd" using wf t(2) tpd tb by (auto simp: wf_pd_def pd_pages_def)
  show "translate m' pd = translate m pd"
  proof
    fix w
    have l: "load32 m' (entry_at (table_of f) (pt_index w)) = (if table_of f = t then 0 else load32 m (entry_at (table_of f) (pt_index w)))"
      if "table_of f \<noteq> pd" for f
      unfolding m'_def using load_entry_store [OF pd, of "table_of f" "pd_index virt" "pt_index w"] that
        zero_table_load [OF t(1), of "table_of f" "pt_index w" m] by simp
    show "translate m' pd w = translate m pd w"
    proof (cases "pd_index w = pd_index virt")
      case True
      have "load32 m' (entry_at t (pt_index w)) = 0" using l [of "t OR fl"] pr tpd by simp
      then show ?thesis using True p [of "unat (pd_index w)"] pr np by (simp add: translate_alt Let_def present_def)
    next
      case False
      then have "pde m' pd (unat (pd_index w)) = pde m pd (unat (pd_index w))" using p by (simp add: word_unat_eq_iff)
      moreover have "table_of f \<noteq> pd" "table_of f \<noteq> t" if "f = pde m pd (unat (pd_index w))" "present f" for f
        using wf t(2) that table_in_tables [of m pd w] by (auto simp: wf_pd_def pd_pages_def)
      ultimately show ?thesis using l by (auto simp: translate_alt Let_def)
    qed
  qed
  show "agree X m' m" if X: "X \<inter> (page_bytes pd \<union> page_bytes t) = {}"
    unfolding m'_def
    by (rule agree_trans [OF agree_store_entry [OF pd] agree_zero_table [OF t(1)]]) (use X in auto)
qed

lemma table_of_or_low: "f AND 0xFFF = f \<Longrightarrow> table_of (e OR f) = table_of e"
proof (rule bit_word_eqI)
  fix n assume f: "f AND 0xFFF = f" and n: "n < LENGTH(32)"
  have "bit f n \<Longrightarrow> n < 12" using f unfolding low_mask by (metis bit_and_iff bit_mask_iff)
  then show "bit (table_of (e OR f)) n = bit (table_of e) n"
    unfolding table_of_eq using n by (cases "n < 12") (auto simp: bit_simps not_less)
qed

lemma or_user_flags: "(e OR PDE_USER) AND PDE_PRESENT = e AND PDE_PRESENT" "(e OR PDE_USER) AND PDE_WRITABLE = e AND PDE_WRITABLE"
  "(e OR PDE_USER) AND PDE_USER = PDE_USER"
proof -
  have d: "(e OR f) AND g = (e AND g) OR (f AND g)" for f g :: u32 by (rule bit_word_eqI) (auto simp: bit_simps)
  show "(e OR PDE_USER) AND PDE_PRESENT = e AND PDE_PRESENT" "(e OR PDE_USER) AND PDE_WRITABLE = e AND PDE_WRITABLE"
    by (simp_all add: d PDE_USER_def PDE_PRESENT_def PDE_WRITABLE_def)
  show "(e OR PDE_USER) AND PDE_USER = PDE_USER" by (rule bit_word_eqI) (auto simp: bit_simps)
qed

text \<open>Setting the user bit of a present entry.\<close>

lemma set_pde_user:
  assumes wf: "wf_pd m pd" and e: "e = pde m pd (unat (pd_index virt))" "present e"
  defines "m' \<equiv> store32 (entry_at pd (pd_index virt)) (e OR PDE_USER) m"
  shows "i < 1024 \<Longrightarrow> pde m' pd i = (if i = unat (pd_index virt) then e OR PDE_USER else pde m pd i)"
    and "pd_tables m' pd = pd_tables m pd" and "wf_pd m' pd"
    and "map_option (can_user_update (\<lambda>_. False)) (translate m' pd w) = map_option (can_user_update (\<lambda>_. False)) (translate m pd w)"
    and "pd_index w \<noteq> pd_index virt \<Longrightarrow> translate m' pd w = translate m pd w"
    and "X \<inter> page_bytes pd = {} \<Longrightarrow> agree X m' m"
proof -
  let ?i = "unat (pd_index virt)"
  have pd: "aligned 4096 pd" using wf by (auto simp: wf_pd_def)
  have p: "pde m' pd i = (if i = ?i then e OR PDE_USER else pde m pd i)" if i: "i < 1024" for i
  proof -
    have u: "unat (of_nat i :: u32) = i" using i by (rule unat_of_nat_1024)
    moreover have "pd_index virt = of_nat i \<longleftrightarrow> i = ?i" using u by auto
    ultimately show ?thesis
      unfolding pde_def m'_def using load_entry_store [OF pd pd, of "pd_index virt" "of_nat i"] i by simp
  qed
  then show "i < 1024 \<Longrightarrow> pde m' pd i = (if i = ?i then e OR PDE_USER else pde m pd i)" .
  have pt: "present (pde m' pd i) = present (pde m pd i)" "table_of (pde m' pd i) = table_of (pde m pd i)" if "i < 1024" for i
    using p [OF that] e by (simp_all add: present_def or_user_flags table_of_or_low)
  have s: "{i. i < 1024 \<and> present (pde m' pd i)} = {i. i < 1024 \<and> present (pde m pd i)}" using pt by auto
  show tb: "pd_tables m' pd = pd_tables m pd" unfolding pd_tables_def s using pt by (intro image_cong) auto
  have "inj_on (\<lambda>i. table_of (pde m' pd i)) {i. i < 1024 \<and> present (pde m' pd i)} =
    inj_on (\<lambda>i. table_of (pde m pd i)) {i. i < 1024 \<and> present (pde m pd i)}"
    unfolding s using pt by (intro inj_on_cong) auto
  then show "wf_pd m' pd" using wf tb by (auto simp: wf_pd_def)
  have l: "load32 m' (entry_at (table_of f) (pt_index w)) = load32 m (entry_at (table_of f) (pt_index w))"
    if "f = pde m pd (unat (pd_index w))" "present f" for w f
    unfolding m'_def using load_entry_store [OF pd, of "table_of f" "pd_index virt" "pt_index w"]
      wf that table_in_tables [of m pd w] by (auto simp: wf_pd_def)
  have wr: "pde m' pd (unat (pd_index w)) AND PDE_WRITABLE = pde m pd (unat (pd_index w)) AND PDE_WRITABLE" for w
    using p [of "unat (pd_index w)"] e by (simp add: or_user_flags)
  show "map_option (can_user_update (\<lambda>_. False)) (translate m' pd w) = map_option (can_user_update (\<lambda>_. False)) (translate m pd w)"
    using pt [of "unat (pd_index w)"] l [of "pde m pd (unat (pd_index w))" w] wr [of w]
    by (auto simp: translate_alt Let_def)
  show "translate m' pd w = translate m pd w" if "pd_index w \<noteq> pd_index virt"
  proof -
    have "pde m' pd (unat (pd_index w)) = pde m pd (unat (pd_index w))" using that p by (simp add: word_unat_eq_iff)
    then show ?thesis using l [of "pde m pd (unat (pd_index w))" w] by (auto simp: translate_alt Let_def)
  qed
  show "agree X m' m" if "X \<inter> page_bytes pd = {}"
    unfolding m'_def using that by (intro agree_store_entry pd) auto
qed

text \<open>The first half of \<open>paging_map_into\<close>: afterwards the table of \<open>virt\<close> is present.\<close>

definition table_for :: "u32 \<Rightarrow> u32 \<Rightarrow> u32 \<Rightarrow> pmm \<Rightarrow> mem \<Rightarrow> (pmm \<times> mem) res" where
  "table_for pd virt flags p m =
     (let e = pde m pd (unat (pd_index virt)) in
      if \<not> present e then
        (let (t, p) = pmm_alloc_frame p in
         if t = 0 then Inl (Panic ''paging_map_into: out of physical memory'')
         else Inr (p, store32 (entry_at pd (pd_index virt))
           (t OR (if flags AND PTE_USER \<noteq> 0 then PDE_PRESENT OR PDE_WRITABLE OR PDE_USER else PDE_PRESENT OR PDE_WRITABLE))
           (zero_table t m)))
      else if flags AND PTE_USER \<noteq> 0 then Inr (p, store32 (entry_at pd (pd_index virt)) (e OR PDE_USER) m)
      else Inr (p, m))"

lemma paging_map_into_alt:
  "paging_map_into pd virt phys flags p m =
     bindR (table_for pd virt flags p m) (\<lambda>(p, m).
       Inr (p, store32 (entry_at (table_of (pde m pd (unat (pd_index virt)))) (pt_index virt)) (table_of phys OR flags) m))"
  by (simp add: paging_map_into_def table_for_def pde_index present_def Let_def or.assoc split: prod.splits)

lemma table_for_spec:
  assumes wf: "wf_pd m pd" and own: "owned (pd_pages m pd) p" and inv: "pmm_inv p"
    and room: "present (pde m pd (unat (pd_index virt))) \<or> free_set p \<noteq> {}"
  shows "\<exists>p' m' t. table_for pd virt flags p m = Inr (p', m') \<and> pmm_inv p' \<and> wf_pd m' pd \<and>
    present (pde m' pd (unat (pd_index virt))) \<and> table_of (pde m' pd (unat (pd_index virt))) = t \<and>
    pd_tables m' pd = insert t (pd_tables m pd) \<and> free_set p' = free_set p - {unat t div 4096} \<and> owned (pd_pages m' pd) p' \<and>
    (if present (pde m pd (unat (pd_index virt))) then t = table_of (pde m pd (unat (pd_index virt))) \<and> p' = p
     else unat t div 4096 \<in> free_set p) \<and>
    (flags AND PTE_USER \<noteq> 0 \<longrightarrow> pde m' pd (unat (pd_index virt)) AND PDE_USER \<noteq> 0) \<and>
    (pde m' pd (unat (pd_index virt)) AND PDE_WRITABLE \<noteq> 0 \<longleftrightarrow>
       \<not> present (pde m pd (unat (pd_index virt))) \<or> pde m pd (unat (pd_index virt)) AND PDE_WRITABLE \<noteq> 0) \<and>
    (\<forall>w. map_option (can_user_update (\<lambda>_. False)) (translate m' pd w) =
      map_option (can_user_update (\<lambda>_. False)) (translate m pd w)) \<and>
    (\<forall>w. pd_index w \<noteq> pd_index virt \<longrightarrow> translate m' pd w = translate m pd w) \<and>
    (\<forall>X. X \<inter> (page_bytes pd \<union> page_bytes t) = {} \<longrightarrow> agree X m' m) \<and>
    (\<forall>i. i < 1024 \<and> i \<noteq> unat (pd_index virt) \<longrightarrow> pde m' pd i = pde m pd i)"
proof (cases "present (pde m pd (unat (pd_index virt)))")
  case True
  let ?e = "pde m pd (unat (pd_index virt))"
  have tin: "insert (table_of ?e) (pd_tables m pd) = pd_tables m pd" using table_in_tables [OF True] by blast
  have fr: "free_set p - {unat (table_of ?e) div 4096} = free_set p"
    using own table_in_tables [OF True] by (auto simp: owned_def pd_pages_def)
  show ?thesis
  proof (cases "flags AND PTE_USER \<noteq> 0")
    case u: True
    let ?m = "store32 (entry_at pd (pd_index virt)) (?e OR PDE_USER) m"
    note s = set_pde_user [OF wf refl True]
    have pe: "pde ?m pd (unat (pd_index virt)) = ?e OR PDE_USER" using s(1) [of "unat (pd_index virt)"] by simp
    have "table_for pd virt flags p m = Inr (p, ?m)" using True u by (simp add: table_for_def Let_def)
    moreover have "present (?e OR PDE_USER)" "table_of (?e OR PDE_USER) = table_of ?e" "(?e OR PDE_USER) AND PDE_USER \<noteq> 0"
      "(?e OR PDE_USER) AND PDE_WRITABLE \<noteq> 0 \<longleftrightarrow> ?e AND PDE_WRITABLE \<noteq> 0"
      using True by (simp_all add: present_def or_user_flags table_of_or_low) (simp add: PDE_USER_def)
    moreover have "owned (pd_pages ?m pd) p" using own s(2) by (simp add: pd_pages_def)
    moreover have "X \<inter> (page_bytes pd \<union> page_bytes (table_of ?e)) = {} \<longrightarrow> agree X ?m m" for X using s(6) [of X] by blast
    ultimately show ?thesis using True inv fr tin pe s(1,2,3,4,5) by (intro exI [of _ p] exI [of _ ?m] exI [of _ "table_of ?e"]) simp
  next
    case False
    have "table_for pd virt flags p m = Inr (p, m)" using True False by (simp add: table_for_def Let_def)
    then show ?thesis using True False inv fr tin wf own by (intro exI [of _ p] exI [of _ m] exI [of _ "table_of ?e"]) simp
  qed
next
  case False
  let ?e = "pde m pd (unat (pd_index virt))"
  obtain t p' where a: "pmm_alloc_frame p = (t, p')" "t \<noteq> 0" using pmm.alloc_succeeds [OF inv] room False by auto
  have t: "aligned 4096 t" "unat t div 4096 \<in> free_set p" "free_set p' = free_set p - {unat t div 4096}" "pmm_inv p'"
    using pmm.alloc_some [OF inv a] by auto
  have tn: "t \<notin> pd_pages m pd" using own t(2) by (auto simp: owned_def)
  define fl where "fl = (if flags AND PTE_USER \<noteq> 0 then PDE_PRESENT OR PDE_WRITABLE OR PDE_USER else PDE_PRESENT OR PDE_WRITABLE)"
  have fl: "fl AND 0xFFF = fl" "present fl" "flags AND PTE_USER \<noteq> 0 \<longrightarrow> fl AND PDE_USER \<noteq> 0" "fl AND PDE_WRITABLE \<noteq> 0"
    by (simp_all add: fl_def present_def PDE_PRESENT_def PDE_WRITABLE_def PDE_USER_def)
  define m' where "m' = store32 (entry_at pd (pd_index virt)) (t OR fl) (zero_table t m)"
  note n = new_table [OF wf False t(1) tn fl(1,2), folded m'_def]
  have pe: "pde m' pd (unat (pd_index virt)) = t OR fl" using n(1) [of "unat (pd_index virt)"] by simp
  have "table_for pd virt flags p m = Inr (p', m')" using False a by (simp add: table_for_def Let_def m'_def fl_def)
  moreover have "present (t OR fl)" "table_of (t OR fl) = t" "flags AND PTE_USER \<noteq> 0 \<longrightarrow> (t OR fl) AND PDE_USER \<noteq> 0"
    "(t OR fl) AND PDE_WRITABLE \<noteq> 0" using fl t(1) by (simp_all add: present_def and_flag table_of_or)
  moreover have "owned (pd_pages m' pd) p'" using own n(2) t(3) by (auto simp: pd_pages_def owned_def)
  ultimately show ?thesis using False t n pe by (intro exI [of _ p'] exI [of _ m'] exI [of _ t]) simp
qed

lemma pte_store_pd:
  assumes wf: "wf_pd m pd" and t: "aligned 4096 t" "t \<noteq> pd" "unat j < 1024"
  shows "i < 1024 \<Longrightarrow> pde (store32 (entry_at t j) v m) pd i = pde m pd i"
    and "pd_tables (store32 (entry_at t j) v m) pd = pd_tables m pd"
    and "wf_pd (store32 (entry_at t j) v m) pd"
proof -
  let ?m = "store32 (entry_at t j) v m"
  have pd: "aligned 4096 pd" using wf by (simp add: wf_pd_def)
  have p: "pde ?m pd i = pde m pd i" if "i < 1024" for i
    unfolding pde_def using load_entry_store [OF t(1) pd t(3), of "of_nat i"] that t(2) by (simp add: unat_of_nat_1024)
  then show "i < 1024 \<Longrightarrow> pde ?m pd i = pde m pd i" .
  have s: "{i. i < 1024 \<and> present (pde ?m pd i)} = {i. i < 1024 \<and> present (pde m pd i)}" using p by auto
  show tb: "pd_tables ?m pd = pd_tables m pd" unfolding pd_tables_def s using p by (intro image_cong) auto
  have "inj_on (\<lambda>i. table_of (pde ?m pd i)) {i. i < 1024 \<and> present (pde ?m pd i)} =
    inj_on (\<lambda>i. table_of (pde m pd i)) {i. i < 1024 \<and> present (pde m pd i)}"
    unfolding s using p by (intro inj_on_cong) auto
  then show "wf_pd ?m pd" using wf tb by (auto simp: wf_pd_def)
qed

text \<open>All effects of \<open>paging_map_into\<close>, with \<open>t\<close> the table that is written.\<close>

lemma paging_map_into_spec:
  assumes wf: "wf_pd m pd" and own: "owned (pd_pages m pd) p" and inv: "pmm_inv p"
    and room: "present (pde m pd (unat (pd_index virt))) \<or> free_set p \<noteq> {}"
    and fl: "flags AND 0xFFF = flags" "present flags"
  shows "\<exists>p' m' t. paging_map_into pd virt phys flags p m = Inr (p', m') \<and> pmm_inv p' \<and> wf_pd m' pd \<and>
    pd_tables m' pd = insert t (pd_tables m pd) \<and> free_set p' = free_set p - {unat t div 4096} \<and> owned (pd_pages m' pd) p' \<and>
    (if present (pde m pd (unat (pd_index virt))) then t = table_of (pde m pd (unat (pd_index virt))) \<and> p' = p
     else unat t div 4096 \<in> free_set p) \<and>
    (\<forall>w. table_of w = table_of virt \<longrightarrow> translate m' pd w = Some \<lparr>phys_addr = table_of phys OR (w AND 0xFFF),
      can_write = (flags AND PTE_WRITABLE \<noteq> 0 \<and> (present (pde m pd (unat (pd_index virt))) \<longrightarrow>
        pde m pd (unat (pd_index virt)) AND PDE_WRITABLE \<noteq> 0)),
      can_user = (flags AND PTE_USER \<noteq> 0)\<rparr>) \<and>
    (\<forall>w. table_of w \<noteq> table_of virt \<longrightarrow> map_option (can_user_update (\<lambda>_. False)) (translate m' pd w) =
      map_option (can_user_update (\<lambda>_. False)) (translate m pd w)) \<and>
    (\<forall>w. pd_index w \<noteq> pd_index virt \<longrightarrow> translate m' pd w = translate m pd w) \<and>
    (\<forall>X. X \<inter> (page_bytes pd \<union> page_bytes t) = {} \<longrightarrow> agree X m' m) \<and>
    (\<forall>i. i < 1024 \<and> i \<noteq> unat (pd_index virt) \<longrightarrow> pde m' pd i = pde m pd i) \<and>
    present (pde m' pd (unat (pd_index virt))) \<and> table_of (pde m' pd (unat (pd_index virt))) = t"
proof -
  let ?i = "unat (pd_index virt)"
  obtain p' m1 t where g: "table_for pd virt flags p m = Inr (p', m1)" "pmm_inv p'" "wf_pd m1 pd"
    "present (pde m1 pd ?i)" "table_of (pde m1 pd ?i) = t"
    "pd_tables m1 pd = insert t (pd_tables m pd)" "free_set p' = free_set p - {unat t div 4096}" "owned (pd_pages m1 pd) p'"
    "if present (pde m pd ?i) then t = table_of (pde m pd ?i) \<and> p' = p else unat t div 4096 \<in> free_set p"
    "flags AND PTE_USER \<noteq> 0 \<longrightarrow> pde m1 pd ?i AND PDE_USER \<noteq> 0"
    "pde m1 pd ?i AND PDE_WRITABLE \<noteq> 0 \<longleftrightarrow> \<not> present (pde m pd ?i) \<or> pde m pd ?i AND PDE_WRITABLE \<noteq> 0"
    "\<forall>w. map_option (can_user_update (\<lambda>_. False)) (translate m1 pd w) = map_option (can_user_update (\<lambda>_. False)) (translate m pd w)"
    "\<forall>w. pd_index w \<noteq> pd_index virt \<longrightarrow> translate m1 pd w = translate m pd w"
    "\<forall>X. X \<inter> (page_bytes pd \<union> page_bytes t) = {} \<longrightarrow> agree X m1 m"
    "\<forall>i. i < 1024 \<and> i \<noteq> ?i \<longrightarrow> pde m1 pd i = pde m pd i"
    using table_for_spec [OF wf own inv room, of flags] by (elim exE conjE) (rule that)
  define v where "v = table_of phys OR flags"
  define m' where "m' = store32 (entry_at t (pt_index virt)) v m1"
  have e: "paging_map_into pd virt phys flags p m = Inr (p', m')"
    using g(1,5) by (simp add: paging_map_into_alt m'_def v_def)
  have v: "present v" "table_of v = table_of phys" "v AND PTE_WRITABLE = flags AND PTE_WRITABLE" "v AND PTE_USER = flags AND PTE_USER"
    using fl by (simp_all add: v_def present_def and_flag table_of_or)
  have t: "aligned 4096 t" using g(5) by auto
  have tpd: "t \<noteq> pd" using g(3,6) by (auto simp: wf_pd_def)
  note s = pte_store_pd [where m = m1 and pd = pd and t = t and j = "pt_index virt" and v = v, OF g(3) t tpd index_bounds(2), folded m'_def]
  have tr: "translate m' pd w = (if table_of w = table_of virt then
       Some \<lparr>phys_addr = table_of phys OR (w AND 0xFFF),
          can_write = (pde m1 pd ?i AND PDE_WRITABLE \<noteq> 0 \<and> flags AND PTE_WRITABLE \<noteq> 0),
          can_user = (pde m1 pd ?i AND PDE_USER \<noteq> 0 \<and> flags AND PTE_USER \<noteq> 0)\<rparr>
     else translate m1 pd w)" for w
    using translate_set_pte [OF g(3) refl g(4), of v w] v g(5) by (simp add: m'_def)
  have same: "table_of w = table_of virt \<Longrightarrow> pd_index w = pd_index virt" for w by (simp add: same_page_iff)
  have ag: "agree X m' m" if X: "X \<inter> (page_bytes pd \<union> page_bytes t) = {}" for X
  proof -
    have "agree X m' m1" unfolding m'_def using X by (intro agree_store_entry t) auto
    from agree_trans [OF this g(14) [rule_format, OF X]] show ?thesis .
  qed
  have own': "owned (pd_pages m' pd) p'" using g(8) s(2) by (simp add: pd_pages_def)
  have pi: "present (pde m' pd ?i)" "table_of (pde m' pd ?i) = t" using g(4,5) s(1) by simp_all
  have hit: "translate m' pd w = Some \<lparr>phys_addr = table_of phys OR (w AND 0xFFF),
      can_write = (flags AND PTE_WRITABLE \<noteq> 0 \<and> (present (pde m pd ?i) \<longrightarrow> pde m pd ?i AND PDE_WRITABLE \<noteq> 0)),
      can_user = (flags AND PTE_USER \<noteq> 0)\<rparr>" if "table_of w = table_of virt" for w
    using tr [of w] that g(10,11) by auto
  have miss: "map_option (can_user_update (\<lambda>_. False)) (translate m' pd w) =
      map_option (can_user_update (\<lambda>_. False)) (translate m pd w)" if "table_of w \<noteq> table_of virt" for w
    using tr [of w] that g(12) by simp
  have far: "translate m' pd w = translate m pd w" if "pd_index w \<noteq> pd_index virt" for w
  proof -
    have "table_of w \<noteq> table_of virt" using that same by blast
    then show ?thesis using tr [of w] that g(13) by simp
  qed
  have tb: "pd_tables m' pd = insert t (pd_tables m pd)" using s(2) g(6) by simp
  have pd': "pde m' pd i = pde m pd i" if "i < 1024" "i \<noteq> ?i" for i using s(1) g(15) that by simp
  show ?thesis
    by (intro exI [of _ p'] exI [of _ m'] exI [of _ t] conjI e g(2) s(3) tb g(7) own' g(9) allI impI hit miss far ag pi) (use pd' in auto)
qed

section \<open>Creation and release\<close>

lemma paging_create_user_pd_spec:
  assumes inv: "pmm_inv p" and k: "aligned 4096 kpd" "unat kpd div 4096 \<notin> free_set p" and room: "free_set p \<noteq> {}"
  shows "\<exists>pd p' m'. paging_create_user_pd kpd p m = (pd, p', m') \<and> pd \<noteq> 0 \<and> aligned 4096 pd \<and> unat pd div 4096 \<in> free_set p \<and>
    free_set p' = free_set p - {unat pd div 4096} \<and> pmm_inv p' \<and>
    (\<forall>i < 1024. pde m' pd i = (if i < 8 then pde m kpd i else 0)) \<and>
    (\<forall>X. X \<inter> page_bytes pd = {} \<longrightarrow> agree X m' m)"
proof -
  obtain pd p' where a: "pmm_alloc_frame p = (pd, p')" "pd \<noteq> 0" using pmm.alloc_succeeds [OF inv room] by auto
  have t: "aligned 4096 pd" "unat pd div 4096 \<in> free_set p" "free_set p' = free_set p - {unat pd div 4096}" "pmm_inv p'"
    using pmm.alloc_some [OF inv a] by auto
  have ne: "kpd \<noteq> pd" using k(2) t(2) by auto
  let ?f = "\<lambda>i m. store32 (entry_at pd (of_nat i)) (if i < IDENTITY_PT_COUNT then load32 m (entry_at kpd (of_nat i)) else 0) m"
  let ?g = "\<lambda>i. if i < 8 then pde m kpd i else 0"
  have eq: "fold ?f [0..<n] m = fold (\<lambda>i. store32 (entry_at pd (of_nat i)) (?g i)) [0..<n] m" if "n \<le> 1024" for n
    using that
  proof (induction n)
    case (Suc n)
    have "load32 (fold (\<lambda>i. store32 (entry_at pd (of_nat i)) (?g i)) [0..<n] m) (entry_at kpd (of_nat n)) = pde m kpd n"
      using fill_table [OF t(1) k(1), of "of_nat n" n ?g m] Suc.prems ne by (simp add: unat_of_nat_1024 pde_def)
    then show ?case using Suc by (simp add: IDENTITY_PT_COUNT_def)
  qed simp
  let ?m = "fold ?f [0..<PD_ENTRIES] m"
  have m: "?m = fold (\<lambda>i. store32 (entry_at pd (of_nat i)) (?g i)) [0..<1024] m" using eq [of 1024] by (simp add: PD_ENTRIES_def)
  have "paging_create_user_pd kpd p m = (pd, p', ?m)" using a by (simp add: paging_create_user_pd_def)
  moreover have "\<forall>i < 1024. pde ?m pd i = ?g i"
    unfolding m pde_def [of _ pd] using fill_table [OF t(1) t(1), of _ 1024 ?g m] by (simp add: unat_of_nat_1024)
  moreover have "agree X ?m m" if "X \<inter> page_bytes pd = {}" for X
    using agree_fill_table [OF t(1) _ that, of 1024 "\<lambda>i m. if i < IDENTITY_PT_COUNT then load32 m (entry_at kpd (of_nat i)) else 0" m]
    by (simp add: PD_ENTRIES_def)
  ultimately show ?thesis using a t by blast
qed

lemma created_pd:
  assumes k: "wf_pd m kpd" and pd: "aligned 4096 pd" "pd \<notin> pd_pages m kpd"
    and c: "\<forall>i < 1024. pde m' pd i = (if i < 8 then pde m kpd i else 0)" "\<And>X. X \<inter> page_bytes pd = {} \<Longrightarrow> agree X m' m"
  shows "wf_pd m' pd" "pd_tables m' pd \<subseteq> pd_tables m kpd"
    "translate m' pd w = (if unat (pd_index w) < 8 then translate m kpd w else None)"
proof -
  have np: "\<not> present 0" by (simp add: present_def)
  have s: "{i. i < 1024 \<and> present (pde m' pd i)} = {i. i < 8 \<and> present (pde m kpd i)}"
    using c(1) np by (auto split: if_splits)
  show tb: "pd_tables m' pd \<subseteq> pd_tables m kpd"
    unfolding pd_tables_def s using c(1) by auto
  have "inj_on (\<lambda>i. table_of (pde m kpd i)) {i. i < 8 \<and> present (pde m kpd i)}"
    using k unfolding wf_pd_def by (elim conjE inj_on_subset) auto
  moreover have "inj_on (\<lambda>i. table_of (pde m' pd i)) {i. i < 8 \<and> present (pde m kpd i)} =
    inj_on (\<lambda>i. table_of (pde m kpd i)) {i. i < 8 \<and> present (pde m kpd i)}"
    using c(1) by (intro inj_on_cong) auto
  ultimately show "wf_pd m' pd" unfolding wf_pd_def s using pd tb by (auto simp: pd_pages_def)
  show "translate m' pd w = (if unat (pd_index w) < 8 then translate m kpd w else None)"
  proof (cases "unat (pd_index w) < 8")
    case True
    then have e: "pde m' pd (unat (pd_index w)) = pde m kpd (unat (pd_index w))" using c(1) by simp
    have "load32 m' (entry_at (table_of f) (pt_index w)) = load32 m (entry_at (table_of f) (pt_index w))"
      if "f = pde m kpd (unat (pd_index w))" "present f" for f
    proof -
      have "table_of f \<noteq> pd" using that pd(2) table_in_tables [of m kpd w] by (auto simp: pd_pages_def)
      then have "page_bytes (table_of f) \<inter> page_bytes pd = {}" using pd(1) by (intro page_bytes_disjoint) auto
      then show ?thesis using agree_entry [OF c(2) [of "page_bytes (table_of f)"], of "table_of f"] by simp
    qed
    then show ?thesis using True e by (auto simp: translate_alt Let_def)
  next
    case False
    then have "pde m' pd (unat (pd_index w)) = 0" using c(1) by simp
    then show ?thesis using False np by (simp add: translate_alt Let_def)
  qed
qed

text \<open>The frames a directory holds: its own, those of its user tables, and those its user pages map to.\<close>

definition user_tables :: "mem \<Rightarrow> u32 \<Rightarrow> u32 set" where
  "user_tables m pd = (\<lambda>i. table_of (pde m pd i)) ` {i. 8 \<le> i \<and> i < 1024 \<and> present (pde m pd i)}"

definition user_pages :: "mem \<Rightarrow> u32 \<Rightarrow> nat set" where
  "user_pages m pd = {unat (phys_addr a) div 4096 |a w. 8 \<le> unat (pd_index w) \<and> translate m pd w = Some a}"

definition pd_frames :: "mem \<Rightarrow> u32 \<Rightarrow> nat set" where
  "pd_frames m pd = insert (unat pd div 4096) ((\<lambda>t. unat t div 4096) ` user_tables m pd \<union> user_pages m pd)"

lemma index_surj: "i < 1024 \<Longrightarrow> j < 1024 \<Longrightarrow> \<exists>w. unat (pd_index w) = i \<and> unat (pt_index w) = j"
proof -
  assume i: "i < 1024" and j: "j < 1024"
  let ?n = "i * 2 ^ 22 + j * 4096"
  have "?n < 2 ^ 32" using i j by simp
  then have u: "unat (of_nat ?n :: u32) = ?n" by (rule unat_of_nat_u32)
  have "?n div 2 ^ 22 = i" "?n div 4096 mod 1024 = j" using j by simp_all
  then show ?thesis using u unat_pd_index [of "of_nat ?n"] unat_pt_index [of "of_nat ?n"] by metis
qed

lemma frame_of_or_low: "aligned 4096 t \<Longrightarrow> unat (t OR (w AND 0xFFF)) div 4096 = unat t div 4096"
proof -
  assume t: "aligned 4096 t"
  have "table_of (t OR (w AND 0xFFF)) = t" using t by (intro table_of_or) (simp_all add: ac_simps)
  then have "unat (t OR (w AND 0xFFF)) div 4096 * 4096 = unat t" using unat_table_of by metis
  then show ?thesis by (metis nonzero_mult_div_cancel_right zero_neq_numeral)
qed

definition pt_frames :: "mem \<Rightarrow> u32 \<Rightarrow> nat set" where
  "pt_frames m pt = (\<lambda>j. unat (table_of (load32 m (entry_at pt (of_nat j)))) div 4096) `
     {j. j < 1024 \<and> present (load32 m (entry_at pt (of_nat j)))}"

lemma user_pages_alt:
  "user_pages m pd = (\<Union>i \<in> {i. 8 \<le> i \<and> i < 1024 \<and> present (pde m pd i)}. pt_frames m (table_of (pde m pd i)))" (is "_ = ?R")
proof
  show "user_pages m pd \<subseteq> ?R"
  proof
    fix x assume "x \<in> user_pages m pd"
    then obtain a w where aw: "8 \<le> unat (pd_index w)" "translate m pd w = Some a" "x = unat (phys_addr a) div 4096"
      by (auto simp: user_pages_def)
    let ?f = "load32 m (entry_at (table_of (pde m pd (unat (pd_index w)))) (of_nat (unat (pt_index w))))"
    have f: "present (pde m pd (unat (pd_index w)))" "present ?f" "phys_addr a = table_of ?f OR (w AND 0xFFF)"
      using aw(2) by (auto simp: translate_alt Let_def split: if_splits)
    have "x = unat (table_of ?f) div 4096" using aw(3) f(3) frame_of_or_low by simp
    then have "x \<in> pt_frames m (table_of (pde m pd (unat (pd_index w))))"
      unfolding pt_frames_def using f(2) by (intro image_eqI [where x = "unat (pt_index w)"]) auto
    then show "x \<in> ?R" using aw(1) f(1) by auto
  qed
  show "?R \<subseteq> user_pages m pd"
  proof
    fix x assume "x \<in> ?R"
    then obtain i j where f: "8 \<le> i" "i < 1024" "j < 1024" "present (pde m pd i)"
      "present (load32 m (entry_at (table_of (pde m pd i)) (of_nat j)))"
      "x = unat (table_of (load32 m (entry_at (table_of (pde m pd i)) (of_nat j)))) div 4096" by (auto simp: pt_frames_def)
    obtain w where w: "unat (pd_index w) = i" "unat (pt_index w) = j" using index_surj [OF f(2,3)] by blast
    have "of_nat j = pt_index w" using w(2) by (metis of_nat_unat ucast_id)
    then have "\<exists>a. translate m pd w = Some a \<and>
        phys_addr a = table_of (load32 m (entry_at (table_of (pde m pd i)) (of_nat j))) OR (w AND 0xFFF)"
      using f w by (simp add: translate_alt Let_def)
    then obtain a where a: "translate m pd w = Some a"
      "phys_addr a = table_of (load32 m (entry_at (table_of (pde m pd i)) (of_nat j))) OR (w AND 0xFFF)" by blast
    have "x = unat (phys_addr a) div 4096" using f(6) a(2) frame_of_or_low by simp
    then show "x \<in> user_pages m pd" using f(1) w(1) a(1) unfolding user_pages_def by blast
  qed
qed

lemma fold_releases:
  assumes "\<And>i p. i \<in> set xs \<Longrightarrow> pmm_inv p \<Longrightarrow> free_set (f i p) = A i \<union> free_set p \<and> pmm_inv (f i p)" "pmm_inv p"
  shows "free_set (fold f xs p) = (\<Union>i \<in> set xs. A i) \<union> free_set p \<and> pmm_inv (fold f xs p)"
  using assms by (induction xs arbitrary: p) (fastforce)+

lemma free_frames_of_spec:
  assumes inv: "pmm_inv p" and ok: "pt_frames m pt \<subseteq> {1..<32768}"
  shows "free_set (free_frames_of m pt p) = pt_frames m pt \<union> free_set p" "pmm_inv (free_frames_of m pt p)"
proof -
  let ?e = "\<lambda>j. load32 m (entry_at pt (of_nat j))"
  let ?A = "\<lambda>j. if present (?e j) then {unat (table_of (?e j)) div 4096} else {}"
  have "free_set (free_frames_of m pt p) = (\<Union>j \<in> set [0..<PT_ENTRIES]. ?A j) \<union> free_set p \<and> pmm_inv (free_frames_of m pt p)"
    unfolding free_frames_of_def
  proof (rule fold_releases [OF _ inv])
    fix j p assume j: "j \<in> set [0..<PT_ENTRIES]" and p: "pmm_inv p"
    have "present (?e j) \<Longrightarrow> unat (table_of (?e j)) div 4096 \<in> pt_frames m pt" using j by (auto simp: pt_frames_def PT_ENTRIES_def)
    then have "present (?e j) \<Longrightarrow> 0 < unat (table_of (?e j)) div 4096 \<and> unat (table_of (?e j)) div 4096 < 32768" using ok by auto
    then show "free_set (if ?e j AND PTE_PRESENT \<noteq> 0 then pmm_free_frame (table_of (?e j)) p else p) = ?A j \<union> free_set p \<and>
      pmm_inv (if ?e j AND PTE_PRESENT \<noteq> 0 then pmm_free_frame (table_of (?e j)) p else p)"
      using pmm.release_frame [OF p, of "table_of (?e j)"] p by (simp add: present_def PTE_PDE)
  qed
  moreover have "(\<Union>j \<in> set [0..<PT_ENTRIES]. ?A j) = pt_frames m pt" by (auto simp: pt_frames_def PT_ENTRIES_def split: if_splits)
  ultimately show "free_set (free_frames_of m pt p) = pt_frames m pt \<union> free_set p" "pmm_inv (free_frames_of m pt p)" by simp_all
qed

lemma paging_free_pd_spec:
  assumes inv: "pmm_inv p" and pd: "pd \<noteq> 0" and ok: "pd_frames m pd \<subseteq> {1..<32768}"
  shows "free_set (paging_free_pd pd m p) = pd_frames m pd \<union> free_set p" "pmm_inv (paging_free_pd pd m p)"
proof -
  let ?e = "\<lambda>i. pde m pd i"
  let ?A = "\<lambda>i. if present (?e i) then insert (unat (table_of (?e i)) div 4096) (pt_frames m (table_of (?e i))) else {}"
  let ?f = "\<lambda>i p. let e = load32 m (entry_at pd (of_nat i)) in
    if e AND PDE_PRESENT \<noteq> 0 then pmm_free_frame (table_of e) (free_frames_of m (table_of e) p) else p"
  have B: "pt_frames m (table_of (?e i)) \<subseteq> pd_frames m pd" if "8 \<le> i" "i < 1024" "present (?e i)" for i
    unfolding pd_frames_def user_pages_alt using that by blast
  have T: "unat (table_of (?e i)) div 4096 \<in> pd_frames m pd" if "8 \<le> i" "i < 1024" "present (?e i)" for i
    using that by (auto simp: pd_frames_def user_tables_def)
  have st: "set [IDENTITY_PT_COUNT..<PD_ENTRIES] = {8..<1024}" by (simp only: set_upt IDENTITY_PT_COUNT_def PD_ENTRIES_def)
  have "free_set (fold ?f [IDENTITY_PT_COUNT..<PD_ENTRIES] p) = (\<Union>i \<in> set [IDENTITY_PT_COUNT..<PD_ENTRIES]. ?A i) \<union> free_set p \<and>
    pmm_inv (fold ?f [IDENTITY_PT_COUNT..<PD_ENTRIES] p)"
  proof (rule fold_releases [OF _ inv])
    fix i p assume "i \<in> set [IDENTITY_PT_COUNT..<PD_ENTRIES]" and p: "pmm_inv p"
    then have i: "8 \<le> i" "i < 1024" unfolding st by simp_all
    show "free_set (?f i p) = ?A i \<union> free_set p \<and> pmm_inv (?f i p)"
    proof (cases "present (?e i)")
      case True
      note f = free_frames_of_spec [OF p subset_trans [OF B [OF i True] ok]]
      have "0 < unat (table_of (?e i)) div 4096 \<and> unat (table_of (?e i)) div 4096 < 32768" using T [OF i True] ok by auto
      then show ?thesis using True f pmm.release_frame [OF f(2), of "table_of (?e i)"]
        by (simp add: pde_def [symmetric] present_def Let_def)
    qed (simp add: pde_def [symmetric] present_def Let_def p)
  qed
  moreover have "(\<Union>i \<in> set [IDENTITY_PT_COUNT..<PD_ENTRIES]. ?A i) = (\<lambda>t. unat t div 4096) ` user_tables m pd \<union> user_pages m pd"
    unfolding st user_pages_alt user_tables_def by auto
  ultimately have u: "free_set (fold ?f [IDENTITY_PT_COUNT..<PD_ENTRIES] p) =
      ((\<lambda>t. unat t div 4096) ` user_tables m pd \<union> user_pages m pd) \<union> free_set p"
    "pmm_inv (fold ?f [IDENTITY_PT_COUNT..<PD_ENTRIES] p)" by simp_all
  have e: "paging_free_pd pd m p = pmm_free_frame pd (fold ?f [IDENTITY_PT_COUNT..<PD_ENTRIES] p)"
    using pd by (simp add: paging_free_pd_def)
  have "0 < unat pd div 4096 \<and> unat pd div 4096 < 32768" using ok by (auto simp: pd_frames_def)
  then show "free_set (paging_free_pd pd m p) = pd_frames m pd \<union> free_set p" "pmm_inv (paging_free_pd pd m p)"
    unfolding e using pmm.release_frame [OF u(2), of pd] u(1) by (simp_all add: pd_frames_def)
qed

text \<open>Mapping a page of the user half adds the frame and, if it is new, the table to what the directory holds.\<close>

lemma unat_table_div [simp]: "unat (table_of e) div 4096 = unat e div 4096"
  by (simp add: unat_table_of)

lemma translate_same_page: "table_of w = table_of v \<Longrightarrow> translate m pd w = None \<longleftrightarrow> translate m pd v = None"
  by (simp add: same_page_iff translate_alt Let_def)

lemma user_pagesI: "8 \<le> unat (pd_index w) \<Longrightarrow> translate m pd w = Some a \<Longrightarrow> unat (phys_addr a) div 4096 \<in> user_pages m pd"
  unfolding user_pages_def by blast

lemma user_pages_insert:
  assumes hit: "\<And>w. table_of w = table_of virt \<Longrightarrow> \<exists>a. translate m' pd w = Some a \<and> phys_addr a = table_of phys OR (w AND 0xFFF)"
    and miss: "\<And>w. table_of w \<noteq> table_of virt \<Longrightarrow> map_option phys_addr (translate m' pd w) = map_option phys_addr (translate m pd w)"
    and new: "translate m pd virt = None" and user: "8 \<le> unat (pd_index virt)"
  shows "user_pages m' pd = insert (unat phys div 4096) (user_pages m pd)"
proof
  show "user_pages m' pd \<subseteq> insert (unat phys div 4096) (user_pages m pd)"
  proof
    fix x assume "x \<in> user_pages m' pd"
    then obtain a w where aw: "8 \<le> unat (pd_index w)" "translate m' pd w = Some a" "x = unat (phys_addr a) div 4096"
      by (auto simp: user_pages_def)
    show "x \<in> insert (unat phys div 4096) (user_pages m pd)"
    proof (cases "table_of w = table_of virt")
      case True
      then show ?thesis using hit [OF True] aw frame_of_or_low [of "table_of phys" w] by auto
    next
      case False
      then obtain b where "translate m pd w = Some b" "phys_addr b = phys_addr a" using miss [OF False] aw(2)
        by (cases "translate m pd w") auto
      then show ?thesis using aw user_pagesI [OF aw(1), of m pd b] by simp
    qed
  qed
  have "unat phys div 4096 \<in> user_pages m' pd"
  proof -
    obtain a where "translate m' pd virt = Some a" "phys_addr a = table_of phys OR (virt AND 0xFFF)" using hit by blast
    then show ?thesis using user_pagesI [OF user, of m' pd a] frame_of_or_low [of "table_of phys" virt] by simp
  qed
  moreover have "user_pages m pd \<subseteq> user_pages m' pd"
  proof
    fix x assume "x \<in> user_pages m pd"
    then obtain a w where aw: "8 \<le> unat (pd_index w)" "translate m pd w = Some a" "x = unat (phys_addr a) div 4096"
      by (auto simp: user_pages_def)
    have "table_of w \<noteq> table_of virt" using aw(2) new translate_same_page [of w virt m pd] by auto
    then obtain b where "translate m' pd w = Some b" "phys_addr b = phys_addr a" using miss [of w] aw(2) by (cases "translate m' pd w") auto
    then show "x \<in> user_pages m' pd" using aw user_pagesI [OF aw(1), of m' pd b] by simp
  qed
  ultimately show "insert (unat phys div 4096) (user_pages m pd) \<subseteq> user_pages m' pd" by blast
qed

lemma user_tables_insert:
  assumes "\<And>i. i < 1024 \<Longrightarrow> i \<noteq> k \<Longrightarrow> pde m' pd i = pde m pd i" "present (pde m' pd k)" "table_of (pde m' pd k) = t"
    "present (pde m pd k) \<Longrightarrow> table_of (pde m pd k) = t" "8 \<le> k" "k < 1024"
  shows "user_tables m' pd = insert t (user_tables m pd)"
proof -
  let ?S = "\<lambda>m. {i. 8 \<le> i \<and> i < 1024 \<and> present (pde m pd i)}"
  let ?T = "\<lambda>m. (\<lambda>i. table_of (pde m pd i)) ` (?S m - {k})"
  have e: "?T m' = ?T m" using assms(1) by (intro image_cong) auto
  have "user_tables m' pd = insert t (?T m')"
    unfolding user_tables_def using assms(2,3,5,6) by (auto simp: image_iff)
  moreover have "insert t (user_tables m pd) = insert t (?T m)"
    unfolding user_tables_def using assms(4) by (auto simp: image_iff)
  ultimately show ?thesis using e by simp
qed

lemma map_into_frames:
  assumes wf: "wf_pd m pd" and own: "owned (pd_pages m pd) p" and inv: "pmm_inv p"
    and room: "present (pde m pd (unat (pd_index virt))) \<or> free_set p \<noteq> {}"
    and fl: "flags AND 0xFFF = flags" "present flags"
    and user: "8 \<le> unat (pd_index virt)" and new: "translate m pd virt = None"
  shows "\<exists>p' m' t. paging_map_into pd virt phys flags p m = Inr (p', m') \<and> pmm_inv p' \<and> wf_pd m' pd \<and> owned (pd_pages m' pd) p' \<and>
    free_set p' = free_set p - {t} \<and> t \<in> free_set p \<union> pd_frames m pd \<and>
    pd_frames m' pd = insert (unat phys div 4096) (insert t (pd_frames m pd))"
proof -
  let ?i = "unat (pd_index virt)"
  obtain p' m' t where g: "paging_map_into pd virt phys flags p m = Inr (p', m')" "pmm_inv p'" "wf_pd m' pd"
    "free_set p' = free_set p - {unat t div 4096}" "owned (pd_pages m' pd) p'"
    "if present (pde m pd ?i) then t = table_of (pde m pd ?i) \<and> p' = p else unat t div 4096 \<in> free_set p"
    and hit: "\<forall>w. table_of w = table_of virt \<longrightarrow> translate m' pd w = Some \<lparr>phys_addr = table_of phys OR (w AND 0xFFF),
      can_write = (flags AND PTE_WRITABLE \<noteq> 0 \<and> (present (pde m pd ?i) \<longrightarrow> pde m pd ?i AND PDE_WRITABLE \<noteq> 0)),
      can_user = (flags AND PTE_USER \<noteq> 0)\<rparr>"
    and miss: "\<forall>w. table_of w \<noteq> table_of virt \<longrightarrow> map_option (can_user_update (\<lambda>_. False)) (translate m' pd w) =
      map_option (can_user_update (\<lambda>_. False)) (translate m pd w)"
    and pdes: "\<forall>i. i < 1024 \<and> i \<noteq> ?i \<longrightarrow> pde m' pd i = pde m pd i" "present (pde m' pd ?i)" "table_of (pde m' pd ?i) = t"
    using paging_map_into_spec [OF wf own inv room fl, of phys] by (elim exE conjE) (rule that)
  have ph: "map_option phys_addr (translate m' pd w) = map_option phys_addr (translate m pd w)" if "table_of w \<noteq> table_of virt" for w
  proof -
    have "map_option phys_addr (map_option (can_user_update (\<lambda>_. False)) (translate m' pd w)) =
      map_option phys_addr (map_option (can_user_update (\<lambda>_. False)) (translate m pd w))" using miss that by simp
    then show ?thesis by (simp add: option.map_comp o_def)
  qed
  have up: "user_pages m' pd = insert (unat phys div 4096) (user_pages m pd)"
    using hit ph new user by (intro user_pages_insert) auto
  have ut: "user_tables m' pd = insert t (user_tables m pd)"
    by (rule user_tables_insert [where k = ?i]) (use pdes g(6) user in auto)
  have "unat t div 4096 \<in> free_set p \<union> pd_frames m pd"
  proof (cases "present (pde m pd ?i)")
    case True
    then have "t \<in> user_tables m pd" using g(6) user unfolding user_tables_def by auto
    then show ?thesis by (auto simp: pd_frames_def)
  qed (use g(6) in simp)
  moreover have "pd_frames m' pd = insert (unat phys div 4096) (insert (unat t div 4096) (pd_frames m pd))"
    unfolding pd_frames_def up ut by auto
  ultimately show ?thesis using g(1-5) by blast
qed

section \<open>The identity mapping\<close>

definition identity_layout :: "u32 \<Rightarrow> u32 \<Rightarrow> bool" where
  "identity_layout kpd ipts \<longleftrightarrow> aligned 4096 kpd \<and> aligned 4096 ipts \<and> unat ipts + 8 * 4096 \<le> 2 ^ 32 \<and>
     (\<forall>t < 8. kpd \<noteq> identity_pt ipts t)"

lemma unat_identity_pt: "identity_layout kpd ipts \<Longrightarrow> t < 8 \<Longrightarrow> unat (identity_pt ipts t) = unat ipts + t * 4096"
proof -
  assume L: "identity_layout kpd ipts" and t: "t < 8"
  have u: "unat (of_nat (t * 4096) :: u32) = t * 4096" using t by (intro unat_of_nat_u32) simp
  have "unat ipts + t * 4096 < 2 ^ 32" using L t by (simp add: identity_layout_def)
  then show ?thesis unfolding identity_pt_def using unat_add_nowrap [of ipts "of_nat (t * 4096)"] u by (simp only:)
qed

lemma identity_pt_aligned: "identity_layout kpd ipts \<Longrightarrow> t < 8 \<Longrightarrow> aligned 4096 (identity_pt ipts t)"
  using unat_identity_pt [of kpd ipts t] by (simp add: identity_layout_def aligned_def)

lemma identity_pt_inj: "identity_layout kpd ipts \<Longrightarrow> t < 8 \<Longrightarrow> s < 8 \<Longrightarrow> identity_pt ipts t = identity_pt ipts s \<longleftrightarrow> t = s"
  using unat_identity_pt [of kpd ipts t] unat_identity_pt [of kpd ipts s] by (auto simp: word_unat_eq_iff)

definition identity_pte :: "nat \<Rightarrow> nat \<Rightarrow> u32" where
  "identity_pte t i = (of_nat t * of_nat PT_ENTRIES * PAGE_SIZE + of_nat i * PAGE_SIZE) OR PTE_PRESENT OR PTE_WRITABLE"

lemma identity_table_load:
  assumes "identity_layout kpd ipts" "t < 8" "aligned 4096 u" "unat j < 1024"
  shows "load32 (identity_table ipts t m) (entry_at u j) =
    (if u = identity_pt ipts t then identity_pte t (unat j) else load32 m (entry_at u j))"
  unfolding identity_table_def PT_ENTRIES_def
  using fill_table [OF identity_pt_aligned [OF assms(1,2)] assms(3,4), of 1024 "identity_pte t" m] assms(4)
  by (simp add: identity_pte_def PT_ENTRIES_def)

definition identity_upto :: "u32 \<Rightarrow> u32 \<Rightarrow> nat \<Rightarrow> mem \<Rightarrow> mem" where
  "identity_upto kpd ipts n m = fold (\<lambda>t m. store32 (entry_at kpd (of_nat t)) (identity_pt ipts t OR PDE_PRESENT OR PDE_WRITABLE)
                   (identity_table ipts t m)) [0..<n] m"

lemma identity_upto_Suc:
  "identity_upto kpd ipts (Suc n) m =
   store32 (entry_at kpd (of_nat n)) (identity_pt ipts n OR PDE_PRESENT OR PDE_WRITABLE) (identity_table ipts n (identity_upto kpd ipts n m))"
  by (simp add: identity_upto_def)

lemma identity_upto_pde:
  assumes L: "identity_layout kpd ipts" and i: "i < 1024"
  shows "n \<le> 8 \<Longrightarrow> pde (identity_upto kpd ipts n m) kpd i =
    (if i < n then identity_pt ipts i OR PDE_PRESENT OR PDE_WRITABLE else pde m kpd i)"
proof (induction n)
  case (Suc n)
  have k: "aligned 4096 kpd" using L by (simp add: identity_layout_def)
  have n: "n < 8" "unat (of_nat n :: u32) = n" using Suc.prems by (simp_all add: unat_of_nat_1024)
  have kn: "kpd \<noteq> identity_pt ipts n" using L n(1) by (simp add: identity_layout_def)
  have u: "unat (of_nat i :: u32) = i" using i by (rule unat_of_nat_1024)
  have ni: "of_nat n = (of_nat i :: u32) \<longleftrightarrow> i = n" using u n(2) by metis
  have "pde (identity_upto kpd ipts (Suc n) m) kpd i =
    (if i = n then identity_pt ipts n OR PDE_PRESENT OR PDE_WRITABLE else pde (identity_upto kpd ipts n m) kpd i)"
    unfolding pde_def identity_upto_Suc
    using load_entry_store [OF k k, of "of_nat n" "of_nat i"] identity_table_load [OF L n(1) k, of "of_nat i"] u n i ni kn by simp
  then show ?case using Suc by simp
qed (simp add: identity_upto_def)

lemma identity_upto_pte:
  assumes L: "identity_layout kpd ipts" and j: "unat j < 1024"
  shows "n \<le> 8 \<Longrightarrow> t < n \<Longrightarrow> load32 (identity_upto kpd ipts n m) (entry_at (identity_pt ipts t) j) = identity_pte t (unat j)"
proof (induction n)
  case (Suc n)
  have k: "aligned 4096 kpd" using L by (simp add: identity_layout_def)
  have n: "n < 8" "unat (of_nat n :: u32) = n" and t: "t < 8" using Suc.prems by (simp_all add: unat_of_nat_1024)
  have kt: "kpd \<noteq> identity_pt ipts t" using L t by (simp add: identity_layout_def)
  have a: "aligned 4096 (identity_pt ipts t)" by (rule identity_pt_aligned [OF L t])
  have "load32 (identity_upto kpd ipts (Suc n) m) (entry_at (identity_pt ipts t) j) =
    (if t = n then identity_pte n (unat j) else load32 (identity_upto kpd ipts n m) (entry_at (identity_pt ipts t) j))"
    unfolding identity_upto_Suc
    using load_entry_store [OF k a, of "of_nat n" j] identity_table_load [OF L n(1) a j] identity_pt_inj [OF L t n(1)] n j kt by auto
  then show ?case using Suc by auto
qed simp

lemma identity_tables_pde:
  assumes "identity_layout kpd ipts" "i < 1024"
  shows "pde (identity_tables kpd ipts m) kpd i = (if i < 8 then identity_pt ipts i OR PDE_PRESENT OR PDE_WRITABLE else pde m kpd i)"
  using identity_upto_pde [OF assms order_refl, of m] by (simp only: identity_tables_def IDENTITY_PT_COUNT_def identity_upto_def)

lemma identity_tables_pte:
  assumes "identity_layout kpd ipts" "t < 8" "unat j < 1024"
  shows "load32 (identity_tables kpd ipts m) (entry_at (identity_pt ipts t) j) = identity_pte t (unat j)"
  using identity_upto_pte [OF assms(1,3) order_refl assms(2), of m] by (simp only: identity_tables_def IDENTITY_PT_COUNT_def identity_upto_def)

lemma identity_pte_props:
  assumes "t < 8" "j < 1024"
  shows "present (identity_pte t j)" "unat (table_of (identity_pte t j)) = t * 2 ^ 22 + j * 4096"
    "identity_pte t j AND PTE_WRITABLE \<noteq> 0" "identity_pte t j AND PTE_USER = 0"
proof -
  let ?a = "of_nat t * of_nat PT_ENTRIES * PAGE_SIZE + of_nat j * PAGE_SIZE :: u32"
  have "?a = of_nat (t * 2 ^ 22 + j * 4096)" by (simp add: PT_ENTRIES_def PAGE_SIZE_def)
  moreover have "t * 2 ^ 22 + j * 4096 < 2 ^ 32" using assms by simp
  ultimately have u: "unat ?a = t * 2 ^ 22 + j * 4096" using unat_of_nat_u32 by metis
  have "t * 2 ^ 22 + j * 4096 = 4096 * (t * 1024 + j)" by simp
  then have al: "aligned 4096 ?a" unfolding aligned_def u by (metis dvd_triv_left)
  have e: "identity_pte t j = ?a OR 3"
    by (simp add: identity_pte_def or.assoc PTE_PRESENT_def PTE_WRITABLE_def)
  have "table_of (?a OR 3) = ?a" using al by (intro table_of_or) simp_all
  then show "unat (table_of (identity_pte t j)) = t * 2 ^ 22 + j * 4096" unfolding e using u by simp
  have "(?a OR 3) AND 1 = 3 AND 1" "(?a OR 3) AND 2 = 3 AND 2" "(?a OR 3) AND 4 = 3 AND 4"
    using al by (intro and_flag; simp)+
  then show "present (identity_pte t j)" "identity_pte t j AND PTE_WRITABLE \<noteq> 0" "identity_pte t j AND PTE_USER = 0"
    unfolding e by (simp_all add: present_def PDE_PRESENT_def PTE_WRITABLE_def PTE_USER_def)
qed

lemma table_of_offset: "table_of w OR (w AND 0xFFF) = w"
  unfolding table_of_def by (rule bit_word_eqI) (auto simp: bit_simps)

lemma identity_pde_props:
  assumes "identity_layout kpd ipts" "i < 8"
  shows "present (identity_pt ipts i OR PDE_PRESENT OR PDE_WRITABLE)"
    "table_of (identity_pt ipts i OR PDE_PRESENT OR PDE_WRITABLE) = identity_pt ipts i"
    "(identity_pt ipts i OR PDE_PRESENT OR PDE_WRITABLE) AND PDE_WRITABLE \<noteq> 0"
    "(identity_pt ipts i OR PDE_PRESENT OR PDE_WRITABLE) AND PDE_USER = 0"
proof -
  have a: "aligned 4096 (identity_pt ipts i)" by (rule identity_pt_aligned [OF assms])
  have e: "identity_pt ipts i OR PDE_PRESENT OR PDE_WRITABLE = identity_pt ipts i OR 3"
    by (simp add: or.assoc PDE_PRESENT_def PDE_WRITABLE_def)
  show "table_of (identity_pt ipts i OR PDE_PRESENT OR PDE_WRITABLE) = identity_pt ipts i"
    unfolding e using a by (intro table_of_or) simp_all
  have "(identity_pt ipts i OR 3) AND 1 = 3 AND 1" "(identity_pt ipts i OR 3) AND 2 = 3 AND 2" "(identity_pt ipts i OR 3) AND 4 = 3 AND 4"
    using a by (intro and_flag; simp)+
  then show "present (identity_pt ipts i OR PDE_PRESENT OR PDE_WRITABLE)"
    "(identity_pt ipts i OR PDE_PRESENT OR PDE_WRITABLE) AND PDE_WRITABLE \<noteq> 0"
    "(identity_pt ipts i OR PDE_PRESENT OR PDE_WRITABLE) AND PDE_USER = 0"
    unfolding e by (simp_all add: present_def PDE_PRESENT_def PDE_WRITABLE_def PDE_USER_def)
qed

lemma identity_tables_translate:
  assumes L: "identity_layout kpd ipts" and z: "\<And>i. 8 \<le> i \<Longrightarrow> i < 1024 \<Longrightarrow> pde m kpd i = 0"
  shows "translate (identity_tables kpd ipts m) kpd w =
    (if unat w < 32 * 2 ^ 20 then Some \<lparr>phys_addr = w, can_write = True, can_user = False\<rparr> else None)"
proof (cases "unat (pd_index w) < 8")
  case True
  let ?i = "unat (pd_index w)" and ?j = "unat (pt_index w)"
  have lt: "unat w < 32 * 2 ^ 20" using True unat_pd_index [of w] by (simp add: div_less_iff_less_mult)
  have e: "pde (identity_tables kpd ipts m) kpd ?i = identity_pt ipts ?i OR PDE_PRESENT OR PDE_WRITABLE"
    using identity_tables_pde [OF L, of ?i m] True by simp
  have f: "load32 (identity_tables kpd ipts m) (entry_at (identity_pt ipts ?i) (pt_index w)) = identity_pte ?i ?j"
    using identity_tables_pte [OF L True, of "pt_index w" m] by simp
  note p = identity_pte_props [OF True index_bounds(2) [of w]]
  have "unat w div 4096 * 4096 = ?i * 2 ^ 22 + ?j * 4096"
  proof -
    have h: "unat w div 2 ^ 22 = unat w div 4096 div 1024" by (simp add: div_mult2_eq [symmetric])
    have "a * 4096 = a div 1024 * 2 ^ 22 + a mod 1024 * 4096" for a :: nat
      using arg_cong [OF div_mult_mod_eq [of a 1024], where f = "\<lambda>x. x * 4096"] unfolding add_mult_distrib by simp
    then show ?thesis unfolding unat_pd_index unat_pt_index h .
  qed
  then have "table_of (identity_pte ?i ?j) = table_of w" using p(2) unat_table_of [of w] by (simp add: word_unat_eq_iff)
  then show ?thesis
    using e f identity_pde_props [OF L True] p lt table_of_offset [of w] by (simp add: translate_alt Let_def)
next
  case False
  then have "\<not> unat w < 32 * 2 ^ 20" using unat_pd_index [of w] by (simp add: div_less_iff_less_mult)
  moreover have "pde (identity_tables kpd ipts m) kpd (unat (pd_index w)) = 0"
    using identity_tables_pde [OF L, of "unat (pd_index w)" m] z False by simp
  ultimately show ?thesis by (simp add: translate_alt Let_def present_def)
qed

lemma identity_tables_agree:
  assumes L: "identity_layout kpd ipts" and X: "X \<inter> (page_bytes kpd \<union> (\<Union>t \<in> {..<8}. page_bytes (identity_pt ipts t))) = {}"
  shows "agree X (identity_tables kpd ipts m) m"
proof -
  let ?f = "\<lambda>t m. store32 (entry_at kpd (of_nat t)) (identity_pt ipts t OR PDE_PRESENT OR PDE_WRITABLE) (identity_table ipts t m)"
  have s: "agree X (?f t m) m" if t: "t < 8" for t m
  proof -
    have "agree X (identity_table ipts t m) m" unfolding identity_table_def
      using identity_pt_aligned [OF L t] X t by (intro agree_fill_table) (auto simp: PT_ENTRIES_def)
    moreover have "agree X (store32 (entry_at kpd (of_nat t)) v m') m'" for v m'
      using L X t by (intro agree_store_entry) (auto simp: identity_layout_def unat_of_nat_1024)
    ultimately show ?thesis by (rule agree_trans [rotated])
  qed
  have "n \<le> 8 \<Longrightarrow> agree X (fold ?f [0..<n] m) m" for n
  proof (induction n)
    case (Suc n)
    then show ?case using agree_trans [OF s [of n]] by simp
  qed simp
  from this [of 8] show ?thesis by (simp add: identity_tables_def IDENTITY_PT_COUNT_def)
qed

lemma identity_tables_wf:
  assumes L: "identity_layout kpd ipts" and z: "\<And>i. 8 \<le> i \<Longrightarrow> i < 1024 \<Longrightarrow> pde m kpd i = 0"
  shows "wf_pd (identity_tables kpd ipts m) kpd"
    "pd_tables (identity_tables kpd ipts m) kpd = identity_pt ipts ` {..<8}"
proof -
  let ?m = "identity_tables kpd ipts m"
  have p: "pde ?m kpd i = (if i < 8 then identity_pt ipts i OR PDE_PRESENT OR PDE_WRITABLE else 0)" if "i < 1024" for i
    using identity_tables_pde [OF L that, of m] z [of i] that by simp
  have s: "{i. i < 1024 \<and> present (pde ?m kpd i)} = {..<8}"
    using p identity_pde_props(1) [OF L] by (auto simp: present_def split: if_splits)
  have t: "table_of (pde ?m kpd i) = identity_pt ipts i" if "i < 8" for i
    using p [of i] that identity_pde_props(2) [OF L that] by simp
  show tb: "pd_tables ?m kpd = identity_pt ipts ` {..<8}" unfolding pd_tables_def s using t by (intro image_cong) auto
  have "inj_on (\<lambda>i. table_of (pde ?m kpd i)) {..<8}"
    using t identity_pt_inj [OF L] by (auto simp: inj_on_def)
  then show "wf_pd ?m kpd" using L tb s by (auto simp: wf_pd_def identity_layout_def)
qed

section \<open>Address spaces\<close>

text \<open>
  A page of the user part is mapped the way \<open>process_create_user\<close> and \<open>elf32_load\<close> do it:
  allocate a frame, then map it.
\<close>

fun map_fresh :: "u32 \<Rightarrow> (u32 \<times> u32) list \<Rightarrow> pmm \<Rightarrow> mem \<Rightarrow> (pmm \<times> mem) res" where
  "map_fresh pd [] p m = Inr (p, m)"
| "map_fresh pd ((virt, flags) # vs) p m =
     (let (frame, p) = pmm_alloc_frame p in
      if frame = 0 then Inl (Panic ''out of physical memory'')
      else bindR (paging_map_into pd virt frame flags p m) (\<lambda>(p, m). map_fresh pd vs p m))"

definition fresh_page :: "mem \<Rightarrow> u32 \<Rightarrow> u32 \<times> u32 \<Rightarrow> bool" where
  "fresh_page m pd v \<longleftrightarrow> 8 \<le> unat (pd_index (fst v)) \<and> translate m pd (fst v) = None \<and>
     snd v AND 0xFFF = snd v \<and> present (snd v)"

lemma map_into_step:
  assumes wf: "wf_pd m pd" and own: "owned (pd_pages m pd) p" and inv: "pmm_inv p"
    and room: "free_set p \<noteq> {}" and fresh: "fresh_page m pd v"
  shows "\<exists>p' m' t. paging_map_into pd (fst v) phys (snd v) p m = Inr (p', m') \<and> pmm_inv p' \<and> wf_pd m' pd \<and>
    owned (pd_pages m' pd) p' \<and> free_set p' = free_set p - {t} \<and> t \<in> free_set p \<union> pd_frames m pd \<and>
    pd_frames m' pd = insert (unat phys div 4096) (insert t (pd_frames m pd)) \<and>
    translate m' pd (fst v) \<noteq> None \<and>
    (\<forall>w. table_of w \<noteq> table_of (fst v) \<longrightarrow> (translate m' pd w = None) = (translate m pd w = None))"
proof -
  have fl: "snd v AND 0xFFF = snd v" "present (snd v)" and u: "8 \<le> unat (pd_index (fst v))" and n: "translate m pd (fst v) = None"
    using fresh by (auto simp: fresh_page_def)
  obtain p' m' t where g: "paging_map_into pd (fst v) phys (snd v) p m = Inr (p', m')" "pmm_inv p'" "wf_pd m' pd"
    "owned (pd_pages m' pd) p'" "free_set p' = free_set p - {t}" "t \<in> free_set p \<union> pd_frames m pd"
    "pd_frames m' pd = insert (unat phys div 4096) (insert t (pd_frames m pd))"
    using map_into_frames [OF wf own inv disjI2 [OF room] fl u n, of phys] by (elim exE conjE) (rule that)
  obtain p'' m'' where h: "paging_map_into pd (fst v) phys (snd v) p m = Inr (p'', m'')"
    "\<forall>w. table_of w = table_of (fst v) \<longrightarrow> translate m'' pd w \<noteq> None"
    "\<forall>w. table_of w \<noteq> table_of (fst v) \<longrightarrow> map_option (can_user_update (\<lambda>_. False)) (translate m'' pd w) =
      map_option (can_user_update (\<lambda>_. False)) (translate m pd w)"
    using paging_map_into_spec [OF wf own inv disjI2 [OF room] fl, where virt = "fst v" and phys = phys] by (elim exE conjE) (rule that; simp)
  have "m'' = m'" using g(1) h(1) by simp
  moreover have "(translate m'' pd w = None) = (translate m pd w = None)" if "table_of w \<noteq> table_of (fst v)" for w
    using h(3) that by (metis option.map_disc_iff)
  ultimately show ?thesis using g h(2) by (intro exI [of _ p'] exI [of _ m'] exI [of _ t] conjI allI impI) simp_all
qed

lemma map_fresh_spec:
  assumes "wf_pd m pd" "owned (pd_pages m pd) p" "pmm_inv p" "pd_frames m pd \<union> free_set p = F"
    "\<forall>v \<in> set vs. fresh_page m pd v" "distinct (map (table_of \<circ> fst) vs)" "2 * length vs \<le> card (free_set p)"
  shows "\<exists>p' m'. map_fresh pd vs p m = Inr (p', m') \<and> pmm_inv p' \<and> pd_frames m' pd \<union> free_set p' = F \<and>
    (\<forall>w. (\<exists>v \<in> set vs. table_of w = table_of (fst v)) \<or> translate m pd w \<noteq> None \<longrightarrow> translate m' pd w \<noteq> None)"
  using assms
proof (induction pd vs p m rule: map_fresh.induct)
  case (1 pd p m)
  then show ?case by simp
next
  case (2 pd virt flags vs p m)
  let ?v = "(virt, flags)"
  have ne: "free_set p \<noteq> {}" using 2(8) by auto
  obtain f p1 where al: "pmm_alloc_frame p = (f, p1)" "f \<noteq> 0" using pmm.alloc_succeeds [OF 2(4) ne] by blast
  note a = pmm.alloc_some [OF 2(4) al]
  have own1: "owned (pd_pages m pd) p1" using 2(3) a by (auto simp: owned_def)
  have inv1: "pmm_inv p1" using a by simp
  have c1: "card (free_set p1) = card (free_set p) - 1" using a by simp
  then have ne1: "free_set p1 \<noteq> {}" using 2(8) by auto
  have fr: "fresh_page m pd ?v" using 2(6) by simp
  obtain p2 m2 t where g: "paging_map_into pd virt f flags p1 m = Inr (p2, m2)" "pmm_inv p2" "wf_pd m2 pd"
    "owned (pd_pages m2 pd) p2" "free_set p2 = free_set p1 - {t}" "t \<in> free_set p1 \<union> pd_frames m pd"
    "pd_frames m2 pd = insert (unat f div 4096) (insert t (pd_frames m pd))"
    and tr: "translate m2 pd virt \<noteq> None"
    "\<forall>w. table_of w \<noteq> table_of virt \<longrightarrow> (translate m2 pd w = None) = (translate m pd w = None)"
    using map_into_step [OF 2(2) own1 inv1 ne1 fr, of f, unfolded fst_conv snd_conv] by (elim exE conjE) (rule that)
  have F: "pd_frames m2 pd \<union> free_set p2 = F" using 2(5) a g(5,6,7) by auto
  have "card (free_set p1) - 1 \<le> card (free_set p2)" unfolding g(5) by (cases "t \<in> free_set p1") simp_all
  then have c2: "2 * length vs \<le> card (free_set p2)" using 2(8) c1 by simp
  have fr2: "\<forall>v \<in> set vs. fresh_page m2 pd v"
  proof
    fix v assume v: "v \<in> set vs"
    then have "table_of (fst v) \<noteq> table_of virt" using 2(7) by force
    then show "fresh_page m2 pd v" using 2(6) tr(2) v by (simp add: fresh_page_def)
  qed
  have ih: "\<exists>p' m'. map_fresh pd vs p2 m2 = Inr (p', m') \<and> pmm_inv p' \<and> pd_frames m' pd \<union> free_set p' = F \<and>
    (\<forall>w. (\<exists>v \<in> set vs. table_of w = table_of (fst v)) \<or> translate m2 pd w \<noteq> None \<longrightarrow> translate m' pd w \<noteq> None)"
    using 2(7) by (intro 2(1) [OF al(1) [symmetric] refl al(2) g(3,4,2) F fr2 _ c2]) simp
  have "map_fresh pd (?v # vs) p m = map_fresh pd vs p2 m2" using al g(1) by simp
  moreover have "translate m2 pd w \<noteq> None" if "table_of w = table_of virt \<or> translate m pd w \<noteq> None" for w
    using that tr translate_same_page [of w virt m2 pd] by (cases "table_of w = table_of virt") auto
  moreover obtain p' m' where r: "map_fresh pd vs p2 m2 = Inr (p', m')" "pmm_inv p'" "pd_frames m' pd \<union> free_set p' = F"
    "\<forall>w. (\<exists>v \<in> set vs. table_of w = table_of (fst v)) \<or> translate m2 pd w \<noteq> None \<longrightarrow> translate m' pd w \<noteq> None"
    using ih by (elim exE conjE) (rule that)
  ultimately show ?case by (intro exI [of _ p'] exI [of _ m'] conjI allI impI r(2,3)) auto
qed

lemma created_frames:
  assumes "\<forall>i < 1024. pde m pd i = (if i < 8 then e i else 0)"
  shows "pd_frames m pd = {unat pd div 4096}"
proof -
  have "\<not> present (pde m pd i)" if "8 \<le> i" "i < 1024" for i using assms that by (simp add: present_def)
  then show ?thesis by (auto simp: pd_frames_def user_tables_def user_pages_alt)
qed

lemma created_directory:
  assumes k: "wf_pd m kpd" "owned (pd_pages m kpd) p" and inv: "pmm_inv p" and room: "free_set p \<noteq> {}"
  shows "\<exists>pd p' m'. paging_create_user_pd kpd p m = (pd, p', m') \<and> pd \<noteq> 0 \<and> pd \<notin> pd_pages m kpd \<and> aligned 4096 pd \<and>
    unat pd div 4096 \<in> free_set p \<and> free_set p' = free_set p - {unat pd div 4096} \<and> pmm_inv p' \<and>
    wf_pd m' pd \<and> owned (pd_pages m' pd) p' \<and> pd_frames m' pd = {unat pd div 4096} \<and>
    (\<forall>w. translate m' pd w = (if unat (pd_index w) < 8 then translate m kpd w else None)) \<and>
    (\<forall>i < 1024. pde m' pd i = (if i < 8 then pde m kpd i else 0)) \<and>
    (\<forall>X. X \<inter> page_bytes pd = {} \<longrightarrow> agree X m' m)"
proof -
  have ka: "aligned 4096 kpd" "unat kpd div 4096 \<notin> free_set p" using k by (auto simp: wf_pd_def owned_def pd_pages_def)
  obtain pd p' m' where c: "paging_create_user_pd kpd p m = (pd, p', m')" "pd \<noteq> 0" "aligned 4096 pd" "unat pd div 4096 \<in> free_set p"
    "free_set p' = free_set p - {unat pd div 4096}" "pmm_inv p'"
    "\<forall>i < 1024. pde m' pd i = (if i < 8 then pde m kpd i else 0)" "\<forall>X. X \<inter> page_bytes pd = {} \<longrightarrow> agree X m' m"
    using paging_create_user_pd_spec [OF inv ka room, of m] by (elim exE conjE) (rule that)
  have np: "pd \<notin> pd_pages m kpd" using c(4) k(2) by (auto simp: owned_def)
  have ag: "X \<inter> page_bytes pd = {} \<Longrightarrow> agree X m' m" for X using c(8) by blast
  note d = created_pd [OF k(1) c(3) np c(7) ag]
  have "owned (pd_pages m' pd) p'" using d(2) k(2) c(5) by (auto simp: owned_def pd_pages_def)
  then show ?thesis using d(1,3) c(7) np created_frames [OF c(7)]
    by (intro exI [of _ pd] exI [of _ p'] exI [of _ m'] conjI c) simp_all
qed

text \<open>The kernel directory after a new one is created beside it.\<close>

lemma kernel_after_create:
  assumes k: "wf_pd m kpd" and pd: "aligned 4096 pd" "pd \<notin> pd_pages m kpd" and ag: "\<forall>X. X \<inter> page_bytes pd = {} \<longrightarrow> agree X m' m"
  shows "i < 1024 \<Longrightarrow> pde m' kpd i = pde m kpd i" "translate m' kpd = translate m kpd" "pd_tables m' kpd = pd_tables m kpd" "wf_pd m' kpd"
proof -
  have al: "aligned 4096 x" if "x \<in> pd_pages m kpd" for x
    using that k by (auto simp: wf_pd_def pd_pages_def pd_tables_def)
  have "page_bytes x \<inter> page_bytes pd = {}" if "x \<in> pd_pages m kpd" for x
    using page_bytes_disjoint [OF al [OF that] pd(1)] pd(2) that by blast
  then have "\<Union> (page_bytes ` pd_pages m kpd) \<inter> page_bytes pd = {}" by blast
  then have "agree (\<Union> (page_bytes ` pd_pages m kpd)) m' m" using ag by blast
  note a = pd_agree [OF this al]
  show "i < 1024 \<Longrightarrow> pde m' kpd i = pde m kpd i" "translate m' kpd = translate m kpd" "pd_tables m' kpd = pd_tables m kpd" "wf_pd m' kpd"
    using a k by (auto simp: pd_pages_def)
qed

section \<open>Properties\<close>

text \<open>
  C26: after \<open>paging_init\<close> paging is on and the directory in CR3 maps every address below 32 MB to
  itself, writable and for the kernel only, and no other address; \<open>kernel_pd\<close> is a static array,
  so its entries are zero before.
\<close>

theorem paging_init_identity:
  assumes "identity_layout kpd ipts" "\<And>i. 8 \<le> i \<Longrightarrow> i < 1024 \<Longrightarrow> pde m kpd i = 0"
    "paging_init kpd ipts c m s = (c', m', s')"
  shows "cr3 c' = kpd \<and> kernel_pd_phys c' = kpd \<and> bit (cr0 c') 31 \<and> wf_pd m' kpd \<and>
    (\<forall>w. translate m' (cr3 c') w =
      (if unat w < 32 * 2 ^ 20 then Some \<lparr>phys_addr = w, can_write = True, can_user = False\<rparr> else None))"
proof -
  have m: "m' = identity_tables kpd ipts m" and c: "c' = paging_enable kpd (c\<lparr>kernel_pd_phys := kpd\<rparr>)"
    using assms(3) by (auto simp: paging_init_def Let_def)
  have "bit (0x80000000 :: u32) 31" by simp
  then show ?thesis
    unfolding m c using identity_tables_translate [OF assms(1,2)] identity_tables_wf(1) [OF assms(1,2)]
    by (simp add: paging_enable_def bit_or_iff)
qed

text \<open>A kernel directory at 2 MB with its eight tables behind it, in memory that was zero.\<close>

definition kernel_mem_ex :: mem where "kernel_mem_ex = identity_tables 0x200000 0x201000 (\<lambda>_. 0)"

lemma kernel_layout_ex: "identity_layout 0x200000 0x201000"
proof -
  have "identity_pt 0x201000 t \<noteq> 0x200000" if "t < 8" for t
  proof -
    have "unat (of_nat (t * 4096) :: u32) = t * 4096" using that by (intro unat_of_nat_u32) simp
    then have "unat (identity_pt 0x201000 t) = 0x201000 + t * 4096"
      unfolding identity_pt_def using that by (subst unat_add_nowrap) simp_all
    then show ?thesis by auto
  qed
  then show ?thesis by (auto simp: identity_layout_def aligned_def)
qed

lemma zero_pde: "pde (\<lambda>_. 0) pd i = 0"
  by (simp add: pde_def load32_def)

lemma kernel_mem_wf: "wf_pd kernel_mem_ex 0x200000"
  unfolding kernel_mem_ex_def by (rule identity_tables_wf(1) [OF kernel_layout_ex zero_pde])

lemma kernel_mem_owned: "owned (pd_pages kernel_mem_ex 0x200000) pmm_three"
  unfolding owned_def
proof
  fix t assume "t \<in> pd_pages kernel_mem_ex 0x200000"
  then consider "t = 0x200000" | i where "i < 8" "t = identity_pt 0x201000 i"
    unfolding pd_pages_def kernel_mem_ex_def identity_tables_wf(2) [OF kernel_layout_ex zero_pde] by auto
  then show "unat t div 4096 \<notin> free_set pmm_three"
    using unat_identity_pt [OF kernel_layout_ex] by cases (simp_all add: pmm_three_free)
qed

theorem paging_init_identity_witness:
  "\<exists>c' m' s'. paging_init 0x200000 0x201000 \<lparr>cr0 = 1, cr3 = 0, kernel_pd_phys = 0\<rparr> (\<lambda>_. 0) blank_screen = (c', m', s') \<and>
     translate m' (cr3 c') 0x1FFFFFF = Some \<lparr>phys_addr = 0x1FFFFFF, can_write = True, can_user = False\<rparr> \<and>
     translate m' (cr3 c') 0x2000000 = None"
proof -
  obtain c' m' s' where r: "paging_init 0x200000 0x201000 \<lparr>cr0 = 1, cr3 = 0, kernel_pd_phys = 0\<rparr> (\<lambda>_. 0) blank_screen = (c', m', s')"
    by (metis prod_cases3)
  from paging_init_identity [OF kernel_layout_ex zero_pde r]
  have "translate m' (cr3 c') w = (if unat w < 32 * 2 ^ 20 then Some \<lparr>phys_addr = w, can_write = True, can_user = False\<rparr> else None)" for w
    by blast
  from this [of "0x1FFFFFF"] this [of "0x2000000"] show ?thesis using r by simp
qed

text \<open>
  C5: \<open>paging_map_into\<close> on a well-formed directory either panics, exactly when the page needs a
  table and no frame is free, or maps the page: every address of it then translates to the
  frame with the requested permissions, every other page keeps its frame and its write permission, every
  page of another table keeps its translation, and the directory stays well-formed with its tables
  allocated. A page is writable only if its directory entry, when it was there before, is.
\<close>

theorem map_into_translates:
  assumes wf: "wf_pd m pd" and own: "owned (pd_pages m pd) p" and inv: "pmm_inv p"
    and fl: "flags AND 0xFFF = flags" "present flags"
  shows "case paging_map_into pd virt phys flags p m of
    Inl e \<Rightarrow> e = Panic ''paging_map_into: out of physical memory'' \<and> free_set p = {} \<and>
      \<not> present (pde m pd (unat (pd_index virt)))
  | Inr (p', m') \<Rightarrow> (present (pde m pd (unat (pd_index virt))) \<or> free_set p \<noteq> {}) \<and>
      pmm_inv p' \<and> wf_pd m' pd \<and> owned (pd_pages m' pd) p' \<and>
      (\<forall>w. table_of w = table_of virt \<longrightarrow> translate m' pd w = Some \<lparr>phys_addr = table_of phys OR (w AND 0xFFF),
         can_write = (flags AND PTE_WRITABLE \<noteq> 0 \<and> (present (pde m pd (unat (pd_index virt))) \<longrightarrow>
           pde m pd (unat (pd_index virt)) AND PDE_WRITABLE \<noteq> 0)),
         can_user = (flags AND PTE_USER \<noteq> 0)\<rparr>) \<and>
      (\<forall>w. table_of w \<noteq> table_of virt \<longrightarrow> map_option (can_user_update (\<lambda>_. False)) (translate m' pd w) =
         map_option (can_user_update (\<lambda>_. False)) (translate m pd w)) \<and>
      (\<forall>w. pd_index w \<noteq> pd_index virt \<longrightarrow> translate m' pd w = translate m pd w)"
proof (cases "present (pde m pd (unat (pd_index virt))) \<or> free_set p \<noteq> {}")
  case True
  show ?thesis using paging_map_into_spec [OF wf own inv True fl, of phys] True
    by (elim exE conjE) (simp only: sum.case prod.case simp_thms)
next
  case False
  then have "table_for pd virt flags p m = Inl (Panic ''paging_map_into: out of physical memory'')"
    using pmm_alloc_frame_empty [of p] by (simp add: table_for_def Let_def)
  then show ?thesis using False by (simp add: paging_map_into_alt)
qed

theorem map_into_translates_witness:
  "\<exists>p' m'. paging_map_into 0x200000 0x8000000 0x3000 7 pmm_three kernel_mem_ex = Inr (p', m') \<and>
     translate m' 0x200000 0x8000123 = Some \<lparr>phys_addr = 0x3123, can_write = True, can_user = True\<rparr>"
proof -
  have np: "\<not> present (pde kernel_mem_ex 0x200000 (unat (pd_index 0x8000000)))"
    using identity_tables_pde [OF kernel_layout_ex, of 32 "\<lambda>_. 0"]
    by (simp add: kernel_mem_ex_def unat_pd_index zero_pde present_def)
  have t: "table_of 0x8000123 = table_of 0x8000000" "table_of 0x3000 OR (0x8000123 AND 0xFFF) = 0x3123" by (simp_all add: table_of_def)
  note th = map_into_translates [OF kernel_mem_wf kernel_mem_owned pmm_three_inv, of 7 "0x8000000" "0x3000"]
  then show ?thesis using np t
    by (simp add: present_def PDE_PRESENT_def PTE_WRITABLE_def PTE_USER_def pmm_three_free split: sum.splits prod.splits)
qed

text \<open>
  C9: mapping a page into the user part of one directory changes no translation of another
  directory, as long as the two share only the tables of the first eight entries.
\<close>

theorem map_into_isolated:
  assumes wf: "wf_pd m pd" "wf_pd m q" and own: "owned (pd_pages m pd) p" "owned (pd_pages m q) p" and inv: "pmm_inv p"
    and fl: "flags AND 0xFFF = flags" "present flags" and user: "8 \<le> unat (pd_index virt)"
    and sep: "pd \<notin> pd_pages m q" "user_tables m pd \<inter> pd_pages m q = {}"
    and r: "paging_map_into pd virt phys flags p m = Inr (p', m')"
  shows "translate m' q = translate m q \<and> wf_pd m' q \<and> owned (pd_pages m' q) p'"
proof -
  let ?i = "unat (pd_index virt)"
  have room: "present (pde m pd ?i) \<or> free_set p \<noteq> {}"
    using r pmm_alloc_frame_empty [of p] by (auto simp: paging_map_into_alt table_for_def Let_def)
  obtain p2 m2 t where g: "paging_map_into pd virt phys flags p m = Inr (p2, m2)"
    "free_set p2 = free_set p - {unat t div 4096}"
    "if present (pde m pd ?i) then t = table_of (pde m pd ?i) \<and> p2 = p else unat t div 4096 \<in> free_set p"
    "\<forall>X. X \<inter> (page_bytes pd \<union> page_bytes t) = {} \<longrightarrow> agree X m2 m" "table_of (pde m2 pd ?i) = t"
    using paging_map_into_spec [OF wf(1) own(1) inv room fl, of phys] by (elim exE conjE) (rule that)
  have "t \<notin> pd_pages m q"
  proof (cases "present (pde m pd ?i)")
    case True
    then have "t \<in> user_tables m pd" using g(3) user by (auto simp: user_tables_def)
    then show ?thesis using sep by blast
  next
    case False
    then show ?thesis using g(3) own(2) by (auto simp: owned_def)
  qed
  moreover have "aligned 4096 x" if "x \<in> insert t (insert pd (pd_pages m q))" for x
    using that wf g(5) by (auto simp: wf_pd_def pd_pages_def pd_tables_def)
  ultimately have "\<Union> (page_bytes ` pd_pages m q) \<inter> (page_bytes pd \<union> page_bytes t) = {}"
    using sep(1) page_bytes_disjoint by blast
  then have "agree (\<Union> (page_bytes ` pd_pages m q)) m2 m" using g(4) by blast
  note a = pd_agree [OF this]
  have q: "aligned 4096 q" using wf(2) by (simp add: wf_pd_def)
  have "m' = m2" "p' = p2" using r g(1) by auto
  then show ?thesis using a(2-4) [OF q] wf(2) own(2) g(2) by (auto simp: owned_def pd_pages_def)
qed

theorem map_into_isolated_witness:
  "\<exists>pd p1 m1 p2 m2. paging_create_user_pd 0x200000 pmm_three kernel_mem_ex = (pd, p1, m1) \<and>
     paging_map_into pd 0x8000000 0x3000 7 p1 m1 = Inr (p2, m2) \<and> translate m2 0x200000 = translate m1 0x200000"
proof -
  have ne: "free_set pmm_three \<noteq> {}" by (simp add: pmm_three_free)
  obtain pd p1 m1 where c: "paging_create_user_pd 0x200000 pmm_three kernel_mem_ex = (pd, p1, m1)"
    "pd \<notin> pd_pages kernel_mem_ex 0x200000" "aligned 4096 pd"
    "free_set p1 = free_set pmm_three - {unat pd div 4096}" "pmm_inv p1" "wf_pd m1 pd" "owned (pd_pages m1 pd) p1"
    "\<forall>i < 1024. pde m1 pd i = (if i < 8 then pde kernel_mem_ex 0x200000 i else 0)"
    "\<forall>X. X \<inter> page_bytes pd = {} \<longrightarrow> agree X m1 kernel_mem_ex"
    using created_directory [OF kernel_mem_wf kernel_mem_owned pmm_three_inv ne] by (elim exE conjE) (rule that)
  note k = kernel_after_create [OF kernel_mem_wf c(3,2,9)]
  have ut: "user_tables m1 pd = {}" using c(8) by (auto simp: user_tables_def present_def)
  have ne1: "free_set p1 \<noteq> {}" using c(4) by (auto simp: pmm_three_free)
  have fl: "7 AND 0xFFF = (7 :: u32)" "present 7" by (simp_all add: present_def PDE_PRESENT_def)
  obtain p2 m2 where r: "paging_map_into pd 0x8000000 0x3000 7 p1 m1 = Inr (p2, m2)"
    using paging_map_into_spec [OF c(6,7,5) disjI2 [OF ne1] fl, where virt = "0x8000000" and phys = "0x3000"] by (elim exE conjE) (rule that)
  have o: "owned (pd_pages m1 0x200000) p1" using kernel_mem_owned k(3) c(4) by (auto simp: owned_def pd_pages_def)
  have "translate m2 0x200000 = translate m1 0x200000"
    using map_into_isolated [OF c(6) k(4) c(7) o c(5) fl _ _ _ r] c(2) k(3) ut by (simp add: pd_pages_def unat_pd_index)
  then show ?thesis using c(1) r by blast
qed

text \<open>
  C4: the life of an address space. Creating a directory, giving it pages in its user part (each
  in a frame of its own) and freeing it succeeds when enough frames are free, shares the
  kernel part, maps every page asked for, and gives back every frame it took: the set of free
  frames is the one from before.
\<close>

theorem address_space_roundtrip:
  assumes k: "wf_pd m kpd" "owned (pd_pages m kpd) p" and inv: "pmm_inv p"
    and vs: "\<forall>v \<in> set vs. 8 \<le> unat (pd_index (fst v)) \<and> snd v AND 0xFFF = snd v \<and> present (snd v)"
      "distinct (map (table_of \<circ> fst) vs)" and room: "1 + 2 * length vs \<le> card (free_set p)"
  shows "\<exists>pd p1 m1 p2 m2. paging_create_user_pd kpd p m = (pd, p1, m1) \<and> map_fresh pd vs p1 m1 = Inr (p2, m2) \<and>
    (\<forall>w. translate m1 pd w = (if unat (pd_index w) < 8 then translate m kpd w else None)) \<and>
    (\<forall>v \<in> set vs. translate m2 pd (fst v) \<noteq> None) \<and>
    free_set (paging_free_pd pd m2 p2) = free_set p \<and> pmm_inv (paging_free_pd pd m2 p2)"
proof -
  have ne: "free_set p \<noteq> {}" using room by auto
  obtain pd p1 m1 where c: "paging_create_user_pd kpd p m = (pd, p1, m1)" "pd \<noteq> 0" "unat pd div 4096 \<in> free_set p"
    "free_set p1 = free_set p - {unat pd div 4096}" "pmm_inv p1" "wf_pd m1 pd" "owned (pd_pages m1 pd) p1"
    "pd_frames m1 pd = {unat pd div 4096}"
    "\<forall>w. translate m1 pd w = (if unat (pd_index w) < 8 then translate m kpd w else None)"
    using created_directory [OF k inv ne] by (elim exE conjE) (rule that)
  have F: "pd_frames m1 pd \<union> free_set p1 = free_set p" using c by auto
  have fr: "\<forall>v \<in> set vs. fresh_page m1 pd v" using vs(1) c(9) by (auto simp: fresh_page_def)
  have room1: "2 * length vs \<le> card (free_set p1)" using room c(3,4) by simp
  obtain p2 m2 where r: "map_fresh pd vs p1 m1 = Inr (p2, m2)" "pmm_inv p2" "pd_frames m2 pd \<union> free_set p2 = free_set p"
    "\<forall>w. (\<exists>v \<in> set vs. table_of w = table_of (fst v)) \<or> translate m1 pd w \<noteq> None \<longrightarrow> translate m2 pd w \<noteq> None"
    using map_fresh_spec [OF c(6,7,5) F fr vs(2) room1] by (elim exE conjE) (rule that)
  have "pd_frames m2 pd \<subseteq> {1..<32768}"
  proof
    fix f assume "f \<in> pd_frames m2 pd"
    then have "f \<in> free_set p" using r(3) by blast
    then show "f \<in> {1..<32768}" using pmm.frames_range [OF inv] by force
  qed
  note f = paging_free_pd_spec [OF r(2) c(2) this]
  show ?thesis using f r c(9) by (intro exI [of _ pd] exI [of _ p1] exI [of _ m1] exI [of _ p2] exI [of _ m2] conjI c(1)) auto
qed

theorem address_space_roundtrip_witness:
  "\<exists>pd p1 m1 p2 m2. paging_create_user_pd 0x200000 pmm_three kernel_mem_ex = (pd, p1, m1) \<and>
     map_fresh pd [(0x8000000, 7)] p1 m1 = Inr (p2, m2) \<and> translate m2 pd 0x8000000 \<noteq> None \<and>
     free_set (paging_free_pd pd m2 p2) = {1, 2, 3}"
  using address_space_roundtrip [OF kernel_mem_wf kernel_mem_owned pmm_three_inv, of "[(0x8000000, 7)]"]
  by (simp add: unat_pd_index present_def PDE_PRESENT_def pmm_three_free) blast

text \<open>
  C36: a page mapped below 32 MB is not private. Every directory made by
  \<open>paging_create_user_pd\<close> holds the kernel's own tables for these addresses, so the new
  translation is seen by the kernel directory as well (and the identity mapping of that
  page is gone), and freeing the directory gives back the directory's own frame only.
  The user programs of the kernel are loaded and get their stack in this range.
\<close>

theorem low_mapping_is_shared:
  assumes k: "wf_pd m kpd" "owned (pd_pages m kpd) p" and inv: "pmm_inv p"
    and cr: "paging_create_user_pd kpd p m = (pd, p1, m1)" "pd \<noteq> 0"
    and low: "unat (pd_index virt) < 8" "present (pde m kpd (unat (pd_index virt)))"
    and fl: "flags AND 0xFFF = flags" "present flags"
  shows "\<exists>m2. paging_map_into pd virt phys flags p1 m1 = Inr (p1, m2) \<and>
    (\<forall>w. table_of w = table_of virt \<longrightarrow> map_option phys_addr (translate m2 kpd w) = Some (table_of phys OR (w AND 0xFFF))) \<and>
    free_set (paging_free_pd pd m2 p1) = insert (unat pd div 4096) (free_set p1)"
proof -
  let ?i = "unat (pd_index virt)"
  have ne: "free_set p \<noteq> {}" using cr pmm_alloc_frame_empty [of p] by (auto simp: paging_create_user_pd_def)
  have c: "pd \<notin> pd_pages m kpd" "aligned 4096 pd" "unat pd div 4096 \<in> free_set p" "pmm_inv p1" "wf_pd m1 pd"
    "owned (pd_pages m1 pd) p1" "\<forall>i < 1024. pde m1 pd i = (if i < 8 then pde m kpd i else 0)"
    "\<forall>X. X \<inter> page_bytes pd = {} \<longrightarrow> agree X m1 m"
    using created_directory [OF k inv ne] unfolding cr(1) by auto
  have pr: "present (pde m1 pd ?i)" using c(7) low by simp
  have eq: "pde m1 pd ?i = pde m kpd ?i" using c(7) low by simp
  define m' where "m' = (if flags AND PTE_USER \<noteq> 0 then store32 (entry_at pd (pd_index virt)) (pde m1 pd ?i OR PDE_USER) m1 else m1)"
  have tf: "table_for pd virt flags p1 m1 = Inr (p1, m')" using pr by (simp add: table_for_def m'_def Let_def)
  have "agree X m' m" if X: "X \<inter> page_bytes pd = {}" for X
    using set_pde_user(6) [OF c(5) refl pr X] c(8) X by (auto simp: m'_def intro: agree_trans)
  then have "\<forall>X. X \<inter> page_bytes pd = {} \<longrightarrow> agree X m' m" by blast
  note kk = kernel_after_create [OF k(1) c(2,1) this]
  obtain p2 m2 t where g: "paging_map_into pd virt phys flags p1 m1 = Inr (p2, m2)"
    "if present (pde m1 pd ?i) then t = table_of (pde m1 pd ?i) \<and> p2 = p1 else unat t div 4096 \<in> free_set p1"
    "\<forall>i. i < 1024 \<and> i \<noteq> ?i \<longrightarrow> pde m2 pd i = pde m1 pd i"
    using paging_map_into_spec [OF c(5,6,4) disjI1 [OF pr] fl, of phys] by (elim exE conjE) (rule that)
  have p2: "p2 = p1" using g(2) pr by simp
  have tm: "table_of (pde m' pd ?i) = table_of (pde m1 pd ?i)"
    using set_pde_user(1) [OF c(5) refl pr, of ?i] by (simp add: m'_def table_of_or_low)
  have m2: "m2 = store32 (entry_at (table_of (pde m' kpd ?i)) (pt_index virt)) (table_of phys OR flags) m'"
    using g(1) tm tf kk(1) [of ?i] eq by (simp add: paging_map_into_alt)
  have "present (table_of phys OR flags)" using and_flag [of "table_of phys" PDE_PRESENT flags] fl(2) by (simp add: present_def)
  moreover have "table_of (table_of phys OR flags) = table_of phys" using fl(1) by (simp add: table_of_or)
  ultimately have "map_option phys_addr (translate m2 kpd w) = Some (table_of phys OR (w AND 0xFFF))" if "table_of w = table_of virt" for w
    unfolding m2 using translate_set_pte [OF kk(4) refl, of virt "table_of phys OR flags" w] low kk(1) [of ?i] that by simp
  moreover have "pd_frames m2 pd = {unat pd div 4096}" 
    using created_frames [of m2 pd "pde m2 pd"] g(3) c(7) low by auto
  moreover from this have "pd_frames m2 pd \<subseteq> {1..<32768}" using pmm.frames_range [OF inv c(3)] by simp
  ultimately show ?thesis using g(1) p2 paging_free_pd_spec(1) [OF c(4) cr(2), of m2] by (intro exI [of _ m2]) auto
qed

theorem low_mapping_is_shared_witness:
  "\<exists>pd p1 m1 m2. paging_create_user_pd 0x200000 pmm_three kernel_mem_ex = (pd, p1, m1) \<and>
     paging_map_into pd 0x500000 0x3000 7 p1 m1 = Inr (p1, m2) \<and>
     map_option phys_addr (translate m2 0x200000 0x500000) = Some 0x3000"
proof -
  have ne: "free_set pmm_three \<noteq> {}" by (simp add: pmm_three_free)
  obtain pd p1 m1 where c: "paging_create_user_pd 0x200000 pmm_three kernel_mem_ex = (pd, p1, m1)" "pd \<noteq> 0"
    using created_directory [OF kernel_mem_wf kernel_mem_owned pmm_three_inv ne] by (elim exE conjE) (rule that)
  have i: "unat (pd_index 0x500000) = 1" by (simp add: unat_pd_index)
  have pr: "present (pde kernel_mem_ex 0x200000 (unat (pd_index 0x500000)))"
    unfolding i kernel_mem_ex_def using identity_tables_pde [OF kernel_layout_ex, of 1 "\<lambda>_. 0"]
      identity_pde_props(1) [OF kernel_layout_ex, of 1] by simp
  have fl: "7 AND 0xFFF = (7 :: u32)" "present 7" by (simp_all add: present_def PDE_PRESENT_def)
  have lt: "unat (pd_index 0x500000) < 8" by (simp add: i)
  obtain m2 where r: "paging_map_into pd 0x500000 0x3000 7 p1 m1 = Inr (p1, m2)"
    "\<forall>w. table_of w = table_of 0x500000 \<longrightarrow> map_option phys_addr (translate m2 0x200000 w) = Some (table_of 0x3000 OR (w AND 0xFFF))"
    using low_mapping_is_shared [OF kernel_mem_wf kernel_mem_owned pmm_three_inv c lt pr fl] by blast
  have "table_of 0x3000 OR (0x500000 AND 0xFFF) = 0x3000" by (simp add: table_of_def)
  then show ?thesis using c(1) r(1) r(2) [rule_format, OF refl] by simp
qed

end
