(* ===== verification/Gdt.thy ===== *)
theory Gdt
  imports Prelude
begin

text \<open>
  The segment descriptors and the task state segment of \<open>kernel/gdt.c\<close>, with the register loads
  of \<open>boot/gdt_flush.asm\<close>. The lemmas decode the descriptors the way the processor does: base, limit
  and access rights come out as \<open>gdt_init\<close> put them in. The addresses of the static objects
  are parameters.
\<close>

section \<open>Model\<close>

record gdt_entry =
  gd_limit_low :: u16
  gd_base_low :: u16
  gd_base_mid :: u8
  gd_access :: u8
  gd_granularity :: u8
  gd_base_high :: u8

record gdt_ptr =
  gp_limit :: u16
  gp_base :: u32

record tss_entry =
  ts_prev_tss :: u32
  ts_esp0 :: u32
  ts_ss0 :: u32
  ts_esp1 :: u32
  ts_ss1 :: u32
  ts_esp2 :: u32
  ts_ss2 :: u32
  ts_cr3 :: u32
  ts_eip :: u32
  ts_eflags :: u32
  ts_eax :: u32
  ts_ecx :: u32
  ts_edx :: u32
  ts_ebx :: u32
  ts_esp :: u32
  ts_ebp :: u32
  ts_esi :: u32
  ts_edi :: u32
  ts_es :: u32
  ts_cs :: u32
  ts_ss :: u32
  ts_ds :: u32
  ts_fs :: u32
  ts_gs :: u32
  ts_ldt :: u32
  ts_trap :: u16
  ts_iomap_base :: u16

definition GDT_ENTRIES :: nat where "GDT_ENTRIES = 6"

text \<open>\<open>sizeof\<close> of the packed structures.\<close>

definition sizeof_gdt_entry :: u32 where "sizeof_gdt_entry = 8"
definition sizeof_tss_entry :: u32 where "sizeof_tss_entry = 104"

text \<open>The descriptor table with the processor registers that \<open>gdt_flush\<close> and \<open>tss_flush\<close> load.\<close>

record gdt_state =
  gdt :: "gdt_entry list"
  tss :: tss_entry
  gdtr :: gdt_ptr
  seg_cs :: u16
  seg_data :: u16
  task_reg :: u16

definition gdt_set_entry :: "nat \<Rightarrow> u32 \<Rightarrow> u32 \<Rightarrow> u8 \<Rightarrow> u8 \<Rightarrow> gdt_state \<Rightarrow> gdt_state" where
  "gdt_set_entry i base limit access gran s = s\<lparr>gdt := (gdt s)[i :=
     \<lparr>gd_limit_low = ucast (limit AND 0xFFFF),
      gd_base_low = ucast (base AND 0xFFFF),
      gd_base_mid = ucast (drop_bit 16 base AND 0xFF),
      gd_access = access,
      gd_granularity = ucast (drop_bit 16 limit AND 0x0F) OR (gran AND 0xF0),
      gd_base_high = ucast (drop_bit 24 base AND 0xFF)\<rparr>]\<rparr>"

definition tss_zero :: tss_entry where
  "tss_zero = \<lparr>ts_prev_tss = 0, ts_esp0 = 0, ts_ss0 = 0, ts_esp1 = 0, ts_ss1 = 0, ts_esp2 = 0, ts_ss2 = 0,
     ts_cr3 = 0, ts_eip = 0, ts_eflags = 0, ts_eax = 0, ts_ecx = 0, ts_edx = 0, ts_ebx = 0, ts_esp = 0,
     ts_ebp = 0, ts_esi = 0, ts_edi = 0, ts_es = 0, ts_cs = 0, ts_ss = 0, ts_ds = 0, ts_fs = 0, ts_gs = 0,
     ts_ldt = 0, ts_trap = 0, ts_iomap_base = 0\<rparr>"

definition write_tss :: "u32 \<Rightarrow> nat \<Rightarrow> u16 \<Rightarrow> gdt_state \<Rightarrow> gdt_state" where
  "write_tss tss_addr i ss0 s =
     (let s = gdt_set_entry i tss_addr (sizeof_tss_entry - 1) 0x89 0x00 s
      in s\<lparr>tss := tss_zero\<lparr>ts_ss0 := ucast ss0, ts_iomap_base := ucast sizeof_tss_entry\<rparr>\<rparr>)"

definition gdt_flush :: "gdt_ptr \<Rightarrow> gdt_state \<Rightarrow> gdt_state" where
  "gdt_flush p s = s\<lparr>gdtr := p, seg_cs := 0x08, seg_data := 0x10\<rparr>"

definition tss_flush :: "gdt_state \<Rightarrow> gdt_state" where
  "tss_flush s = s\<lparr>task_reg := 0x28\<rparr>"

definition gdt_init :: "u32 \<Rightarrow> u32 \<Rightarrow> gdt_state \<Rightarrow> gdt_state" where
  "gdt_init gdt_addr tss_addr s =
     (let p = \<lparr>gp_limit = ucast (sizeof_gdt_entry * of_nat GDT_ENTRIES - 1), gp_base = gdt_addr\<rparr>;
          s = gdt_set_entry 0 0 0 0x00 0x00 s;
          s = gdt_set_entry 1 0 0xFFFFFFFF 0x9A 0xCF s;
          s = gdt_set_entry 2 0 0xFFFFFFFF 0x92 0xCF s;
          s = gdt_set_entry 3 0 0xFFFFFFFF 0xFA 0xCF s;
          s = gdt_set_entry 4 0 0xFFFFFFFF 0xF2 0xCF s;
          s = write_tss tss_addr 5 0x10 s
      in tss_flush (gdt_flush p s))"

definition tss_set_kernel_stack :: "u32 \<Rightarrow> gdt_state \<Rightarrow> gdt_state" where
  "tss_set_kernel_stack esp0 s = s\<lparr>tss := (tss s)\<lparr>ts_esp0 := esp0\<rparr>\<rparr>"

section \<open>Descriptors as the processor reads them\<close>

definition seg_base :: "gdt_entry \<Rightarrow> u32" where
  "seg_base e = ucast (gd_base_low e) OR push_bit 16 (ucast (gd_base_mid e)) OR push_bit 24 (ucast (gd_base_high e))"

text \<open>The last offset of the segment: the 20-bit limit counts pages when the granularity bit is set.\<close>

definition seg_last :: "gdt_entry \<Rightarrow> u32" where
  "seg_last e =
     (let limit = ucast (gd_limit_low e) OR push_bit 16 (ucast (gd_granularity e AND 0x0F)) in
      if bit (gd_granularity e) 7 then push_bit 12 limit OR 0xFFF else limit)"

definition seg_present :: "gdt_entry \<Rightarrow> bool" where "seg_present e \<longleftrightarrow> bit (gd_access e) 7"
definition seg_dpl :: "gdt_entry \<Rightarrow> u8" where "seg_dpl e = drop_bit 5 (gd_access e) AND 3"

text \<open>Code or data rather than a system descriptor, and executable.\<close>

definition seg_code_data :: "gdt_entry \<Rightarrow> bool" where "seg_code_data e \<longleftrightarrow> bit (gd_access e) 4"
definition seg_code :: "gdt_entry \<Rightarrow> bool" where "seg_code e \<longleftrightarrow> bit (gd_access e) 3"

definition descriptor :: "u32 \<Rightarrow> u32 \<Rightarrow> u8 \<Rightarrow> u8 \<Rightarrow> gdt_entry" where
  "descriptor base limit access gran =
     \<lparr>gd_limit_low = ucast (limit AND 0xFFFF), gd_base_low = ucast (base AND 0xFFFF),
      gd_base_mid = ucast (drop_bit 16 base AND 0xFF), gd_access = access,
      gd_granularity = ucast (drop_bit 16 limit AND 0x0F) OR (gran AND 0xF0),
      gd_base_high = ucast (drop_bit 24 base AND 0xFF)\<rparr>"

lemma gdt_set_entry_alt: "gdt_set_entry i b l a g s = s\<lparr>gdt := (gdt s)[i := descriptor b l a g]\<rparr>"
  by (simp add: gdt_set_entry_def descriptor_def)

lemma seg_base_descriptor: "seg_base (descriptor base limit access gran) = base"
proof (rule bit_word_eqI)
  fix n assume n: "n < LENGTH(32)"
  have m: "(0xFFFF :: u32) = mask 16" "(0xFF :: u32) = mask 8" by (simp_all add: mask_eq_exp_minus_1)
  show "bit (seg_base (descriptor base limit access gran)) n = bit base n"
    unfolding seg_base_def descriptor_def gdt_entry.select_convs m using n by (cases "n < 24") (auto simp: bit_simps not_less)
qed

lemma seg_last_flat: "seg_last (descriptor base 0xFFFFFFFF access 0xCF) = 0xFFFFFFFF"
  by (simp add: seg_last_def descriptor_def Let_def)

lemma seg_last_tss: "seg_last (descriptor base 103 access 0) = 103"
  by (simp add: seg_last_def descriptor_def)

lemma descriptor_access:
  "seg_present (descriptor b l a g) = bit a 7" "seg_dpl (descriptor b l a g) = drop_bit 5 a AND 3"
  "seg_code_data (descriptor b l a g) = bit a 4" "seg_code (descriptor b l a g) = bit a 3"
  by (simp_all add: seg_present_def seg_dpl_def seg_code_data_def seg_code_def descriptor_def)

section \<open>Properties\<close>

text \<open>
  C35: after \<open>gdt_init\<close> the null descriptor is not present, the kernel and the user segments are flat
  4 GB code and data segments of rings 0 and 3, and the last descriptor is the task
  state segment, whose base and size come out of the split fields as the address and
  the size of the structure. The selectors loaded into the segment and task registers name these entries,
  and the table register covers all six.
\<close>

theorem gdt_init_segments:
  assumes "length (gdt s) = GDT_ENTRIES" "gdt_init gdt_addr tss_addr s = s'"
  shows "\<not> seg_present (gdt s' ! 0) \<and>
    (\<forall>i \<in> {1, 2, 3, 4}. seg_present (gdt s' ! i) \<and> seg_code_data (gdt s' ! i) \<and> seg_base (gdt s' ! i) = 0 \<and>
       seg_last (gdt s' ! i) = 0xFFFFFFFF \<and> seg_dpl (gdt s' ! i) = (if i < 3 then 0 else 3) \<and> (seg_code (gdt s' ! i) \<longleftrightarrow> i \<in> {1, 3})) \<and>
    seg_present (gdt s' ! 5) \<and> \<not> seg_code_data (gdt s' ! 5) \<and> seg_base (gdt s' ! 5) = tss_addr \<and>
    seg_last (gdt s' ! 5) = sizeof_tss_entry - 1 \<and> seg_dpl (gdt s' ! 5) = 0 \<and>
    seg_cs s' = 8 * 1 \<and> seg_data s' = 8 * 2 \<and> task_reg s' = 8 * 5 \<and>
    gdtr s' = \<lparr>gp_limit = 47, gp_base = gdt_addr\<rparr> \<and> ts_ss0 (tss s') = ucast (seg_data s')"
proof -
  have "length (gdt s) = 6" using assms(1) by (simp add: GDT_ENTRIES_def)
  then have g: "gdt s' = [descriptor 0 0 0 0, descriptor 0 0xFFFFFFFF 0x9A 0xCF, descriptor 0 0xFFFFFFFF 0x92 0xCF,
      descriptor 0 0xFFFFFFFF 0xFA 0xCF, descriptor 0 0xFFFFFFFF 0xF2 0xCF, descriptor tss_addr 103 0x89 0]"
    unfolding assms(2) [symmetric]
    by (auto simp: gdt_init_def write_tss_def gdt_set_entry_alt tss_flush_def gdt_flush_def Let_def sizeof_tss_entry_def
        numeral_eq_Suc length_Suc_conv)
  have r: "seg_cs s' = 8" "seg_data s' = 0x10" "task_reg s' = 0x28" "gdtr s' = \<lparr>gp_limit = 47, gp_base = gdt_addr\<rparr>"
    "ts_ss0 (tss s') = 0x10"
    unfolding assms(2) [symmetric]
    by (simp_all add: gdt_init_def write_tss_def gdt_set_entry_alt tss_flush_def gdt_flush_def Let_def sizeof_gdt_entry_def GDT_ENTRIES_def)
  show ?thesis unfolding g r
    by (simp add: descriptor_access seg_base_descriptor seg_last_flat seg_last_tss sizeof_tss_entry_def)
qed

definition gdt_state_ex :: gdt_state where
  "gdt_state_ex = \<lparr>gdt = replicate GDT_ENTRIES (descriptor 0 0 0 0), tss = tss_zero, gdtr = \<lparr>gp_limit = 0, gp_base = 0\<rparr>,
     seg_cs = 0, seg_data = 0, task_reg = 0\<rparr>"

theorem gdt_init_segments_witness:
  "seg_base (gdt (gdt_init 0x110000 0x12345678 gdt_state_ex) ! 5) = 0x12345678"
  using gdt_init_segments [OF _ refl, of gdt_state_ex "0x110000" "0x12345678"] by (simp add: gdt_state_ex_def)

end
