(* ===== verification/Idt.thy ===== *)
theory Idt
  imports Vga
begin

text \<open>
  Interrupts (\<open>kernel/idt.c\<close>): the descriptor table, the programming of the two interrupt
  controllers, the exception handler and the dispatch of hardware interrupts. The addresses of the
  assembly stubs are parameters; the values read from the controllers' mask registers are too.
\<close>

section \<open>Model\<close>

record idt_entry =
  id_base_low :: u16
  id_selector :: u16
  id_zero :: u8
  id_flags :: u8
  id_base_high :: u16

record idt_ptr =
  ip_limit :: u16
  ip_base :: u32

record registers =
  reg_ds :: u32
  reg_edi :: u32
  reg_esi :: u32
  reg_ebp :: u32
  reg_esp :: u32
  reg_ebx :: u32
  reg_edx :: u32
  reg_ecx :: u32
  reg_eax :: u32
  reg_int_no :: u32
  reg_err_code :: u32
  reg_eip :: u32
  reg_cs :: u32
  reg_eflags :: u32

definition IDT_ENTRIES :: nat where "IDT_ENTRIES = 256"
definition PIC1_CMD :: u16 where "PIC1_CMD = 0x20"
definition PIC1_DATA :: u16 where "PIC1_DATA = 0x21"
definition PIC2_CMD :: u16 where "PIC2_CMD = 0xA0"
definition PIC2_DATA :: u16 where "PIC2_DATA = 0xA1"

text \<open>The two functions the kernel registers as interrupt handlers.\<close>

datatype irq_fn = Pit_handler | Keyboard_handler

record idt_state =
  idt :: "idt_entry list"
  idtr :: idt_ptr
  irq_handlers :: "irq_fn option list"
  interrupts_on :: bool

definition irq_register :: "u8 \<Rightarrow> irq_fn \<Rightarrow> idt_state \<Rightarrow> idt_state" where
  "irq_register irq handler s =
     (if irq < 16 then s\<lparr>irq_handlers := (irq_handlers s)[unat irq := Some handler]\<rparr> else s)"

definition pic_remap :: "u8 \<Rightarrow> u8 \<Rightarrow> io_log" where
  "pic_remap m1 m2 =
     [OutB PIC1_CMD 0x11, OutB PIC2_CMD 0x11, OutB PIC1_DATA 0x20, OutB PIC2_DATA 0x28,
      OutB PIC1_DATA 0x04, OutB PIC2_DATA 0x02, OutB PIC1_DATA 0x01, OutB PIC2_DATA 0x01,
      OutB PIC1_DATA m1, OutB PIC2_DATA m2]"

definition idt_set_gate :: "u8 \<Rightarrow> u32 \<Rightarrow> u16 \<Rightarrow> u8 \<Rightarrow> idt_state \<Rightarrow> idt_state" where
  "idt_set_gate n base sel flags s = s\<lparr>idt := (idt s)[unat n :=
     \<lparr>id_base_low = ucast (base AND 0xFFFF), id_selector = sel, id_zero = 0, id_flags = flags,
      id_base_high = ucast (drop_bit 16 base AND 0xFFFF)\<rparr>]\<rparr>"

definition exceptions :: "string list" where
  "exceptions =
     [''Division By Zero'', ''Debug'', ''Non Maskable Interrupt'', ''Breakpoint'', ''Overflow'',
      ''Out of Bounds'', ''Invalid Opcode'', ''No Coprocessor'', ''Double Fault'',
      ''Coprocessor Segment Overrun'', ''Bad TSS'', ''Segment Not Present'', ''Stack Fault'',
      ''General Protection Fault'', ''Page Fault'', ''Unknown Interrupt'', ''Coprocessor Fault'',
      ''Alignment Check'', ''Machine Check'', ''Reserved'', ''Reserved'', ''Reserved'', ''Reserved'',
      ''Reserved'', ''Reserved'', ''Reserved'', ''Reserved'', ''Reserved'', ''Reserved'', ''Reserved'',
      ''Reserved'', ''Reserved'']"

text \<open>
  The exception handler never returns: the result is what the screen shows when \<open>kpanic\<close> halts
  the processor. \<open>cr2\<close> is the faulting address the processor reports.
\<close>

definition isr_handler :: "registers \<Rightarrow> u32 \<Rightarrow> vga \<Rightarrow> vga" where
  "isr_handler r cr2 s =
     (if reg_int_no r = 14 then
        (let s = vga_set_color VGA_COLOR_LIGHT_RED s;
             s = kprint (lit ''\<newline>[PAGE FAULT] addr='') s;
             s = kprint_hex cr2 s;
             s = kprint (lit ''  err='') s;
             s = kprint_hex (reg_err_code r) s;
             s = kprint (lit ''  eip='') s;
             s = kprint_hex (reg_eip r) s;
             s = kprint (lit ''\<newline>  '') s;
             s = kprint (if reg_err_code r AND 1 \<noteq> 0 then lit ''protection '' else lit ''not-present '') s;
             s = kprint (if reg_err_code r AND 2 \<noteq> 0 then lit ''write '' else lit ''read '') s;
             s = kprint (if reg_err_code r AND 4 \<noteq> 0 then lit ''user'' else lit ''kernel'') s;
             s = kprint (lit ''\<newline>'') s
         in kpanic ''Page fault'' '''' s)
      else
        (let s = vga_set_color VGA_COLOR_YELLOW s;
             s = kprint (lit ''ISR HIT: '') s;
             s = kprint_int (reg_int_no r) s;
             s = kprint (lit ''\<newline>'') s;
             exc_name = (if reg_int_no r < 32 then exceptions ! unat (reg_int_no r) else ''Unknown'')
         in kpanic ''EXCEPTION: '' exc_name s))"

text \<open>The end-of-interrupt commands and the registered handler that runs, if any.\<close>

definition irq_handler :: "registers \<Rightarrow> idt_state \<Rightarrow> io_log \<times> irq_fn option" where
  "irq_handler r s =
     ((if reg_int_no r \<ge> 40 then [OutB PIC2_CMD 0x20] else []) @ [OutB PIC1_CMD 0x20],
      (let irq = ucast (reg_int_no r - 32) :: u8 in
       if irq < 16 then irq_handlers s ! unat irq else None))"

definition idt_entry_zero :: idt_entry where
  "idt_entry_zero = \<lparr>id_base_low = 0, id_selector = 0, id_zero = 0, id_flags = 0, id_base_high = 0\<rparr>"

definition idt_flush :: "idt_ptr \<Rightarrow> idt_state \<Rightarrow> idt_state" where
  "idt_flush p s = s\<lparr>idtr := p\<rparr>"

definition idt_init :: "u32 \<Rightarrow> (nat \<Rightarrow> u32) \<Rightarrow> (nat \<Rightarrow> u32) \<Rightarrow> u8 \<Rightarrow> u8 \<Rightarrow> idt_state \<Rightarrow> io_log \<times> idt_state" where
  "idt_init idt_addr isr irq m1 m2 s =
     (let p = \<lparr>ip_limit = ucast (8 * of_nat IDT_ENTRIES - 1 :: u32), ip_base = idt_addr\<rparr>;
          s = s\<lparr>idt := replicate IDT_ENTRIES idt_entry_zero\<rparr>;
          s = fold (\<lambda>i. idt_set_gate (of_nat i) (isr i) 0x08 0x8E) [0..<32] s;
          s = fold (\<lambda>i. idt_set_gate (of_nat (32 + i)) (irq i) 0x08 0x8E) [0..<16] s;
          s = idt_set_gate 128 (isr 128) 0x08 0xEE s;
          s = idt_flush p s
      in (pic_remap m1 m2, s\<lparr>interrupts_on := True\<rparr>))"

section \<open>Gates as the processor reads them\<close>

definition gate_offset :: "idt_entry \<Rightarrow> u32" where
  "gate_offset e = ucast (id_base_low e) OR push_bit 16 (ucast (id_base_high e))"

definition gate_present :: "idt_entry \<Rightarrow> bool" where "gate_present e \<longleftrightarrow> bit (id_flags e) 7"

definition gate_dpl :: "idt_entry \<Rightarrow> u8" where "gate_dpl e = drop_bit 5 (id_flags e) AND 3"

lemma gate_offset_set:
  "(ucast (ucast (base AND 0xFFFF :: u32) :: u16) :: u32) OR push_bit 16 (ucast (ucast (drop_bit 16 base AND 0xFFFF) :: u16)) = base"
proof (rule bit_word_eqI)
  fix n assume n: "n < LENGTH(32)"
  have m: "(0xFFFF :: u32) = mask 16" by (simp add: mask_eq_exp_minus_1)
  show "bit (ucast (ucast (base AND 0xFFFF) :: u16) OR push_bit 16 (ucast (ucast (drop_bit 16 base AND 0xFFFF) :: u16)) :: u32) n = bit base n"
    unfolding m using n by (auto simp: bit_simps not_less)
qed

definition gate :: "u32 \<Rightarrow> u8 \<Rightarrow> idt_entry" where
  "gate base flags = \<lparr>id_base_low = ucast (base AND 0xFFFF), id_selector = 0x08, id_zero = 0, id_flags = flags,
      id_base_high = ucast (drop_bit 16 base AND 0xFFFF)\<rparr>"

lemma set_gates:
  assumes "length (idt s) = 256" "k + n \<le> 256"
  shows "length (idt (fold (\<lambda>i. idt_set_gate (of_nat (k + i)) (h i) 0x08 fl) [0..<n] s)) = 256"
    and "j < 256 \<Longrightarrow> idt (fold (\<lambda>i. idt_set_gate (of_nat (k + i)) (h i) 0x08 fl) [0..<n] s) ! j =
      (if k \<le> j \<and> j < k + n then gate (h (j - k)) fl else idt s ! j)"
proof -
  have "length (idt (fold (\<lambda>i. idt_set_gate (of_nat (k + i)) (h i) 0x08 fl) [0..<n] s)) = 256 \<and>
    (\<forall>j < 256. idt (fold (\<lambda>i. idt_set_gate (of_nat (k + i)) (h i) 0x08 fl) [0..<n] s) ! j =
      (if k \<le> j \<and> j < k + n then gate (h (j - k)) fl else idt s ! j))"
    using assms(2)
  proof (induction n)
    case 0
    then show ?case using assms(1) by auto
  next
    case (Suc n)
    have "k + n < 2 ^ 8" using Suc.prems by simp
    then have u: "unat (of_nat (k + n) :: u8) = k + n" by (simp add: unat_of_nat del: of_nat_add)
    show ?case using Suc u
      by (auto simp: idt_set_gate_def gate_def [symmetric] nth_list_update simp del: of_nat_add)
  qed
  then show "length (idt (fold (\<lambda>i. idt_set_gate (of_nat (k + i)) (h i) 0x08 fl) [0..<n] s)) = 256"
    "j < 256 \<Longrightarrow> idt (fold (\<lambda>i. idt_set_gate (of_nat (k + i)) (h i) 0x08 fl) [0..<n] s) ! j =
      (if k \<le> j \<and> j < k + n then gate (h (j - k)) fl else idt s ! j)" by blast+
qed

lemma gate_reads:
  "gate_offset (gate b f) = b" "id_selector (gate b f) = 8"
  "gate_present (gate b 0x8E)" "gate_dpl (gate b 0x8E) = 0" "gate_present (gate b 0xEE)" "gate_dpl (gate b 0xEE) = 3"
  "\<not> gate_present idt_entry_zero"
  by (simp_all add: gate_offset_def gate_def gate_offset_set gate_present_def gate_dpl_def idt_entry_zero_def)

section \<open>Properties\<close>

text \<open>
  C34: after \<open>idt_init\<close> the processor finds, for each vector, the stub the code means: the 32
  exceptions, the 16 hardware interrupts from vector 32 on, where \<open>pic_remap\<close> puts them, and
  the system call at 128. These are the only gates that are present, they all enter the
  kernel code segment, and only the one of the system call can be called from user mode.
\<close>

theorem idt_init_gates:
  assumes "idt_init idt_addr isr irq m1 m2 s = (io, s')" "n < 256"
  shows "(gate_present (idt s' ! n) \<longleftrightarrow> n < 48 \<or> n = 128) \<and>
    (gate_present (idt s' ! n) \<longrightarrow> gate_offset (idt s' ! n) = (if n < 32 then isr n else if n < 48 then irq (n - 32) else isr 128) \<and>
      id_selector (idt s' ! n) = 0x08 \<and> gate_dpl (idt s' ! n) = (if n = 128 then 3 else 0))"
proof -
  let ?s0 = "s\<lparr>idt := replicate IDT_ENTRIES idt_entry_zero\<rparr>"
  let ?s1 = "fold (\<lambda>i. idt_set_gate (of_nat (0 + i)) (isr i) 0x08 0x8E) [0..<32] ?s0"
  let ?s2 = "fold (\<lambda>i. idt_set_gate (of_nat (32 + i)) (irq i) 0x08 0x8E) [0..<16] ?s1"
  have l0: "length (idt ?s0) = 256" "idt ?s0 ! n = idt_entry_zero" using assms(2) by (simp_all add: IDT_ENTRIES_def)
  note a = set_gates [OF l0(1), where k = 0 and n = 32 and h = isr and fl = "0x8E"]
  note b = set_gates [where s = ?s1 and k = 32 and n = 16 and h = irq and fl = "0x8E"]
  have e: "idt s' = (idt ?s2)[128 := gate (isr 128) 0xEE]"
    using assms(1) unfolding idt_init_def idt_flush_def Let_def by (auto simp: idt_set_gate_def gate_def)
  have "idt s' ! n = (if n = 128 then gate (isr 128) 0xEE else if n < 32 then gate (isr n) 0x8E
    else if n < 48 then gate (irq (n - 32)) 0x8E else idt_entry_zero)"
    unfolding e using a(1) a(2) [OF _ assms(2)] b(1) b(2) [OF _ _ assms(2)] assms(2) l0(2) by (simp add: nth_list_update del: upt.simps)
  then show ?thesis by (simp add: gate_reads)
qed

theorem idt_init_gates_witness:
  "gate_offset (idt (snd (idt_init 0x120000 (\<lambda>n. 0x101000 + of_nat n) (\<lambda>n. 0x102000 + of_nat n) 0 0
     \<lparr>idt = [], idtr = \<lparr>ip_limit = 0, ip_base = 0\<rparr>, irq_handlers = replicate 16 None, interrupts_on = False\<rparr>)) ! 33) = 0x102001"
proof -
  let ?r = "idt_init 0x120000 (\<lambda>n. 0x101000 + of_nat n) (\<lambda>n. 0x102000 + of_nat n) 0 0
     \<lparr>idt = [], idtr = \<lparr>ip_limit = 0, ip_base = 0\<rparr>, irq_handlers = replicate 16 None, interrupts_on = False\<rparr>"
  show ?thesis using idt_init_gates [of "0x120000" "\<lambda>n. 0x101000 + of_nat n" "\<lambda>n. 0x102000 + of_nat n" 0 0 _ "fst ?r" "snd ?r" 33]
    by simp
qed

end
