(* ===== verification/Keyboard.thy ===== *)
theory Keyboard
  imports Vga
begin

text \<open>
  The keyboard driver (\<open>drivers/keyboard.c\<close>): scan code translation with the shift state and the
  circular input buffer. The scan code read from the data port is an argument of the handler.
\<close>

section \<open>Model\<close>

definition KEYBOARD_BUF_SIZE :: nat where "KEYBOARD_BUF_SIZE = 256"

definition sc_ascii :: cstring where
  "sc_ascii =
     [0, 0] @ lit ''1234567890-='' @ [8, 9] @ lit ''qwertyuiop[]'' @ [10, 0] @ lit ''asdfghjkl;'' @
     [39, 96, 0, 92] @ lit ''zxcvbnm,./'' @ [0] @ lit ''*'' @ [0] @ lit '' '' @ replicate 13 0 @
     lit ''789-456+1230.'' @ replicate 4 0"

definition sc_ascii_shift :: cstring where
  "sc_ascii_shift =
     [0, 0] @ lit ''!@#$%^&*()_+'' @ [8, 9] @ lit ''QWERTYUIOP{}'' @ [10, 0] @ lit ''ASDFGHJKL:'' @
     [34, 126, 0] @ lit ''|ZXCVBNM<>?'' @ [0] @ lit ''*'' @ [0] @ lit '' '' @ replicate 13 0 @
     lit ''789-456+1230.'' @ replicate 4 0"

record keyboard =
  kb_buf :: "u8 list"
  kb_head :: u8
  kb_tail :: u8
  kb_shift :: bool

text \<open>The indices are bytes, so that stepping modulo 256 is word addition.\<close>

definition kb_buf_push :: "u8 \<Rightarrow> keyboard \<Rightarrow> keyboard" where
  "kb_buf_push c s =
     (let nxt = kb_head s + 1 in
      if nxt \<noteq> kb_tail s then s\<lparr>kb_buf := (kb_buf s)[unat (kb_head s) := c], kb_head := nxt\<rparr> else s)"

definition keyboard_handler :: "u8 \<Rightarrow> keyboard \<Rightarrow> keyboard" where
  "keyboard_handler sc s =
     (if sc AND 0x80 \<noteq> 0 then
        (let released = sc AND 0x7F in
         if released = 0x2A \<or> released = 0x36 then s\<lparr>kb_shift := False\<rparr> else s)
      else if sc = 0x2A \<or> sc = 0x36 then s\<lparr>kb_shift := True\<rparr>
      else if unat sc < length sc_ascii then
        (let c = (if kb_shift s then sc_ascii_shift ! unat sc else sc_ascii ! unat sc) in
         if c \<noteq> 0 then kb_buf_push c s else s)
      else s)"

definition keyboard_getchar :: "keyboard \<Rightarrow> u8 \<times> keyboard" where
  "keyboard_getchar s =
     (if kb_head s = kb_tail s then (0, s)
      else (kb_buf s ! unat (kb_tail s), s\<lparr>kb_tail := kb_tail s + 1\<rparr>))"

text \<open>Nothing to configure.\<close>

definition keyboard_init :: "keyboard \<Rightarrow> keyboard" where "keyboard_init s = s"

section \<open>The buffer is a queue\<close>

text \<open>Reading several characters.\<close>

fun get_many :: "('s \<Rightarrow> u8 \<times> 's) \<Rightarrow> nat \<Rightarrow> 's \<Rightarrow> u8 list \<times> 's" where
  "get_many get 0 s = ([], s)"
| "get_many get (Suc n) s = (let (c, s) = get s; (cs, s) = get_many get n s in (c # cs, s))"

text \<open>
  A bounded queue as its clients see it: \<open>put\<close> appends unless the queue is full and then drops the
  character, \<open>get\<close> takes the oldest one and answers 0 when there is none.
\<close>

locale char_queue =
  fixes put :: "u8 \<Rightarrow> 's \<Rightarrow> 's"
    and get :: "'s \<Rightarrow> u8 \<times> 's"
    and contents :: "'s \<Rightarrow> u8 list"
    and ok :: "'s \<Rightarrow> bool"
    and capacity :: nat
  assumes put_ok: "ok s \<Longrightarrow> ok (put c s)"
    and put_contents: "ok s \<Longrightarrow> contents (put c s) = take capacity (contents s @ [c])"
    and get_ok: "ok s \<Longrightarrow> get s = (c, s') \<Longrightarrow> ok s'"
    and get_empty: "ok s \<Longrightarrow> contents s = [] \<Longrightarrow> get s = (0, s)"
    and get_first: "ok s \<Longrightarrow> contents s = c # cs \<Longrightarrow> \<exists>s'. get s = (c, s') \<and> contents s' = cs"
    and bounded: "ok s \<Longrightarrow> length (contents s) \<le> capacity"
begin

lemma put_many:
  assumes "ok s"
  shows "ok (fold put cs s) \<and> contents (fold put cs s) = take capacity (contents s @ cs)"
  using assms
proof (induction cs arbitrary: s)
  case Nil
  then show ?case using bounded by simp
next
  case (Cons c cs)
  have "take capacity (take capacity (contents s @ [c]) @ cs) = take capacity (contents s @ c # cs)"
    using bounded [OF Cons.prems] by (cases "length (contents s) = capacity") simp_all
  then show ?case using Cons.IH [OF put_ok [OF Cons.prems]] put_contents [OF Cons.prems] by simp
qed

lemma get_all: "ok s \<Longrightarrow> \<exists>s'. get_many get (length (contents s)) s = (contents s, s') \<and> contents s' = [] \<and> ok s'"
proof (induction "contents s" arbitrary: s)
  case Nil
  from Nil(1) [symmetric] Nil(2) show ?case by simp
next
  case (Cons c cs)
  obtain s1 where g: "get s = (c, s1)" "contents s1 = cs" using get_first [OF Cons.prems Cons(2) [symmetric]] by blast
  obtain s' where "get_many get (length cs) s1 = (cs, s')" "contents s' = []" "ok s'"
    using Cons.hyps(1) [of s1] g get_ok [OF Cons.prems g(1)] by auto
  then show ?case using g(1) by (subst (1 2) Cons(2) [symmetric]) simp
qed

lemma fifo:
  assumes "ok s" "contents s = []" "length cs \<le> capacity"
  shows "\<exists>s'. get_many get (length cs) (fold put cs s) = (cs, s') \<and> contents s' = []"
  using put_many [OF assms(1), of cs] get_all [of "fold put cs s"] assms(2,3) by auto

end

text \<open>The characters between the two indices, oldest first; one cell always stays unused.\<close>

definition kb_pending :: "keyboard \<Rightarrow> nat" where
  "kb_pending s = unat (kb_head s - kb_tail s)"

definition kb_contents :: "keyboard \<Rightarrow> u8 list" where
  "kb_contents s = map (\<lambda>i. kb_buf s ! unat (kb_tail s + of_nat i)) [0..<kb_pending s]"

definition kb_ok :: "keyboard \<Rightarrow> bool" where
  "kb_ok s \<longleftrightarrow> length (kb_buf s) = KEYBOARD_BUF_SIZE"

lemma unat_of_nat_u8: "n < 256 \<Longrightarrow> unat (of_nat n :: u8) = n"
  by (simp add: unat_of_nat take_bit_nat_eq_self)

lemma unat_u8_less [simp]: "unat (x :: u8) < 256"
  using unsigned_less [of x] by simp

lemma kb_pending_less: "kb_pending s < 256"
  by (simp add: kb_pending_def)

lemma kb_full_iff: "kb_head s + 1 = kb_tail s \<longleftrightarrow> kb_pending s = 255"
proof -
  have "kb_head s + 1 = kb_tail s \<longleftrightarrow> kb_head s - kb_tail s = - 1" by (auto simp: algebra_simps)
  also have "(- 1 :: u8) = 255" by simp
  also have "kb_head s - kb_tail s = 255 \<longleftrightarrow> kb_pending s = 255" by (simp add: kb_pending_def word_unat_eq_iff)
  finally show ?thesis .
qed

lemma kb_empty_iff: "kb_head s = kb_tail s \<longleftrightarrow> kb_pending s = 0"
  by (simp add: kb_pending_def unat_eq_0)

lemma kb_push_contents:
  assumes "kb_ok s"
  shows "kb_contents (kb_buf_push c s) = take 255 (kb_contents s @ [c])"
proof (cases "kb_pending s = 255")
  case True
  then show ?thesis using kb_full_iff [of s] by (simp add: kb_buf_push_def kb_contents_def Let_def)
next
  case False
  let ?n = "kb_pending s" and ?s = "kb_buf_push c s"
  have lt: "?n < 255" using False kb_pending_less [of s] by simp
  have s: "?s = s\<lparr>kb_buf := (kb_buf s)[unat (kb_head s) := c], kb_head := kb_head s + 1\<rparr>"
    using False kb_full_iff [of s] by (simp add: kb_buf_push_def Let_def)
  have p: "kb_pending ?s = Suc ?n"
  proof -
    have "unat (kb_head s - kb_tail s + 1) = unat (kb_head s - kb_tail s) + 1"
      using lt unfolding kb_pending_def by (subst unat_word_ariths) simp
    then show ?thesis unfolding s kb_pending_def by (simp add: algebra_simps)
  qed
  have h: "kb_tail s + of_nat ?n = kb_head s" by (simp add: kb_pending_def)
  have "kb_head s \<noteq> kb_tail s + of_nat i" if "i < ?n" for i
  proof
    assume "kb_head s = kb_tail s + of_nat i"
    then have "(of_nat i :: u8) = of_nat ?n" using h by (metis add_left_cancel)
    then show False using that lt unat_of_nat_u8 [of i] unat_of_nat_u8 [of ?n] by simp
  qed
  then have "map (\<lambda>i. kb_buf ?s ! unat (kb_tail ?s + of_nat i)) [0..<?n] = kb_contents s"
    unfolding kb_contents_def s by (intro map_cong) (simp_all add: nth_list_update_neq word_unat_eq_iff [of "kb_head s"])
  moreover have "kb_buf ?s ! unat (kb_tail ?s + of_nat ?n) = c"
    unfolding s using h assms by (simp add: kb_ok_def KEYBOARD_BUF_SIZE_def)
  ultimately have "kb_contents ?s = kb_contents s @ [c]" by (simp add: kb_contents_def [of ?s] p)
  then show ?thesis using lt by (simp add: kb_contents_def)
qed

lemma kb_getchar_contents:
  "keyboard_getchar s = (case kb_contents s of [] \<Rightarrow> (0, s) | c # cs \<Rightarrow> (c, s\<lparr>kb_tail := kb_tail s + 1\<rparr>))"
  "kb_contents s = c # cs \<Longrightarrow> kb_contents (s\<lparr>kb_tail := kb_tail s + 1\<rparr>) = cs"
proof -
  let ?s = "s\<lparr>kb_tail := kb_tail s + 1\<rparr>"
  have c: "kb_contents s = kb_buf s ! unat (kb_tail s) # kb_contents ?s" if "kb_pending s \<noteq> 0"
  proof -
    have "unat (kb_head s - kb_tail s - 1) = unat (kb_head s - kb_tail s) - 1"
      using that unfolding kb_pending_def by (intro unat_minus_one) auto
    then have "kb_pending s = Suc (kb_pending ?s)" using that by (simp add: kb_pending_def algebra_simps)
    then show ?thesis by (simp add: kb_contents_def upt_conv_Cons map_Suc_upt [symmetric] algebra_simps del: upt_Suc)
  qed
  show "keyboard_getchar s = (case kb_contents s of [] \<Rightarrow> (0, s) | c # cs \<Rightarrow> (c, ?s))"
    using c by (cases "kb_pending s = 0") (auto simp: keyboard_getchar_def kb_empty_iff kb_contents_def)
  show "kb_contents s = c # cs \<Longrightarrow> kb_contents ?s = cs"
    using c by (cases "kb_pending s = 0") (auto simp: kb_contents_def)
qed

interpretation kbd: char_queue kb_buf_push keyboard_getchar kb_contents kb_ok 255
proof
  fix s c s' cs assume ok: "kb_ok s"
  then show "kb_ok (kb_buf_push c s)" by (simp add: kb_ok_def kb_buf_push_def Let_def)
  show "kb_contents (kb_buf_push c s) = take 255 (kb_contents s @ [c])" by (rule kb_push_contents [OF ok])
  show "keyboard_getchar s = (c, s') \<Longrightarrow> kb_ok s'" using ok by (auto simp: keyboard_getchar_def kb_ok_def split: if_splits)
  show "kb_contents s = [] \<Longrightarrow> keyboard_getchar s = (0, s)" by (simp add: kb_getchar_contents)
  show "kb_contents s = c # cs \<Longrightarrow> \<exists>s'. keyboard_getchar s = (c, s') \<and> kb_contents s' = cs"
    using kb_getchar_contents by simp
  show "length (kb_contents s) \<le> 255" using kb_pending_less [of s] by (simp add: kb_contents_def)
qed

section \<open>Properties\<close>

text \<open>
  The character a key press stands for, given the shift state; None for a release, a shift key and
  the keys without a character.
\<close>

definition key_char :: "bool \<Rightarrow> u8 \<Rightarrow> u8 option" where
  "key_char shift sc =
     (let c = (if shift then sc_ascii_shift else sc_ascii) ! unat sc in
      if sc < 88 \<and> sc \<noteq> 0x2A \<and> sc \<noteq> 0x36 \<and> c \<noteq> 0 then Some c else None)"

text \<open>The shift state after a scan code.\<close>

definition key_shift :: "bool \<Rightarrow> u8 \<Rightarrow> bool" where
  "key_shift shift sc =
     (if sc \<in> {0x2A, 0x36} then True else if sc \<in> {0xAA, 0xB6} then False else shift)"

fun typed :: "bool \<Rightarrow> u8 list \<Rightarrow> u8 list" where
  "typed shift [] = []"
| "typed shift (sc # scs) = (case key_char shift sc of None \<Rightarrow> [] | Some c \<Rightarrow> [c]) @ typed (key_shift shift sc) scs"

lemma sc_ascii_length [simp]: "length sc_ascii = 88" "length sc_ascii_shift = 88"
  by (simp_all add: sc_ascii_def sc_ascii_shift_def lit_def)

lemma high_bit: "(sc :: u8) AND 0x80 = 0 \<longleftrightarrow> sc < 128"
proof -
  have "sc AND 2 ^ 7 = 0 \<longleftrightarrow> \<not> bit sc 7" by (rule and_exp_eq_0_iff_not_bit)
  also have "\<dots> \<longleftrightarrow> even (unat sc div 128)"

  proof -
    have "bit (unat sc) 7 = bit sc 7" by (simp add: bit_simps)
    then show ?thesis by (auto simp: bit_iff_odd [of "unat sc"])
  qed
  also have "\<dots> \<longleftrightarrow> unat sc < 128"
  proof -
    have "unat sc div 128 < 2" using unat_u8_less [of sc] by (simp add: div_less_iff_less_mult)
    then show ?thesis by (auto simp: less_2_cases_iff div_eq_0_iff)
  qed
  finally show ?thesis by (simp add: word_less_nat_alt)
qed

lemma low_bits: "\<not> (sc :: u8) < 128 \<Longrightarrow> k < 128 \<Longrightarrow> sc AND 0x7F = k \<longleftrightarrow> sc = k + 0x80"
proof -
  assume h: "\<not> sc < 128" and k: "k < 128"
  have "sc AND 0x7F = take_bit 7 sc" by (simp add: take_bit_eq_mask mask_eq_exp_minus_1)
  then have "unat (sc AND 0x7F) = unat sc mod 128" by (simp add: take_bit_eq_mod unat_mod)
  moreover have "unat (k + 0x80) = unat k + 128" using k by (subst unat_word_ariths) (simp add: word_less_nat_alt)
  moreover have "unat sc mod 128 = unat sc - 128"
  proof -
    have "unat sc - 128 < 128" using unat_u8_less [of sc] by linarith
    then show ?thesis using h by (subst le_mod_geq) (simp_all add: word_less_nat_alt)
  qed
  ultimately show ?thesis using h by (auto simp: word_unat_eq_iff word_less_nat_alt)
qed

lemma keyboard_handler_alt:
  "keyboard_handler sc s =
     (case key_char (kb_shift s) sc of None \<Rightarrow> s | Some c \<Rightarrow> kb_buf_push c s)\<lparr>kb_shift := key_shift (kb_shift s) sc\<rparr>"
proof (cases "sc < 128")
  case True
  then have "sc \<noteq> 0xAA" "sc \<noteq> 0xB6" by auto
  moreover have "unat sc < 88 \<longleftrightarrow> sc < 88" by (simp add: word_less_nat_alt)
  ultimately show ?thesis using True high_bit [of sc]
    by (auto simp: keyboard_handler_def key_char_def key_shift_def kb_buf_push_def Let_def)
next
  case False
  have "\<not> sc < 88" using False by (simp add: word_less_nat_alt)
  then show ?thesis using False high_bit [of sc] low_bits [OF False, of "0x2A"] low_bits [OF False, of "0x36"]
    by (auto simp: keyboard_handler_def key_char_def key_shift_def Let_def)
qed

lemma keyboard_handlers:
  assumes "kb_ok s"
  shows "kb_ok (fold keyboard_handler scs s) \<and>
    kb_contents (fold keyboard_handler scs s) = take 255 (kb_contents s @ typed (kb_shift s) scs)"
  using assms
proof (induction scs arbitrary: s)
  case Nil
  then show ?case using kbd.bounded by simp
next
  case (Cons sc scs)
  let ?cs = "case key_char (kb_shift s) sc of None \<Rightarrow> [] | Some c \<Rightarrow> [c]"
  have h: "keyboard_handler sc s = (fold kb_buf_push ?cs s)\<lparr>kb_shift := key_shift (kb_shift s) sc\<rparr>"
    by (simp add: keyboard_handler_alt split: option.splits)
  have c: "kb_contents (t\<lparr>kb_shift := b\<rparr>) = kb_contents t" "kb_ok (t\<lparr>kb_shift := b\<rparr>) = kb_ok t" for t b
    by (simp_all add: kb_contents_def kb_pending_def kb_ok_def)
  have p: "kb_ok (fold kb_buf_push ?cs s)" "kb_contents (fold kb_buf_push ?cs s) = take 255 (kb_contents s @ ?cs)"
    using kbd.put_many [OF Cons.prems] by blast+
  have l: "length (kb_contents s) \<le> 255" by (rule kbd.bounded [OF Cons.prems])
  have "take 255 (take 255 (kb_contents s @ ?cs) @ xs) = take 255 (kb_contents s @ ?cs @ xs)" for xs
    using l by (cases "length (kb_contents s) = 255") (auto split: option.splits)
  then show ?case using Cons.IH [of "keyboard_handler sc s"] p c h by simp
qed

text \<open>
  C27: what is typed is what is read. After any sequence of scan codes that starts with an empty
  buffer and stands for at most 255 characters, reading yields these characters, in order and
  with the shift state each key was pressed under, and then nothing.
\<close>

theorem keyboard_delivers_typed:
  assumes "kb_ok s" "kb_contents s = []" "length (typed (kb_shift s) scs) \<le> 255"
  shows "\<exists>s'. get_many keyboard_getchar (length (typed (kb_shift s) scs)) (fold keyboard_handler scs s) =
      (typed (kb_shift s) scs, s') \<and> keyboard_getchar s' = (0, s')"
  using keyboard_handlers [OF assms(1), of scs] kbd.get_all [of "fold keyboard_handler scs s"] kbd.get_empty assms(2,3)
  by auto

definition keyboard_zero :: keyboard where
  "keyboard_zero = \<lparr>kb_buf = replicate KEYBOARD_BUF_SIZE 0, kb_head = 0, kb_tail = 0, kb_shift = False\<rparr>"

text \<open>Shift down, h, shift up, i, i released.\<close>

theorem keyboard_delivers_typed_witness:
  "\<exists>s'. get_many keyboard_getchar 2 (fold keyboard_handler [0x2A, 0x23, 0xAA, 0x17, 0x97] keyboard_zero) = (lit ''Hi'', s')"
proof -
  have t: "typed (kb_shift keyboard_zero) [0x2A, 0x23, 0xAA, 0x17, 0x97] = lit ''Hi''"
    by (simp add: keyboard_zero_def key_char_def key_shift_def sc_ascii_def sc_ascii_shift_def lit_def Let_def)
  have z: "kb_ok keyboard_zero" "kb_contents keyboard_zero = []" "length (lit ''Hi'') = 2"
    by (simp_all add: keyboard_zero_def kb_ok_def kb_contents_def kb_pending_def lit_def)
  from keyboard_delivers_typed [OF z(1,2), of "[0x2A, 0x23, 0xAA, 0x17, 0x97]", unfolded t z(3)] show ?thesis by auto
qed

end
