(* ===== verification/Ramfs.thy ===== *)
theory Ramfs
  imports Vga
begin

text \<open>
  The file table of \<open>kernel/ramfs.c\<close>: 16 entries that name byte ranges in memory. A C string is
  the list of its characters; reading past the end of the list yields the terminating NUL. The
  result of a function that returns an \<open>int\<close> index or -1 is an integer.
\<close>

section \<open>Model\<close>

definition RAMFS_MAX_FILES :: nat where "RAMFS_MAX_FILES = 16"
definition RAMFS_MAX_NAME_LEN :: nat where "RAMFS_MAX_NAME_LEN = 32"

record ramfs_file =
  f_name :: cstring
  f_data :: u32
  f_size :: u32
  f_in_use :: bool

type_synonym ramfs = "ramfs_file list"

definition char_at :: "cstring \<Rightarrow> nat \<Rightarrow> u8" where
  "char_at s n = (if n < length s then s ! n else 0)"

fun str_eq :: "cstring \<Rightarrow> cstring \<Rightarrow> bool" where
  "str_eq (a # as) (b # bs) =
     (if a \<noteq> 0 \<and> b \<noteq> 0 then (if a \<noteq> b then False else str_eq as bs) else a = b)"
| "str_eq [] (b # bs) = (b = 0)"
| "str_eq (a # as) [] = (a = 0)"
| "str_eq [] [] = True"

function str_len_from :: "cstring \<Rightarrow> nat \<Rightarrow> nat" where
  "str_len_from s n = (if char_at s n \<noteq> 0 \<and> n < RAMFS_MAX_NAME_LEN - 1 then str_len_from s (n + 1) else n)"
  by pat_completeness auto
termination by (relation "measure (\<lambda>(s, n). RAMFS_MAX_NAME_LEN - n)") auto

declare str_len_from.simps [simp del]

definition str_len :: "cstring \<Rightarrow> nat" where "str_len s = str_len_from s 0"

definition ramfs_init :: "ramfs \<Rightarrow> ramfs" where
  "ramfs_init fs = map (\<lambda>f. f\<lparr>f_in_use := False\<rparr>) fs"

fun find_from :: "(ramfs_file \<Rightarrow> bool) \<Rightarrow> nat \<Rightarrow> ramfs \<Rightarrow> nat option" where
  "find_from P i [] = None"
| "find_from P i (f # fs) = (if P f then Some i else find_from P (Suc i) fs)"

definition ramfs_lookup :: "cstring \<Rightarrow> ramfs \<Rightarrow> int" where
  "ramfs_lookup name fs =
     (case find_from (\<lambda>f. f_in_use f \<and> str_eq (f_name f) name) 0 fs of Some i \<Rightarrow> int i | None \<Rightarrow> -1)"

definition copy_name :: "cstring \<Rightarrow> nat \<Rightarrow> cstring \<Rightarrow> cstring" where
  "copy_name name len dst = fold (\<lambda>j d. d[j := char_at name j]) [0..<len + 1] dst"

definition ramfs_register :: "cstring \<Rightarrow> u32 \<Rightarrow> u32 \<Rightarrow> ramfs \<Rightarrow> int \<times> ramfs" where
  "ramfs_register name data sz fs =
     (let len = str_len name in
      if len = 0 \<or> char_at name len \<noteq> 0 then (-1, fs)
      else if ramfs_lookup name fs \<ge> 0 then (-1, fs)
      else
        (case find_from (\<lambda>f. \<not> f_in_use f) 0 fs of
           Some i \<Rightarrow> (int i, fs[i := \<lparr>f_name = copy_name name len (f_name (fs ! i)), f_data = data,
                                      f_size = sz, f_in_use = True\<rparr>])
         | None \<Rightarrow> (-1, fs)))"

definition ramfs_get :: "int \<Rightarrow> ramfs \<Rightarrow> ramfs_file option" where
  "ramfs_get index fs =
     (if index < 0 \<or> index \<ge> int RAMFS_MAX_FILES then None
      else if \<not> f_in_use (fs ! nat index) then None
      else Some (fs ! nat index))"

definition ramfs_capacity :: nat where "ramfs_capacity = RAMFS_MAX_FILES"

section \<open>Names\<close>

text \<open>A C string up to its NUL.\<close>

definition cname :: "cstring \<Rightarrow> cstring" where "cname s = takeWhile (\<lambda>c. c \<noteq> 0) s"

lemma str_eq_iff: "str_eq a b \<longleftrightarrow> cname a = cname b"
  by (induction a b rule: str_eq.induct) (auto simp: cname_def)

lemma char_at_cname: "n < length (cname s) \<Longrightarrow> char_at s n \<noteq> 0" "char_at s (length (cname s)) = 0"
proof -
  show "n < length (cname s) \<Longrightarrow> char_at s n \<noteq> 0"
    unfolding cname_def char_at_def using nth_mem [of n "takeWhile (\<lambda>c. c \<noteq> 0) s"] length_takeWhile_le [of "\<lambda>c. c \<noteq> 0" s]
    by (auto simp: takeWhile_nth dest: set_takeWhileD)
  show "char_at s (length (cname s)) = 0"
    unfolding cname_def char_at_def using nth_length_takeWhile [of "\<lambda>c. c \<noteq> 0" s] by auto
qed

lemma str_len_from: "n \<le> min (length (cname s)) 31 \<Longrightarrow> str_len_from s n = min (length (cname s)) 31"
proof (induction s n rule: str_len_from.induct)
  case (1 s n)
  show ?case
  proof (cases "n < min (length (cname s)) 31")
    case True
    then have "char_at s n \<noteq> 0" using char_at_cname(1) by simp
    then show ?thesis using 1 True by (subst str_len_from.simps) (simp add: RAMFS_MAX_NAME_LEN_def)
  next
    case False
    then have "n = min (length (cname s)) 31" using 1(2) by linarith
    then have "n = length (cname s) \<or> n = 31" by linarith
    then show ?thesis using \<open>n = min (length (cname s)) 31\<close> char_at_cname(2) [of s]
      by (subst str_len_from.simps) (auto simp: RAMFS_MAX_NAME_LEN_def)
  qed
qed

lemma str_len: "str_len s = min (length (cname s)) 31"
  by (simp add: str_len_def str_len_from)

text \<open>The names \<open>ramfs_register\<close> accepts.\<close>

definition valid_name :: "cstring \<Rightarrow> bool" where
  "valid_name s \<longleftrightarrow> cname s \<noteq> [] \<and> length (cname s) < RAMFS_MAX_NAME_LEN"

lemma name_check: "str_len s = 0 \<or> char_at s (str_len s) \<noteq> 0 \<longleftrightarrow> \<not> valid_name s"
  using char_at_cname(1) [of 31 s] char_at_cname(2) [of s]
  by (auto simp: str_len valid_name_def RAMFS_MAX_NAME_LEN_def min_def)

lemma copy_name_nth:
  "j < length dst \<Longrightarrow> copy_name name len dst ! j = (if j \<le> len then char_at name j else dst ! j)"
proof -
  have "length (fold (\<lambda>j d. d[j := char_at name j]) [0..<n] dst) = length dst \<and>
    (\<forall>j < length dst. fold (\<lambda>j d. d[j := char_at name j]) [0..<n] dst ! j = (if j < n then char_at name j else dst ! j))" for n
    by (induction n) (auto simp: nth_list_update less_Suc_eq)
  from this [of "len + 1"] show "j < length dst \<Longrightarrow> ?thesis" by (simp add: copy_name_def less_Suc_eq_le)
qed

lemma copy_name_length [simp]: "length (copy_name name len dst) = length dst"
proof -
  have "length (fold (\<lambda>j d. d[j := char_at name j]) xs d) = length d" for xs and d :: cstring
    by (induction xs arbitrary: d) simp_all
  then show ?thesis by (simp add: copy_name_def)
qed

lemma cname_copy:
  assumes "valid_name name" "length dst = RAMFS_MAX_NAME_LEN"
  shows "cname (copy_name name (str_len name) dst) = cname name"
proof -
  let ?d = "copy_name name (str_len name) dst" and ?n = "length (cname name)"
  have n: "str_len name = ?n" "?n < 32" using assms(1) by (auto simp: str_len valid_name_def RAMFS_MAX_NAME_LEN_def)
  have e: "?d ! j = char_at name j" if "j \<le> ?n" for j
    using that n copy_name_nth [of j dst name "str_len name"] assms(2) by (simp add: RAMFS_MAX_NAME_LEN_def)
  have l: "?n < length ?d" using n assms(2) by (simp add: RAMFS_MAX_NAME_LEN_def)
  have "takeWhile (\<lambda>c. c \<noteq> 0) ?d = take ?n ?d"
    using e char_at_cname(1) [of _ name] char_at_cname(2) [of name] l by (intro takeWhile_eq_take_P_nth) auto
  also have "\<dots> = cname name"
  proof (rule nth_equalityI)
    show "length (take ?n ?d) = length (cname name)" using l by simp
    fix i assume "i < length (take ?n ?d)"
    then have i: "i < ?n" by simp
    then have "i < length name" using length_takeWhile_le [of "\<lambda>c. c \<noteq> 0" name] by (simp add: cname_def)
    then show "take ?n ?d ! i = cname name ! i" using i e [of i] by (simp add: char_at_def cname_def takeWhile_nth)
  qed
  finally show ?thesis by (simp add: cname_def)
qed

section \<open>The table\<close>

lemma find_from_None: "find_from P i fs = None \<longleftrightarrow> (\<forall>f \<in> set fs. \<not> P f)"
  by (induction fs arbitrary: i) auto

lemma find_from_Some: "find_from P i fs = Some j \<Longrightarrow> i \<le> j \<and> j < i + length fs \<and> P (fs ! (j - i))"
  by (induction fs arbitrary: i) (force simp: nth_Cons' split: if_splits)+

lemma find_from_cong:
  "length fs = length fs' \<Longrightarrow> (\<And>l. l < length fs \<Longrightarrow> P (fs ! l) = P (fs' ! l)) \<Longrightarrow> find_from P i fs = find_from P i fs'"
proof (induction fs arbitrary: fs' i)
  case Nil
  then show ?case by simp
next
  case (Cons f fs)
  then obtain f' fs'' where fs': "fs' = f' # fs''" by (cases fs') auto
  have "P (fs ! l) = P (fs'' ! l)" if "l < length fs" for l using Cons.prems(2) [of "Suc l"] that fs' by simp
  then show ?case using Cons.IH [of fs''] Cons.prems(1) Cons.prems(2) [of 0] fs' by simp
qed

lemma find_from_unique:
  "j < length fs \<Longrightarrow> P (fs ! j) \<Longrightarrow> (\<And>l. l < j \<Longrightarrow> \<not> P (fs ! l)) \<Longrightarrow> find_from P i fs = Some (i + j)"
proof (induction fs arbitrary: i j)
  case Nil
  then show ?case by simp
next
  case (Cons f fs)
  show ?case
  proof (cases j)
    case 0
    then show ?thesis using Cons.prems by simp
  next
    case (Suc j')
    have "\<not> P (fs ! l)" if "l < j'" for l using Cons.prems(3) [of "Suc l"] that Suc by simp
    then show ?thesis using Cons.IH [of j' "Suc i"] Cons.prems Suc Cons.prems(3) [of 0] by simp
  qed
qed

definition fs_ok :: "ramfs \<Rightarrow> bool" where
  "fs_ok fs \<longleftrightarrow> length fs = RAMFS_MAX_FILES \<and> (\<forall>f \<in> set fs. length (f_name f) = RAMFS_MAX_NAME_LEN)"

lemma ramfs_lookup_neg: "ramfs_lookup n fs < 0 \<longleftrightarrow> (\<forall>f \<in> set fs. \<not> (f_in_use f \<and> cname (f_name f) = cname n))"
  using find_from_None [of "\<lambda>f. f_in_use f \<and> cname (f_name f) = cname n" 0 fs]
  by (auto simp: ramfs_lookup_def str_eq_iff split: option.splits)

section \<open>Properties\<close>

text \<open>
  C28: \<open>ramfs_register\<close> accepts exactly a name of 1 to 31 characters that is not taken, while an
  entry is unused; otherwise it answers -1 and changes nothing. After it accepted a
  name, looking up that name yields the returned index, the entry at that index has the
  data and the size, and every other name and entry is as before.
\<close>

theorem ramfs_register_lookup:
  assumes ok: "fs_ok fs" and r: "ramfs_register name data sz fs = (r, fs')"
  shows "if valid_name name \<and> ramfs_lookup name fs < 0 \<and> (\<exists>f \<in> set fs. \<not> f_in_use f)
    then 0 \<le> r \<and> r < int RAMFS_MAX_FILES \<and> fs_ok fs' \<and>
      (\<forall>n. ramfs_lookup n fs' = (if cname n = cname name then r else ramfs_lookup n fs)) \<and>
      (\<exists>f. ramfs_get r fs' = Some f \<and> cname (f_name f) = cname name \<and> f_data f = data \<and> f_size f = sz) \<and>
      (\<forall>i. i \<noteq> r \<longrightarrow> ramfs_get i fs' = ramfs_get i fs)
    else r = -1 \<and> fs' = fs"
proof (cases "valid_name name \<and> ramfs_lookup name fs < 0 \<and> (\<exists>f \<in> set fs. \<not> f_in_use f)")
  case False
  then show ?thesis using r find_from_None [of "\<lambda>f. \<not> f_in_use f" 0 fs]
    by (auto simp: ramfs_register_def Let_def name_check split: if_splits option.splits)
next
  case True
  then obtain j where j: "find_from (\<lambda>f. \<not> f_in_use f) 0 fs = Some j"
    using find_from_None [of "\<lambda>f. \<not> f_in_use f" 0 fs] by auto
  let ?f = "\<lparr>f_name = copy_name name (str_len name) (f_name (fs ! j)), f_data = data, f_size = sz, f_in_use = True\<rparr>"
  have rj: "r = int j" "fs' = fs[j := ?f]" using r True j by (auto simp: ramfs_register_def Let_def name_check)
  have jl: "j < length fs" "\<not> f_in_use (fs ! j)" using find_from_Some [OF j] by auto
  have dl: "length (f_name (fs ! j)) = RAMFS_MAX_NAME_LEN" using ok jl by (simp add: fs_ok_def)
  have nm: "cname (f_name ?f) = cname name" using cname_copy [OF _ dl] True by simp
  have ok': "fs_ok fs'" using ok dl unfolding rj fs_ok_def by (auto dest: set_update_subset_insert [THEN subsetD])
  have lk: "ramfs_lookup n fs' = (if cname n = cname name then r else ramfs_lookup n fs)" for n
  proof (cases "cname n = cname name")
    case eq: True
    have "find_from (\<lambda>f. f_in_use f \<and> cname (f_name f) = cname n) 0 fs' = Some (0 + j)"
    proof (rule find_from_unique)
      show "j < length fs'" using jl rj by simp
      show "f_in_use (fs' ! j) \<and> cname (f_name (fs' ! j)) = cname n" using jl rj nm eq by simp
      fix l assume "l < j"
      then show "\<not> (f_in_use (fs' ! l) \<and> cname (f_name (fs' ! l)) = cname n)"
        using True eq jl rj by (auto simp: ramfs_lookup_neg)
    qed
    then show ?thesis using eq rj by (simp add: ramfs_lookup_def str_eq_iff)
  next
    case ne: False
    have "find_from (\<lambda>f. f_in_use f \<and> cname (f_name f) = cname n) 0 fs' = find_from (\<lambda>f. f_in_use f \<and> cname (f_name f) = cname n) 0 fs"
      using ne nm jl by (intro find_from_cong) (auto simp: rj nth_list_update)
    then show ?thesis using ne by (simp add: ramfs_lookup_def str_eq_iff)
  qed
  have get: "ramfs_get i fs' = (if i = r then Some ?f else ramfs_get i fs)" for i
    using jl ok rj by (auto simp: ramfs_get_def fs_ok_def nth_list_update nat_eq_iff)
  have "r < int RAMFS_MAX_FILES" "0 \<le> r" using rj jl ok by (auto simp: fs_ok_def)
  then show ?thesis using True ok' lk get nm by simp
qed

definition fs_empty :: ramfs where
  "fs_empty = replicate RAMFS_MAX_FILES \<lparr>f_name = replicate RAMFS_MAX_NAME_LEN 0, f_data = 0, f_size = 0, f_in_use = False\<rparr>"

theorem ramfs_register_lookup_witness:
  "\<exists>r fs'. ramfs_register (lit ''test.elf'') 0x110000 400 fs_empty = (r, fs') \<and> 0 \<le> r \<and> ramfs_lookup (lit ''test.elf'') fs' = r"
proof -
  have ok: "fs_ok fs_empty" by (simp add: fs_ok_def fs_empty_def)
  have v: "valid_name (lit ''test.elf'')" by (simp add: valid_name_def cname_def lit_def RAMFS_MAX_NAME_LEN_def)
  have n: "ramfs_lookup (lit ''test.elf'') fs_empty < 0" unfolding ramfs_lookup_neg by (simp add: fs_empty_def)
  have e: "\<exists>f \<in> set fs_empty. \<not> f_in_use f" by (simp add: fs_empty_def RAMFS_MAX_FILES_def)
  obtain r fs' where r: "ramfs_register (lit ''test.elf'') 0x110000 400 fs_empty = (r, fs')" by (metis surj_pair)
  show ?thesis using ramfs_register_lookup [OF ok r] v n e r by simp
qed

end
