(* ===== verification/Elf.thy ===== *)
theory Elf
  imports Paging
begin

text \<open>
  The ELF32 loader (\<open>kernel/elf.c\<close>). The image is read in place from memory at the offsets of the
  packed headers of \<open>kernel/elf.h\<close>; a null program header pointer is 0.
\<close>

section \<open>Model\<close>

definition ELF_MAGIC :: u32 where "ELF_MAGIC = 0x464C457F"
definition ELF_CLASS_32 :: u8 where "ELF_CLASS_32 = 1"
definition ELF_DATA_LE :: u8 where "ELF_DATA_LE = 1"
definition ELF_TYPE_EXEC :: u16 where "ELF_TYPE_EXEC = 2"
definition ELF_MACHINE_386 :: u16 where "ELF_MACHINE_386 = 3"
definition PT_LOAD :: u32 where "PT_LOAD = 1"
definition PF_W :: u32 where "PF_W = 2"

definition eh_magic :: "mem \<Rightarrow> u32 \<Rightarrow> u32" where "eh_magic m d = load32 m d"
definition eh_class :: "mem \<Rightarrow> u32 \<Rightarrow> u8" where "eh_class m d = m (d + 4)"
definition eh_data :: "mem \<Rightarrow> u32 \<Rightarrow> u8" where "eh_data m d = m (d + 5)"
definition eh_type :: "mem \<Rightarrow> u32 \<Rightarrow> u16" where "eh_type m d = load16 m (d + 16)"
definition eh_machine :: "mem \<Rightarrow> u32 \<Rightarrow> u16" where "eh_machine m d = load16 m (d + 18)"
definition eh_entry :: "mem \<Rightarrow> u32 \<Rightarrow> u32" where "eh_entry m d = load32 m (d + 24)"
definition eh_phoff :: "mem \<Rightarrow> u32 \<Rightarrow> u32" where "eh_phoff m d = load32 m (d + 28)"
definition eh_phentsize :: "mem \<Rightarrow> u32 \<Rightarrow> u16" where "eh_phentsize m d = load16 m (d + 42)"
definition eh_phnum :: "mem \<Rightarrow> u32 \<Rightarrow> u16" where "eh_phnum m d = load16 m (d + 44)"

definition ph_type :: "mem \<Rightarrow> u32 \<Rightarrow> u32" where "ph_type m ph = load32 m ph"
definition ph_offset :: "mem \<Rightarrow> u32 \<Rightarrow> u32" where "ph_offset m ph = load32 m (ph + 4)"
definition ph_vaddr :: "mem \<Rightarrow> u32 \<Rightarrow> u32" where "ph_vaddr m ph = load32 m (ph + 8)"
definition ph_filesz :: "mem \<Rightarrow> u32 \<Rightarrow> u32" where "ph_filesz m ph = load32 m (ph + 16)"
definition ph_memsz :: "mem \<Rightarrow> u32 \<Rightarrow> u32" where "ph_memsz m ph = load32 m (ph + 20)"
definition ph_flags :: "mem \<Rightarrow> u32 \<Rightarrow> u32" where "ph_flags m ph = load32 m (ph + 24)"

definition sizeof_phdr :: u16 where "sizeof_phdr = 32"

text \<open>The entry point of a valid image; None where the C function returns 0.\<close>

definition elf32_validate :: "mem \<Rightarrow> u32 \<Rightarrow> u32 option" where
  "elf32_validate m data =
     (if eh_magic m data \<noteq> ELF_MAGIC then None
      else if eh_class m data \<noteq> ELF_CLASS_32 then None
      else if eh_data m data \<noteq> ELF_DATA_LE then None
      else if eh_type m data \<noteq> ELF_TYPE_EXEC then None
      else if eh_machine m data \<noteq> ELF_MACHINE_386 then None
      else if eh_phentsize m data \<noteq> sizeof_phdr then None
      else if eh_phnum m data = 0 then None
      else Some (eh_entry m data))"

definition elf32_get_phdr :: "mem \<Rightarrow> u32 \<Rightarrow> u32 \<Rightarrow> u32" where
  "elf32_get_phdr m data i =
     (if i \<ge> ucast (eh_phnum m data) then 0
      else data + eh_phoff m data + i * ucast (eh_phentsize m data))"

definition elf32_phdr_count :: "mem \<Rightarrow> u32 \<Rightarrow> u32" where
  "elf32_phdr_count m data = ucast (eh_phnum m data)"

definition zero_page :: "u32 \<Rightarrow> mem \<Rightarrow> mem" where
  "zero_page dst m = fold (\<lambda>j m. m(dst + of_nat j := 0)) [0..<4096] m"

definition copy_bytes :: "u32 \<Rightarrow> u32 \<Rightarrow> nat \<Rightarrow> mem \<Rightarrow> mem" where
  "copy_bytes dst src n m = fold (\<lambda>j m. m(dst + of_nat j := m (src + of_nat j))) [0..<n] m"

text \<open>The part of the page at \<open>va\<close> that comes from the file.\<close>

definition load_page :: "u32 \<Rightarrow> u32 \<Rightarrow> u32 \<Rightarrow> u32 \<Rightarrow> mem \<Rightarrow> mem" where
  "load_page data ph va frame m =
     (let page_va_start = va;
          page_va_end = va + PAGE_SIZE;
          seg_va_start = ph_vaddr m ph;
          seg_va_end = ph_vaddr m ph + ph_filesz m ph;
          copy_start = (if page_va_start > seg_va_start then page_va_start else seg_va_start);
          copy_end = (if page_va_end < seg_va_end then page_va_end else seg_va_end)
      in if copy_start < copy_end then
           copy_bytes (frame + (copy_start - page_va_start)) (data + (ph_offset m ph + (copy_start - ph_vaddr m ph)))
             (unat (copy_end - copy_start)) m
         else m)"

text \<open>
  The page loop of one segment. Its bounds are page aligned, and then the second conjunct of the guard
  follows from the first; it is there for the termination proof at other arguments.
\<close>

function load_segment :: "u32 \<Rightarrow> u32 \<Rightarrow> u32 \<Rightarrow> u32 \<Rightarrow> u32 \<Rightarrow> u32 \<Rightarrow> pmm \<Rightarrow> mem \<Rightarrow> (bool \<times> pmm \<times> mem) res" where
  "load_segment data pd_phys ph flags seg_end va p m =
     (if va < seg_end \<and> unat va + 4096 < 2 ^ 32 then
        (let (frame, p) = pmm_alloc_frame p in
         if frame = 0 then Inr (False, p, m)
         else
           (let m = zero_page frame m;
                m = load_page data ph va frame m
            in bindR (paging_map_into pd_phys va frame flags p m)
                 (\<lambda>(p, m). load_segment data pd_phys ph flags seg_end (va + PAGE_SIZE) p m)))
      else Inr (True, p, m))"
  by pat_completeness auto
termination
proof (relation "measure (\<lambda>(data, pd_phys, ph, flags, seg_end, va, p, m). 2 ^ 32 - unat va)")
  show "((data, pd_phys, ph, flags, seg_end, va + PAGE_SIZE, p', m'), data, pd_phys, ph, flags, seg_end, va, p, m)
    \<in> measure (\<lambda>(data, pd_phys, ph, flags, seg_end, va, p, m). 2 ^ 32 - unat va)"
    if "va < seg_end \<and> unat va + 4096 < 2 ^ 32" for data pd_phys ph flags seg_end va :: u32 and p p' :: pmm and m m' :: mem
    using that by (auto simp: PAGE_SIZE_def unat_add_nowrap)
qed simp

declare load_segment.simps [simp del]

fun load_phdrs :: "u32 \<Rightarrow> u32 \<Rightarrow> nat list \<Rightarrow> pmm \<Rightarrow> mem \<Rightarrow> (bool \<times> pmm \<times> mem) res" where
  "load_phdrs data pd_phys [] p m = Inr (True, p, m)"
| "load_phdrs data pd_phys (i # is) p m =
     (let ph = elf32_get_phdr m data (of_nat i) in
      if ph = 0 \<or> ph_type m ph \<noteq> PT_LOAD then load_phdrs data pd_phys is p m
      else if ph_memsz m ph = 0 then load_phdrs data pd_phys is p m
      else
        (let seg_start = table_of (ph_vaddr m ph);
             seg_end = table_of (ph_vaddr m ph + ph_memsz m ph + 0xFFF);
             flags = PTE_PRESENT OR PTE_USER;
             flags = (if ph_flags m ph AND PF_W \<noteq> 0 then flags OR PTE_WRITABLE else flags)
         in bindR (load_segment data pd_phys ph flags seg_end seg_start p m)
              (\<lambda>(ok, p, m). if ok then load_phdrs data pd_phys is p m else Inr (False, p, m))))"

definition elf32_load :: "u32 \<Rightarrow> u32 \<Rightarrow> pmm \<Rightarrow> mem \<Rightarrow> (bool \<times> pmm \<times> mem) res" where
  "elf32_load data pd_phys p m = load_phdrs data pd_phys [0..<unat (elf32_phdr_count m data)] p m"

section \<open>The bytes of a page\<close>

lemma copy_bytes_spec:
  assumes "\<forall>i < n. \<forall>j < n. src + of_nat i \<noteq> dst + of_nat j" "n < 2 ^ 32"
  shows "copy_bytes dst src n m a = (if unat (a - dst) < n then m (src + (a - dst)) else m a)"
  using assms
proof (induction n arbitrary: a)
  case 0
  then show ?case by (simp add: copy_bytes_def)
next
  case (Suc n)
  let ?m = "copy_bytes dst src n m"
  have IH: "?m x = (if unat (x - dst) < n then m (src + (x - dst)) else m x)" for x
    using Suc.IH Suc.prems by simp
  have s: "copy_bytes dst src (Suc n) m = ?m(dst + of_nat n := ?m (src + of_nat n))" by (simp add: copy_bytes_def)
  have u: "unat (of_nat n :: u32) = n" using Suc.prems(2) by (simp add: unat_of_nat_u32)
  have "\<not> unat (src + of_nat n - dst) < n"
  proof
    assume l: "unat (src + of_nat n - dst) < n"
    have "src + of_nat n = dst + of_nat (unat (src + of_nat n - dst))" by simp
    moreover have "src + of_nat n \<noteq> dst + of_nat (unat (src + of_nat n - dst))"
      using Suc.prems(1) [rule_format, of n "unat (src + of_nat n - dst)"] l by simp
    ultimately show False by contradiction
  qed
  then have v: "?m (src + of_nat n) = m (src + of_nat n)" using IH by simp
  show ?case
  proof (cases "a = dst + of_nat n")
    case True
    then show ?thesis unfolding s using v u by simp
  next
    case False
    have "unat (a - dst) \<noteq> n"
    proof
      assume "unat (a - dst) = n"
      then have "a - dst = of_nat n" by auto
      then show False using False by (simp add: algebra_simps)
    qed
    then show ?thesis unfolding s using False IH [of a] by auto
  qed
qed

lemma zero_page_spec: "zero_page dst m a = (if unat (a - dst) < 4096 then 0 else m a)"
proof -
  have "fold (\<lambda>j m. m(dst + of_nat j := 0)) [0..<n] m a = (if unat (a - dst) < n then 0 else m a)" if "n < 2 ^ 32" for n
    using that
  proof (induction n)
    case (Suc n)
    have u: "unat (of_nat n :: u32) = n" using Suc.prems by (simp add: unat_of_nat_u32)
    have "a = dst + of_nat n \<longleftrightarrow> unat (a - dst) = n"
    proof
      assume "unat (a - dst) = n"
      then have "a - dst = of_nat n" by auto
      then show "a = dst + of_nat n" by (simp add: algebra_simps)
    qed (simp add: u)
    then show ?case using Suc by auto
  qed simp
  from this [of 4096] show ?thesis by (simp add: zero_page_def)
qed

text \<open>The byte a segment has at the virtual address \<open>w\<close>: from the file, or zero.\<close>

definition segment_byte :: "mem \<Rightarrow> u32 \<Rightarrow> u32 \<Rightarrow> u32 \<Rightarrow> u8" where
  "segment_byte m data ph w =
     (if ph_vaddr m ph \<le> w \<and> w < ph_vaddr m ph + ph_filesz m ph then m (data + (ph_offset m ph + (w - ph_vaddr m ph))) else 0)"

lemma interval_unat:
  fixes w cs ce :: u32
  assumes "cs \<le> ce"
  shows "unat (w - cs) < unat (ce - cs) \<longleftrightarrow> cs \<le> w \<and> w < ce"
proof (cases "cs \<le> w")
  case True
  then show ?thesis using assms by (auto simp: word_le_nat_alt word_less_nat_alt unat_sub_nowrap)
next
  case False
  then have "unat (cs - w) = unat cs - unat w" "unat w < unat cs" by (simp_all add: word_le_nat_alt unat_sub_nowrap)
  moreover have "w - cs = - (cs - w)" by simp
  ultimately have "unat (w - cs) = 2 ^ 32 - (unat cs - unat w)" using unat_uminus_u32 [of "cs - w"] by simp
  then show ?thesis using False assms unat_u32_less [of ce] \<open>unat w < unat cs\<close>
    by (simp add: word_le_nat_alt unat_sub_nowrap)
qed

lemma load_page_spec:
  assumes al: "unat va + 4096 < 2 ^ 32" and nw: "unat (ph_vaddr m ph) + unat (ph_filesz m ph) < 2 ^ 32"
    and src: "\<And>w. ph_vaddr m ph \<le> w \<Longrightarrow> w < ph_vaddr m ph + ph_filesz m ph \<Longrightarrow>
      \<not> unat (data + (ph_offset m ph + (w - ph_vaddr m ph)) - frame) < 4096"
    and z: "\<And>x. unat (x - frame) < 4096 \<Longrightarrow> m x = 0"
  shows "load_page data ph va frame m a =
    (if unat (a - frame) < 4096 then segment_byte m data ph (va + (a - frame)) else m a)"
proof -
  define v e off where "v = ph_vaddr m ph" and "e = ph_vaddr m ph + ph_filesz m ph" and "off = ph_offset m ph"
  define cs ce where "cs = (if va > v then va else v)" and "ce = (if va + PAGE_SIZE < e then va + PAGE_SIZE else e)"
  have pe: "unat (va + PAGE_SIZE) = unat va + 4096" using al by (simp add: PAGE_SIZE_def unat_add_nowrap)
  have lp: "load_page data ph va frame m = (if cs < ce then copy_bytes (frame + (cs - va)) (data + (off + (cs - v))) (unat (ce - cs)) m else m)"
    by (simp add: load_page_def Let_def v_def e_def off_def cs_def ce_def)
  define w where "w = va + (a - frame)"
  have ww: "unat w = unat va + unat (a - frame)" "va \<le> w \<and> w < va + PAGE_SIZE" if "unat (a - frame) < 4096"
    using that al pe by (auto simp: w_def unat_add_nowrap word_le_nat_alt word_less_nat_alt)
  have seg: "segment_byte m data ph w = (if v \<le> w \<and> w < e then m (data + (off + (w - v))) else 0)"
    by (simp add: segment_byte_def v_def e_def off_def)
  show ?thesis
  proof (cases "cs < ce")
    case False
    have "\<not> (v \<le> w \<and> w < e)" if "unat (a - frame) < 4096"
      using ww [OF that] False by (auto simp: cs_def ce_def word_le_nat_alt word_less_nat_alt split: if_splits)
    then show ?thesis using False lp z [of a] unfolding w_def [symmetric] seg by auto
  next
    case True
    have b: "va \<le> cs" "v \<le> cs" "ce \<le> va + PAGE_SIZE" "ce \<le> e"
      by (auto simp: cs_def ce_def word_le_nat_alt word_less_nat_alt)
    have l: "unat (ce - cs) = unat ce - unat cs" "unat cs < unat ce" using True by (simp_all add: unat_sub_nowrap word_less_nat_alt)
    have l4: "unat (ce - cs) \<le> 4096" "unat (cs - va) + unat (ce - cs) \<le> 4096"
      using b l pe by (auto simp: word_le_nat_alt unat_sub_nowrap)
    have ne: "data + (off + (cs - v)) + of_nat i \<noteq> frame + (cs - va) + of_nat j" if "i < unat (ce - cs)" "j < unat (ce - cs)" for i j
    proof
      assume eq: "data + (off + (cs - v)) + of_nat i = frame + (cs - va) + of_nat j"
      have u: "unat (of_nat i :: u32) = i" "unat (of_nat j :: u32) = j" using that l4(1) by (simp_all add: unat_of_nat_u32)
      define x where "x = cs + of_nat i"
      have x: "unat x = unat cs + i" using that l u(1) unat_u32_less [of ce] by (simp add: x_def unat_add_nowrap)
      have "\<not> unat (data + (off + (x - v)) - frame) < 4096"
        using b x that l by (intro src [folded v_def e_def off_def]) (auto simp: word_le_nat_alt word_less_nat_alt)
      moreover have "data + (off + (x - v)) - frame = (cs - va) + of_nat j" using eq by (simp add: x_def algebra_simps)
      moreover have "unat ((cs - va) + of_nat j) = unat (cs - va) + j" using that l4 u(2) by (subst unat_add_nowrap) auto
      ultimately show False using that l4 by simp
    qed
    note cb = copy_bytes_spec [of "unat (ce - cs)" "data + (off + (cs - v))" "frame + (cs - va)" m a]
    have aw: "a - (frame + (cs - va)) = w - cs" by (simp add: w_def)
    have lp2: "load_page data ph va frame m a = (if unat (w - cs) < unat (ce - cs) then m (data + (off + (cs - v)) + (w - cs)) else m a)"
      using cb [unfolded aw] ne l4(1) True unfolding lp by auto
    have src_eq: "data + (off + (cs - v)) + (w - cs) = data + (off + (w - v))" by (simp add: algebra_simps)
    have iv: "unat (w - cs) < unat (ce - cs) \<longleftrightarrow> cs \<le> w \<and> w < ce" using True by (intro interval_unat) simp
    show ?thesis
    proof (cases "unat (a - frame) < 4096")
      case in_page: True
      have "cs \<le> w \<and> w < ce \<longleftrightarrow> v \<le> w \<and> w < e"
        using ww [OF in_page] by (auto simp: cs_def ce_def word_le_nat_alt word_less_nat_alt split: if_splits)
      then show ?thesis using in_page lp2 iv seg src_eq z [OF in_page] by (simp add: w_def)
    next
      case out: False
      have "\<not> unat (w - cs) < unat (ce - cs)"
      proof
        assume s: "unat (w - cs) < unat (ce - cs)"
        have "a - frame = (w - cs) + (cs - va)" by (simp add: w_def)
        moreover have "unat ((w - cs) + (cs - va)) = unat (w - cs) + unat (cs - va)" using s l4 by (subst unat_add_nowrap) auto
        ultimately show False using out s l4 by simp
      qed
      then show ?thesis using out lp2 by simp
    qed
  qed
qed

lemma or_low_add: "aligned 4096 t \<Longrightarrow> t OR (w AND 0xFFF) = t + (w AND 0xFFF)"
proof -
  assume "aligned 4096 t"
  then have t: "t = table_of t" by (simp add: table_of_aligned)
  have "t AND (w AND 0xFFF) = 0" by (subst t) (simp add: table_of_def low_mask, rule bit_word_eqI, auto simp: bit_simps)
  then show ?thesis by (simp add: disjunctive_add_eq_or)
qed

lemma page_offset: "w AND 0xFFF = w - table_of w" "unat (w AND 0xFFF) < 4096"
proof -
  have "table_of w OR (w AND 0xFFF) = table_of w + (w AND 0xFFF)" by (intro or_low_add) simp
  then show "w AND 0xFFF = w - table_of w" using table_of_offset [of w] by (simp add: algebra_simps)
  show "unat (w AND 0xFFF) < 4096" 
  proof -
    have "w AND 0xFFF = take_bit 12 w" unfolding low_mask by (simp add: take_bit_eq_mask)
    then show ?thesis using take_bit_nat_less_exp [of 12 "unat w"] by (simp add: unsigned_take_bit_eq)
  qed
qed

section \<open>Loading a segment\<close>

text \<open>
  What the loader does to an address space between two states: it takes frames from the allocator, writes to
  these and to the page tables only, and changes no translation outside the pages \<open>R\<close> except for the user bit. If
  these pages lie above the first 32 MB, it leaves the entries and tables of the first 32 MB alone.
\<close>

definition table_bytes :: "mem \<Rightarrow> u32 \<Rightarrow> nat set" where
  "table_bytes m pd = \<Union> (page_bytes ` pd_pages m pd)"

definition space_ok :: "u32 \<Rightarrow> pmm \<Rightarrow> mem \<Rightarrow> bool" where
  "space_ok pd p m \<longleftrightarrow> wf_pd m pd \<and> owned (pd_pages m pd) p \<and> pmm_inv p"

definition low_bytes :: "mem \<Rightarrow> u32 \<Rightarrow> nat set" where
  "low_bytes m pd = (\<Union>i \<in> {i. i < 8 \<and> present (pde m pd i)}. page_bytes (table_of (pde m pd i)))"

definition low_same :: "u32 \<Rightarrow> mem \<Rightarrow> mem \<Rightarrow> bool" where
  "low_same pd m m' \<longleftrightarrow> (\<forall>i < 8. pde m' pd i = pde m pd i) \<and> agree (low_bytes m pd) m' m"

lemma low_same_refl [simp]: "low_same pd m m"
  by (simp add: low_same_def)

lemma low_same_trans: "low_same pd m m1 \<Longrightarrow> low_same pd m1 m2 \<Longrightarrow> low_same pd m m2"
proof -
  assume a: "low_same pd m m1" "low_same pd m1 m2"
  then have "low_bytes m1 pd = low_bytes m pd" unfolding low_same_def low_bytes_def by auto
  then show ?thesis using a agree_trans [of "low_bytes m pd" m2 m1 m] unfolding low_same_def by simp
qed

definition loader_step :: "u32 \<Rightarrow> u32 set \<Rightarrow> pmm \<Rightarrow> mem \<Rightarrow> pmm \<Rightarrow> mem \<Rightarrow> bool" where
  "loader_step pd R p m p' m' \<longleftrightarrow> space_ok pd p' m' \<and> free_set p' \<subseteq> free_set p \<and>
     (\<forall>x \<in> table_bytes m' pd. x \<in> table_bytes m pd \<or> x div 4096 \<in> free_set p) \<and>
     agree {x. x \<notin> table_bytes m pd \<and> x div 4096 \<notin> free_set p} m' m \<and>
     (\<forall>w. w \<notin> R \<longrightarrow> map_option (can_user_update (\<lambda>_. False)) (translate m' pd w) = map_option (can_user_update (\<lambda>_. False)) (translate m pd w)) \<and>
     ((\<forall>w \<in> R. 8 \<le> unat (pd_index w)) \<longrightarrow> low_same pd m m')"

text \<open>The page of \<open>w\<close> is mapped to a frame in use that holds \<open>b\<close> there, writable at most if \<open>W\<close>.\<close>

definition mapped :: "u32 \<Rightarrow> pmm \<Rightarrow> mem \<Rightarrow> u32 \<Rightarrow> u8 \<Rightarrow> bool \<Rightarrow> bool" where
  "mapped pd p m w b W \<longleftrightarrow> (\<exists>a. translate m pd w = Some a \<and> m (phys_addr a) = b \<and> (can_write a \<longrightarrow> W) \<and>
     unat (phys_addr a) \<notin> table_bytes m pd \<and> unat (phys_addr a) div 4096 \<notin> free_set p)"

lemma loader_step_refl: "space_ok pd p m \<Longrightarrow> loader_step pd R p m p m"
  by (auto simp: loader_step_def)

lemma loader_step_trans:
  assumes "loader_step pd R p m p1 m1" "loader_step pd R' p1 m1 p2 m2"
  shows "loader_step pd (R \<union> R') p m p2 m2"
proof -
  have s1: "free_set p1 \<subseteq> free_set p" "\<forall>x \<in> table_bytes m1 pd. x \<in> table_bytes m pd \<or> x div 4096 \<in> free_set p"
    "agree {x. x \<notin> table_bytes m pd \<and> x div 4096 \<notin> free_set p} m1 m" using assms(1) by (simp_all add: loader_step_def)
  have s2: "free_set p2 \<subseteq> free_set p1" "\<forall>x \<in> table_bytes m2 pd. x \<in> table_bytes m1 pd \<or> x div 4096 \<in> free_set p1"
    "agree {x. x \<notin> table_bytes m1 pd \<and> x div 4096 \<notin> free_set p1} m2 m1" using assms(2) by (simp_all add: loader_step_def)
  have "{x. x \<notin> table_bytes m pd \<and> x div 4096 \<notin> free_set p} \<subseteq> {x. x \<notin> table_bytes m1 pd \<and> x div 4096 \<notin> free_set p1}"
    using s1 by blast
  then have "agree {x. x \<notin> table_bytes m pd \<and> x div 4096 \<notin> free_set p} m2 m"
    using agree_trans [OF agree_subset [OF s2(3)] s1(3)] by blast
  moreover have "low_same pd m m2" if "\<forall>w \<in> R \<union> R'. 8 \<le> unat (pd_index w)"
    using assms that low_same_trans [of pd m m1 m2] by (simp add: loader_step_def)
  ultimately show ?thesis using assms s1 s2 unfolding loader_step_def by (auto 4 3)
qed

lemma mapped_step:
  assumes st: "loader_step pd R p m p' m'" and w: "w \<notin> R" and mp: "mapped pd p m w b W"
  shows "mapped pd p' m' w b W"
proof -
  obtain a where a: "translate m pd w = Some a" "m (phys_addr a) = b" "can_write a \<longrightarrow> W"
    "unat (phys_addr a) \<notin> table_bytes m pd" "unat (phys_addr a) div 4096 \<notin> free_set p"
    using mp by (auto simp: mapped_def)
  have "map_option (can_user_update (\<lambda>_. False)) (translate m' pd w) = Some (a\<lparr>can_user := False\<rparr>)"
    using st w a(1) by (simp add: loader_step_def)
  then obtain a' where a': "translate m' pd w = Some a'" "a'\<lparr>can_user := False\<rparr> = a\<lparr>can_user := False\<rparr>"
    by (auto simp: map_option_eq_Some)
  have "phys_addr a' = phys_addr a" "can_write a' = can_write a"
    using arg_cong [OF a'(2), of phys_addr] arg_cong [OF a'(2), of can_write] by simp_all
  moreover have "m' (phys_addr a) = m (phys_addr a)" using st a(4,5) by (simp add: loader_step_def agree_def)
  moreover have "unat (phys_addr a) \<notin> table_bytes m' pd" "unat (phys_addr a) div 4096 \<notin> free_set p'"
    using st a(4,5) by (auto simp: loader_step_def)
  ultimately show ?thesis using a a'(1) by (auto simp: mapped_def)
qed

text \<open>The image: the bytes \<open>S\<close> hold what is read of the program header \<open>ph\<close> and of the segment.\<close>

definition segment_in :: "nat set \<Rightarrow> mem \<Rightarrow> u32 \<Rightarrow> u32 \<Rightarrow> bool" where
  "segment_in S m data ph \<longleftrightarrow> (\<forall>j < 32. unat (ph + of_nat j) \<in> S) \<and>
     unat (ph_vaddr m ph) + unat (ph_filesz m ph) < 2 ^ 32 \<and>
     (\<forall>w. ph_vaddr m ph \<le> w \<and> w < ph_vaddr m ph + ph_filesz m ph \<longrightarrow> unat (data + (ph_offset m ph + (w - ph_vaddr m ph))) \<in> S)"

lemma agree_load32_at: "agree S m' m \<Longrightarrow> \<forall>j < 4. unat (a + of_nat j) \<in> S \<Longrightarrow> load32 m' a = load32 m a"
  using spec [of "\<lambda>j. j < 4 \<longrightarrow> unat (a + of_nat j) \<in> S" 0] spec [of "\<lambda>j. j < 4 \<longrightarrow> unat (a + of_nat j) \<in> S" 1]
    spec [of "\<lambda>j. j < 4 \<longrightarrow> unat (a + of_nat j) \<in> S" 2] spec [of "\<lambda>j. j < 4 \<longrightarrow> unat (a + of_nat j) \<in> S" 3]
  by (intro load32_cong) (auto simp: agree_def)

lemma phdr_agree:
  assumes "agree S m' m" "\<forall>j < 32. unat (ph + of_nat j) \<in> S"
  shows "ph_type m' ph = ph_type m ph" "ph_offset m' ph = ph_offset m ph" "ph_vaddr m' ph = ph_vaddr m ph"
    "ph_filesz m' ph = ph_filesz m ph" "ph_memsz m' ph = ph_memsz m ph" "ph_flags m' ph = ph_flags m ph"
proof -
  have "load32 m' (ph + of_nat k) = load32 m (ph + of_nat k)" if "k + 4 \<le> 32" for k
  proof (rule agree_load32_at [OF assms(1)], intro allI impI)
    fix j :: nat assume "j < 4"
    then have "unat (ph + of_nat (k + j)) \<in> S" using assms(2) that by (intro assms(2) [rule_format]) simp
    then show "unat (ph + of_nat k + of_nat j) \<in> S" by (simp add: add.assoc)
  qed
  from this [of 0] this [of 4] this [of 8] this [of 16] this [of 20] this [of 24]
  show "ph_type m' ph = ph_type m ph" "ph_offset m' ph = ph_offset m ph" "ph_vaddr m' ph = ph_vaddr m ph"
    "ph_filesz m' ph = ph_filesz m ph" "ph_memsz m' ph = ph_memsz m ph" "ph_flags m' ph = ph_flags m ph"
    by (simp_all add: ph_type_def ph_offset_def ph_vaddr_def ph_filesz_def ph_memsz_def ph_flags_def)
qed

lemma segment_agree:
  assumes "agree S m' m" "segment_in S m data ph"
  shows "segment_in S m' data ph" "segment_byte m' data ph w = segment_byte m data ph w"
proof -
  note e = phdr_agree [OF assms(1)]
  have h: "\<forall>j < 32. unat (ph + of_nat j) \<in> S" using assms(2) by (simp add: segment_in_def)
  show "segment_in S m' data ph" using assms(2) unfolding segment_in_def e [OF h] .
  show "segment_byte m' data ph w = segment_byte m data ph w"
    using assms unfolding segment_byte_def e [OF h] by (auto simp: agree_def segment_in_def)
qed

text \<open>One turn of the page loop.\<close>

lemma fill_frame:
  assumes f: "aligned 4096 f" and va: "unat va + 4096 < 2 ^ 32" and seg: "segment_in S m data ph" and S: "S \<inter> page_bytes f = {}"
  defines "m1 \<equiv> load_page data ph va f (zero_page f m)"
  shows "agree (- page_bytes f) m1 m" and "unat x < 4096 \<Longrightarrow> m1 (f + x) = segment_byte m data ph (va + x)"
proof -
  have in_page: "unat a \<in> page_bytes f \<longleftrightarrow> unat (a - f) < 4096" for a
  proof -
    have room: "unat f + 4096 \<le> 2 ^ 32"
    proof -
      obtain q where "unat f = 4096 * q" using f by (auto simp: aligned_def elim: dvdE)
      then show ?thesis using unat_u32_less [of f] by simp
    qed
    show ?thesis
    proof (cases "f \<le> a")
      case True
      then show ?thesis by (auto simp: page_bytes_def word_le_nat_alt unat_sub_nowrap)
    next
      case False
      then have l: "unat a < unat f" by (simp add: word_le_nat_alt)
      then have "unat (f - a) = unat f - unat a" by (simp add: unat_sub_nowrap)
      moreover have "a - f = - (f - a)" by simp
      ultimately have "unat (a - f) = 2 ^ 32 - (unat f - unat a)" using l unat_uminus_u32 [of "f - a"] by simp
      then show ?thesis using l room by (simp add: page_bytes_def)
    qed
  qed
  let ?z = "zero_page f m"
  have az: "agree (- page_bytes f) ?z m" by (simp add: agree_def zero_page_spec in_page)
  then have aS: "agree S ?z m" by (rule agree_subset) (use S in blast)
  note g = segment_agree [OF aS seg]
  have src: "\<not> unat (data + (ph_offset ?z ph + (w - ph_vaddr ?z ph)) - f) < 4096"
    if "ph_vaddr ?z ph \<le> w" "w < ph_vaddr ?z ph + ph_filesz ?z ph" for w
    using g(1) that S in_page unfolding segment_in_def by blast
  have "load_page data ph va f ?z a = (if unat (a - f) < 4096 then segment_byte ?z data ph (va + (a - f)) else ?z a)" for a
    using g(1) by (intro load_page_spec [OF va _ src]) (auto simp: segment_in_def zero_page_spec)
  then have e: "m1 a = (if unat (a - f) < 4096 then segment_byte m data ph (va + (a - f)) else m a)" for a
    by (simp add: m1_def g(2) zero_page_spec)
  show "agree (- page_bytes f) m1 m" by (simp add: agree_def e in_page)
  show "unat x < 4096 \<Longrightarrow> m1 (f + x) = segment_byte m data ph (va + x)" by (simp add: e)
qed

definition image_apart :: "nat set \<Rightarrow> u32 \<Rightarrow> pmm \<Rightarrow> mem \<Rightarrow> bool" where
  "image_apart S pd p m \<longleftrightarrow> S \<inter> table_bytes m pd = {} \<and> (\<forall>x \<in> S. x div 4096 \<notin> free_set p)"

lemma image_apart_step: "loader_step pd R p m p' m' \<Longrightarrow> image_apart S pd p m \<Longrightarrow> image_apart S pd p' m' \<and> agree S m' m"
  unfolding loader_step_def image_apart_def by (auto simp: agree_def)

lemma load_one_page:
  assumes ok: "space_ok pd p m" and ap: "image_apart S pd p m" and seg: "segment_in S m data ph"
    and va: "aligned 4096 va" "unat va + 4096 < 2 ^ 32" and fl: "flags AND 0xFFF = flags" "present flags"
    and room: "2 \<le> card (free_set p)"
  shows "\<exists>f p1 p2 m2. pmm_alloc_frame p = (f, p1) \<and> f \<noteq> 0 \<and>
    paging_map_into pd va f flags p1 (load_page data ph va f (zero_page f m)) = Inr (p2, m2) \<and>
    loader_step pd {w. table_of w = va} p m p2 m2 \<and> card (free_set p) \<le> card (free_set p2) + 2 \<and>
    (\<forall>w. table_of w = va \<longrightarrow> mapped pd p2 m2 w (segment_byte m data ph w) (flags AND PTE_WRITABLE \<noteq> 0))"
proof -
  have wf: "wf_pd m pd" and own: "owned (pd_pages m pd) p" and inv: "pmm_inv p" using ok by (simp_all add: space_ok_def)
  have pda: "aligned 4096 pd" using wf by (simp add: wf_pd_def)
  have tal: "aligned 4096 t" if "t \<in> pd_pages m pd" for t using that pda by (auto simp: pd_pages_def pd_tables_def)
  have "free_set p \<noteq> {}" using room by auto
  then obtain f p1 where al: "pmm_alloc_frame p = (f, p1)" "f \<noteq> 0" using pmm.alloc_succeeds [OF inv] by blast
  note a = pmm.alloc_some [OF inv al]
  have pf: "x \<in> page_bytes f \<longleftrightarrow> x div 4096 = unat f div 4096" for x using a by (intro page_bytes_frame) simp
  have "S \<inter> page_bytes f = {}" using ap a pf by (auto simp: image_apart_def)
  note ff = fill_frame [OF conjunct1 [OF a] va(2) seg this]
  define m1 where "m1 = load_page data ph va f (zero_page f m)"
  have tf: "table_bytes m pd \<inter> page_bytes f = {}"
  proof -
    have "unat t div 4096 \<noteq> unat f div 4096" if "t \<in> pd_pages m pd" for t using own a that by (auto simp: owned_def)
    then show ?thesis using page_bytes_frame [OF tal] pf by (fastforce simp: table_bytes_def)
  qed
  have ag: "agree (- page_bytes f) m1 m" using ff(1) by (simp add: m1_def)
  then have "agree (\<Union> (page_bytes ` pd_pages m pd)) m1 m"
    by (rule agree_subset) (use tf in \<open>auto simp: table_bytes_def\<close>)
  note pa = pd_agree [OF this pda]
  have pg: "pd_pages m1 pd = pd_pages m pd" using pa(3) by (simp add: pd_pages_def)
  have wf1: "wf_pd m1 pd" and own1: "owned (pd_pages m1 pd) p1" and inv1: "pmm_inv p1"
    using pa(4) wf own a pg by (auto simp: owned_def)
  have "card (free_set p1) = card (free_set p) - 1" using a by simp
  then have ne1: "free_set p1 \<noteq> {}" using room by auto
  obtain p2 m2 t where g: "paging_map_into pd va f flags p1 m1 = Inr (p2, m2)" "pmm_inv p2" "wf_pd m2 pd"
    "pd_tables m2 pd = insert t (pd_tables m1 pd)" "free_set p2 = free_set p1 - {unat t div 4096}" "owned (pd_pages m2 pd) p2"
    "if present (pde m1 pd (unat (pd_index va))) then t = table_of (pde m1 pd (unat (pd_index va))) \<and> p2 = p1 else unat t div 4096 \<in> free_set p1"
    "\<forall>w. table_of w = table_of va \<longrightarrow> translate m2 pd w = Some \<lparr>phys_addr = table_of f OR (w AND 0xFFF),
      can_write = (flags AND PTE_WRITABLE \<noteq> 0 \<and> (present (pde m1 pd (unat (pd_index va))) \<longrightarrow>
        pde m1 pd (unat (pd_index va)) AND PDE_WRITABLE \<noteq> 0)), can_user = (flags AND PTE_USER \<noteq> 0)\<rparr>"
    "\<forall>w. table_of w \<noteq> table_of va \<longrightarrow> map_option (can_user_update (\<lambda>_. False)) (translate m2 pd w) =
      map_option (can_user_update (\<lambda>_. False)) (translate m1 pd w)"
    "\<forall>X. X \<inter> (page_bytes pd \<union> page_bytes t) = {} \<longrightarrow> agree X m2 m1"
    "\<forall>i. i < 1024 \<and> i \<noteq> unat (pd_index va) \<longrightarrow> pde m2 pd i = pde m1 pd i"
    using paging_map_into_spec [OF wf1 own1 inv1 disjI2 [OF ne1] fl, of va f] by (elim exE conjE) (rule that)
  have tt: "t \<in> pd_pages m pd \<or> unat t div 4096 \<in> free_set p1"
  proof (cases "present (pde m1 pd (unat (pd_index va)))")
    case True
    moreover have "unat (pd_index va) < 1024" using index_bounds(1) by simp
    ultimately have "t \<in> pd_tables m1 pd" using g(7) by (auto simp: pd_tables_def)
    then show ?thesis using pg by (auto simp: pd_pages_def)
  qed (use g(7) in simp)
  have "t \<in> pd_tables m2 pd" using g(4) by simp
  then have ta: "aligned 4096 t" by (auto simp: pd_tables_def)
  have tb2: "table_bytes m2 pd = page_bytes t \<union> table_bytes m pd" using g(4) pa(3) by (auto simp: table_bytes_def pd_pages_def)
  have tf2: "page_bytes t \<inter> page_bytes f = {}"
    using tt own a pf page_bytes_frame [OF ta] by (fastforce simp: owned_def)
  have pt: "x \<in> table_bytes m pd \<or> x div 4096 \<in> free_set p" if "x \<in> page_bytes t" for x
    using tt that page_bytes_frame [OF ta] a by (auto simp: table_bytes_def)
  have low: "low_same pd m m2" if high: "8 \<le> unat (pd_index va)"
  proof -
    have lb: "low_bytes m1 pd = low_bytes m pd" using pa(1) by (auto simp: low_bytes_def)
    have "page_bytes (table_of (pde m1 pd i)) \<inter> page_bytes t = {}" if i: "i < 8" "present (pde m1 pd i)" for i
    proof -
      have ti: "table_of (pde m1 pd i) \<in> pd_tables m1 pd" using i by (auto simp: pd_tables_def)
      have "table_of (pde m1 pd i) \<noteq> t"
      proof (cases "present (pde m1 pd (unat (pd_index va)))")
        case True
        have "unat (pd_index va) < 1024" "i \<noteq> unat (pd_index va)" using index_bounds(1) i high by simp_all
        then have "table_of (pde m1 pd i) \<noteq> table_of (pde m1 pd (unat (pd_index va)))"
          using wf1 i True by (auto simp: wf_pd_def inj_on_def)
        then show ?thesis using g(7) True by simp
      next
        case False
        then have "unat t div 4096 \<in> free_set p1" using g(7) by simp
        moreover have "unat (table_of (pde m1 pd i)) div 4096 \<notin> free_set p1" using own1 ti by (auto simp: owned_def pd_pages_def)
        ultimately show ?thesis by blast
      qed
      then show ?thesis using page_bytes_disjoint [of "table_of (pde m1 pd i)" t] ta by simp
    qed
    moreover have "page_bytes (table_of (pde m1 pd i)) \<inter> page_bytes pd = {}" if i: "i < 8" "present (pde m1 pd i)" for i
    proof -
      have "table_of (pde m1 pd i) \<in> pd_tables m1 pd" using i by (auto simp: pd_tables_def)
      then have "table_of (pde m1 pd i) \<noteq> pd" using wf1 by (auto simp: wf_pd_def)
      then show ?thesis using page_bytes_disjoint [of "table_of (pde m1 pd i)" pd] pda by simp
    qed
    ultimately have "agree (low_bytes m1 pd) m2 m1" by (intro g(10) [rule_format]) (auto simp: low_bytes_def)
    moreover have "low_bytes m pd \<subseteq> table_bytes m pd" by (auto simp: low_bytes_def table_bytes_def pd_pages_def pd_tables_def)
    then have "agree (low_bytes m pd) m1 m" using tf by (intro agree_subset [OF ag]) auto
    ultimately have "agree (low_bytes m pd) m2 m" using agree_trans unfolding lb by blast
    then show ?thesis using g(11) pa(1) high by (simp add: low_same_def)
  qed
  have st: "loader_step pd {w. table_of w = va} p m p2 m2"
    unfolding loader_step_def space_ok_def
  proof (intro conjI)
    show "free_set p2 \<subseteq> free_set p" using g(5) a by auto
    show "\<forall>x \<in> table_bytes m2 pd. x \<in> table_bytes m pd \<or> x div 4096 \<in> free_set p" using tb2 pt by auto
    have "agree {x. x \<notin> table_bytes m pd \<and> x div 4096 \<notin> free_set p} m2 m1"
      using pt by (intro g(10) [rule_format]) (auto simp: table_bytes_def pd_pages_def)
    moreover have "agree {x. x \<notin> table_bytes m pd \<and> x div 4096 \<notin> free_set p} m1 m"
      by (rule agree_subset [OF ag]) (use a pf in auto)
    ultimately show "agree {x. x \<notin> table_bytes m pd \<and> x div 4096 \<notin> free_set p} m2 m" by (rule agree_trans)
    show "\<forall>w. w \<notin> {w. table_of w = va} \<longrightarrow> map_option (can_user_update (\<lambda>_. False)) (translate m2 pd w) =
      map_option (can_user_update (\<lambda>_. False)) (translate m pd w)"
      using g(9) pa(2) table_of_aligned [OF va(1)] by simp
    show "(\<forall>w \<in> {w. table_of w = va}. 8 \<le> unat (pd_index w)) \<longrightarrow> low_same pd m m2" using low table_of_aligned [OF va(1)] by simp
  qed (use g in simp_all)
  have mp: "mapped pd p2 m2 w (segment_byte m data ph w) (flags AND PTE_WRITABLE \<noteq> 0)" if w: "table_of w = va" for w
  proof -
    let ?x = "w AND 0xFFF"
    have fa: "table_of f OR ?x = f + ?x" using a or_low_add [of f w] by (simp add: table_of_aligned)
    have x: "unat ?x < 4096" "va + ?x = w" using page_offset [of w] w by simp_all
    have m1x: "m1 (f + ?x) = segment_byte m data ph w" using ff(2) [OF x(1)] x(2) by (simp add: m1_def)
    have "unat f + 4096 \<le> 2 ^ 32"
    proof -
      obtain q where "unat f = 4096 * q" using a by (auto simp: aligned_def elim: dvdE)
      then show ?thesis using unat_u32_less [of f] by simp
    qed
    then have "unat (f + ?x) = unat f + unat ?x" using x(1) by (simp add: unat_add_nowrap)
    then have inf: "unat (f + ?x) \<in> page_bytes f" using x(1) by (simp add: page_bytes_def)
    have "agree (page_bytes f) m2 m1"
      using tf tf2 by (intro g(10) [rule_format]) (auto simp: table_bytes_def pd_pages_def)
    then have "m2 (f + ?x) = segment_byte m data ph w" using inf m1x by (simp add: agree_def)
    moreover have "unat (f + ?x) \<notin> table_bytes m2 pd" using inf tf tf2 tb2 by auto
    moreover have "unat (f + ?x) div 4096 \<notin> free_set p2" using inf pf a g(5) by auto
    ultimately show ?thesis using g(8) w table_of_aligned [OF va(1)] fa by (auto simp: mapped_def)
  qed
  have "card (free_set p) \<le> card (free_set p2) + 2"
  proof -
    have "card (free_set p1) \<le> card (free_set p2) + 1"
      using card_Diff1_le [of "free_set p1" "unat t div 4096"] card_Suc_Diff1 [of "free_set p1" "unat t div 4096"] g(5)
      by (cases "unat t div 4096 \<in> free_set p1") auto
    then show ?thesis using a by (cases "free_set p = {}") auto
  qed
  then show ?thesis using al g(1) st mp unfolding m1_def by blast
qed

lemma load_segment_spec:
  assumes "space_ok pd p m" "image_apart S pd p m" "segment_in S m data ph" "aligned 4096 va" "unat va + 4096 * n = unat seg_end"
    "flags AND 0xFFF = flags" "present flags" "2 * n \<le> card (free_set p)"
  shows "\<exists>p' m'. load_segment data pd ph flags seg_end va p m = Inr (True, p', m') \<and>
    loader_step pd {w. unat va \<le> unat w \<and> unat w < unat seg_end} p m p' m' \<and> card (free_set p) \<le> card (free_set p') + 2 * n \<and>
    (\<forall>w. unat va \<le> unat w \<and> unat w < unat seg_end \<longrightarrow> mapped pd p' m' w (segment_byte m data ph w) (flags AND PTE_WRITABLE \<noteq> 0))"
  using assms
proof (induction n arbitrary: va p m)
  case 0
  then have "va = seg_end" by (simp add: word_unat_eq_iff)
  then show ?case using 0 loader_step_refl [OF 0(1)] by (subst load_segment.simps) auto
next
  case (Suc n)
  have va: "unat va + 4096 < 2 ^ 32"
  proof -
    have "4096 dvd unat va" using Suc.prems(4) by (simp add: aligned_def)
    then have d: "4096 dvd unat seg_end" unfolding Suc.prems(5) [symmetric] by simp
    then obtain q where "unat seg_end = 4096 * q" by (auto elim: dvdE)
    then show ?thesis using Suc.prems(5) unat_u32_less [of seg_end] by simp
  qed
  have nx: "unat (va + PAGE_SIZE) = unat va + 4096" using va by (simp add: PAGE_SIZE_def unat_add_nowrap)
  have room: "2 \<le> card (free_set p)" using Suc.prems(8) by simp
  obtain f p1 p2 m2 where g: "pmm_alloc_frame p = (f, p1)" "f \<noteq> 0"
    "paging_map_into pd va f flags p1 (load_page data ph va f (zero_page f m)) = Inr (p2, m2)"
    "loader_step pd {w. table_of w = va} p m p2 m2" "card (free_set p) \<le> card (free_set p2) + 2"
    "\<forall>w. table_of w = va \<longrightarrow> mapped pd p2 m2 w (segment_byte m data ph w) (flags AND PTE_WRITABLE \<noteq> 0)"
    using load_one_page [OF Suc.prems(1-4) va Suc.prems(6,7) room] by (elim exE conjE) (rule that)
  have im: "image_apart S pd p2 m2" "agree S m2 m" using image_apart_step [OF g(4) Suc.prems(2)] by simp_all
  note sg = segment_agree [OF im(2) Suc.prems(3)]
  have "space_ok pd p2 m2" using g(4) by (simp add: loader_step_def)
  moreover have "aligned 4096 (va + PAGE_SIZE)" using Suc.prems(4) nx by (simp add: aligned_def)
  moreover have "unat (va + PAGE_SIZE) + 4096 * n = unat seg_end" using Suc.prems(5) nx by simp
  ultimately obtain p' m' where r: "load_segment data pd ph flags seg_end (va + PAGE_SIZE) p2 m2 = Inr (True, p', m')"
    "loader_step pd {w. unat va + 4096 \<le> unat w \<and> unat w < unat seg_end} p2 m2 p' m'" "card (free_set p2) \<le> card (free_set p') + 2 * n"
    "\<forall>w. unat va + 4096 \<le> unat w \<and> unat w < unat seg_end \<longrightarrow> mapped pd p' m' w (segment_byte m data ph w) (flags AND PTE_WRITABLE \<noteq> 0)"
    using Suc.IH [of p2 m2 "va + PAGE_SIZE"] im(1) sg Suc.prems(6,7,8) g(5) nx by auto
  have pg: "table_of w = va \<longleftrightarrow> unat va \<le> unat w \<and> unat w < unat va + 4096" for w
  proof -
    obtain q where q: "unat va = 4096 * q" using Suc.prems(4) by (auto simp: aligned_def elim: dvdE)
    have "table_of w = va \<longleftrightarrow> unat w div 4096 = q" by (simp add: word_unat_eq_iff unat_table_of q)
    also have "\<dots> \<longleftrightarrow> 4096 * q \<le> unat w \<and> unat w < 4096 * q + 4096"
      using div_nat_eqI [of 4096 q "unat w"] times_div_less_eq_dividend [of 4096 "unat w"] dividend_less_times_div [of 4096 "unat w"] by auto
    finally show ?thesis by (simp add: q)
  qed
  have le: "unat va + 4096 \<le> unat seg_end" using Suc.prems(5) by simp
  have "{w. table_of w = va} \<union> {w. unat va + 4096 \<le> unat w \<and> unat w < unat seg_end} = {w. unat va \<le> unat w \<and> unat w < unat seg_end}"
    unfolding pg using le by (intro set_eqI) (simp, linarith)
  then have "loader_step pd {w. unat va \<le> unat w \<and> unat w < unat seg_end} p m p' m'" using loader_step_trans [OF g(4) r(2)] by simp
  moreover have "mapped pd p' m' w (segment_byte m data ph w) (flags AND PTE_WRITABLE \<noteq> 0)" if "unat va \<le> unat w \<and> unat w < unat seg_end" for w
  proof (cases "unat w < unat va + 4096")
    case True
    then show ?thesis using g(6) pg that by (intro mapped_step [OF r(2)]) auto
  next
    case False
    then show ?thesis using r(4) that by simp
  qed
  moreover have "va < seg_end" using Suc.prems(5) by (simp add: word_less_nat_alt)
  then have "load_segment data pd ph flags seg_end va p m = Inr (True, p', m')"
    using g(1,2,3) r(1) va by (subst load_segment.simps) simp
  ultimately show ?case using g(5) r(3) by (intro exI [of _ p'] exI [of _ m']) simp
qed

section \<open>Loading an image\<close>

definition loads :: "mem \<Rightarrow> u32 \<Rightarrow> bool" where
  "loads m ph \<longleftrightarrow> ph \<noteq> 0 \<and> ph_type m ph = PT_LOAD \<and> ph_memsz m ph \<noteq> 0"

text \<open>The pages of a segment, as page numbers and as addresses.\<close>

definition page_numbers :: "mem \<Rightarrow> u32 \<Rightarrow> nat set" where
  "page_numbers m ph = (if loads m ph
     then {unat (ph_vaddr m ph) div 4096..<(unat (ph_vaddr m ph) + unat (ph_memsz m ph) + 4095) div 4096} else {})"

definition segment_pages :: "mem \<Rightarrow> u32 \<Rightarrow> u32 set" where
  "segment_pages m ph = {w. unat w div 4096 \<in> page_numbers m ph}"

text \<open>An image all of whose headers and segment contents lie in \<open>S\<close>, with no segment at the end of the address space.\<close>

definition image_in :: "nat set \<Rightarrow> mem \<Rightarrow> u32 \<Rightarrow> bool" where
  "image_in S m data \<longleftrightarrow> (\<forall>j < 52. unat (data + of_nat j) \<in> S) \<and>
     (\<forall>i < unat (eh_phnum m data). let ph = elf32_get_phdr m data (of_nat i) in (\<forall>j < 32. unat (ph + of_nat j) \<in> S) \<and>
       (loads m ph \<longrightarrow> segment_in S m data ph \<and> unat (ph_vaddr m ph) + unat (ph_memsz m ph) + 4095 < 2 ^ 32))"

lemma load16_agree: "agree S m' m \<Longrightarrow> unat a \<in> S \<Longrightarrow> unat (a + 1) \<in> S \<Longrightarrow> load16 m' a = load16 m a"
  by (simp add: agree_def load16_def)

lemma header_agree:
  assumes ag: "agree S m' m" and h: "\<forall>j < 52. unat (data + of_nat j) \<in> S"
  shows "eh_phnum m' data = eh_phnum m data" "elf32_get_phdr m' data i = elf32_get_phdr m data i"
proof -
  have S: "unat (data + of_nat j) \<in> S" if "j < 52" for j using h that by blast
  show n: "eh_phnum m' data = eh_phnum m data"
    unfolding eh_phnum_def using S [of 44] S [of 45] by (intro load16_agree [OF ag]) (simp_all add: add.assoc)
  moreover have "eh_phentsize m' data = eh_phentsize m data"
    unfolding eh_phentsize_def using S [of 42] S [of 43] by (intro load16_agree [OF ag]) (simp_all add: add.assoc)
  moreover have "eh_phoff m' data = eh_phoff m data"
    unfolding eh_phoff_def
  proof (rule agree_load32_at [OF ag], intro allI impI)
    fix j :: nat assume "j < 4"
    then show "unat (data + 28 + of_nat j) \<in> S" using S [of "28 + j"] by (simp add: add.assoc)
  qed
  ultimately show "elf32_get_phdr m' data i = elf32_get_phdr m data i" by (simp add: elf32_get_phdr_def)
qed

lemma image_agree:
  assumes ag: "agree S m' m" and im: "image_in S m data" and i: "i < unat (eh_phnum m data)"
  defines "ph \<equiv> elf32_get_phdr m data (of_nat i)"
  shows "elf32_get_phdr m' data (of_nat i) = ph" "loads m' ph = loads m ph" "page_numbers m' ph = page_numbers m ph"
    "segment_pages m' ph = segment_pages m ph" "ph_flags m' ph = ph_flags m ph"
    "loads m ph \<Longrightarrow> segment_byte m' data ph w = segment_byte m data ph w"
proof -
  have h: "\<forall>j < 52. unat (data + of_nat j) \<in> S" and ph: "\<forall>j < 32. unat (ph + of_nat j) \<in> S"
    and sg: "loads m ph \<Longrightarrow> segment_in S m data ph" using im i by (auto simp: image_in_def Let_def ph_def)
  note e = phdr_agree [OF ag ph]
  show "elf32_get_phdr m' data (of_nat i) = ph" using header_agree(2) [OF ag h] by (simp add: ph_def)
  show l: "loads m' ph = loads m ph" by (simp add: loads_def e)
  show pn: "page_numbers m' ph = page_numbers m ph" by (simp add: page_numbers_def e l)
  show "segment_pages m' ph = segment_pages m ph" by (simp add: segment_pages_def pn)
  show "ph_flags m' ph = ph_flags m ph" by (rule e(6))
  show "loads m ph \<Longrightarrow> segment_byte m' data ph w = segment_byte m data ph w" using segment_agree(2) [OF ag sg] by simp
qed

lemma image_in_agree: "agree S m' m \<Longrightarrow> image_in S m data \<Longrightarrow> image_in S m' data"
proof -
  assume ag: "agree S m' m" and im: "image_in S m data"
  have h: "\<forall>j < 52. unat (data + of_nat j) \<in> S" using im by (simp add: image_in_def)
  have "(\<forall>j < 32. unat (ph + of_nat j) \<in> S) \<and>
       (loads m' ph \<longrightarrow> segment_in S m' data ph \<and> unat (ph_vaddr m' ph) + unat (ph_memsz m' ph) + 4095 < 2 ^ 32)"
    if i: "i < unat (eh_phnum m data)" and ph: "ph = elf32_get_phdr m data (of_nat i)" for i ph
  proof -
    have S: "\<forall>j < 32. unat (ph + of_nat j) \<in> S" and sg: "loads m ph \<Longrightarrow> segment_in S m data ph \<and> unat (ph_vaddr m ph) + unat (ph_memsz m ph) + 4095 < 2 ^ 32"
      using im i ph by (auto simp: image_in_def Let_def)
    note e = phdr_agree [OF ag S]
    have "loads m' ph = loads m ph" by (simp add: loads_def e)
    then show ?thesis using S sg segment_agree(1) [OF ag] by (auto simp: e)
  qed
  then show ?thesis using h header_agree [OF ag h] by (simp add: image_in_def Let_def)
qed

lemma segment_bounds:
  assumes l: "loads m ph" and nw: "unat (ph_vaddr m ph) + unat (ph_memsz m ph) + 4095 < 2 ^ 32"
  defines "lo \<equiv> table_of (ph_vaddr m ph)" and "hi \<equiv> table_of (ph_vaddr m ph + ph_memsz m ph + 0xFFF)"
  shows "unat lo + 4096 * card (page_numbers m ph) = unat hi"
    and "{w. unat lo \<le> unat w \<and> unat w < unat hi} = segment_pages m ph"
proof -
  let ?v = "unat (ph_vaddr m ph)" and ?e = "unat (ph_vaddr m ph) + unat (ph_memsz m ph) + 4095"
  have u: "unat (ph_vaddr m ph + ph_memsz m ph + 0xFFF) = ?e"
    using nw by (subst unat_add_nowrap; subst unat_add_nowrap) simp_all
  have lo: "unat lo = 4096 * (?v div 4096)" and hi: "unat hi = 4096 * (?e div 4096)"
    unfolding lo_def hi_def unat_table_of u by simp_all
  have le: "?v div 4096 \<le> ?e div 4096" by (rule div_le_mono) simp
  have pn: "page_numbers m ph = {?v div 4096..<?e div 4096}" using l by (simp add: page_numbers_def)
  show "unat lo + 4096 * card (page_numbers m ph) = unat hi" using le by (simp add: lo hi pn flip: distrib_left)
  have "4096 * a \<le> x \<longleftrightarrow> a \<le> x div 4096" "x < 4096 * a \<longleftrightarrow> x div 4096 < a" for a x :: nat
    by (simp_all add: less_eq_div_iff_mult_less_eq div_less_iff_less_mult mult.commute)
  then show "{w. unat lo \<le> unat w \<and> unat w < unat hi} = segment_pages m ph" by (simp add: segment_pages_def pn lo hi)
qed

lemma load_phdrs_spec:
  assumes "space_ok pd p m" "image_apart S pd p m" "image_in S m data" "\<forall>i \<in> set is. i < unat (eh_phnum m data)"
    "sorted_wrt (\<lambda>i j. page_numbers m (elf32_get_phdr m data (of_nat i)) \<inter> page_numbers m (elf32_get_phdr m data (of_nat j)) = {}) is"
    "2 * (\<Sum>i \<leftarrow> is. card (page_numbers m (elf32_get_phdr m data (of_nat i)))) \<le> card (free_set p)"
  shows "\<exists>p' m'. load_phdrs data pd is p m = Inr (True, p', m') \<and>
    loader_step pd (\<Union>i \<in> set is. segment_pages m (elf32_get_phdr m data (of_nat i))) p m p' m' \<and>
    (\<forall>i \<in> set is. \<forall>w \<in> segment_pages m (elf32_get_phdr m data (of_nat i)).
      mapped pd p' m' w (segment_byte m data (elf32_get_phdr m data (of_nat i)) w) (ph_flags m (elf32_get_phdr m data (of_nat i)) AND PF_W \<noteq> 0))"
  using assms
proof (induction "is" arbitrary: p m)
  case Nil
  then show ?case using loader_step_refl by auto
next
  case (Cons i "is")
  define ph where "ph = elf32_get_phdr m data (of_nat i)"
  have i: "i < unat (eh_phnum m data)" using Cons.prems(4) by simp
  have "\<exists>p1 m1. load_phdrs data pd (i # is) p m = load_phdrs data pd is p1 m1 \<and> loader_step pd (segment_pages m ph) p m p1 m1 \<and>
    card (free_set p) \<le> card (free_set p1) + 2 * card (page_numbers m ph) \<and>
    (\<forall>w \<in> segment_pages m ph. mapped pd p1 m1 w (segment_byte m data ph w) (ph_flags m ph AND PF_W \<noteq> 0))"
  proof (cases "loads m ph")
    case False
    then have "load_phdrs data pd (i # is) p m = load_phdrs data pd is p m" by (auto simp: ph_def loads_def Let_def)
    moreover have "segment_pages m ph = {}" "page_numbers m ph = {}" using False by (simp_all add: segment_pages_def page_numbers_def)
    ultimately show ?thesis using loader_step_refl [OF Cons.prems(1)] by (intro exI [of _ p] exI [of _ m]) simp
  next
    case True
    have sg: "segment_in S m data ph" and nw: "unat (ph_vaddr m ph) + unat (ph_memsz m ph) + 4095 < 2 ^ 32"
      using Cons.prems(3) i True by (auto simp: image_in_def Let_def ph_def)
    define flags where "flags = (if ph_flags m ph AND PF_W \<noteq> 0 then PTE_PRESENT OR PTE_USER OR PTE_WRITABLE else PTE_PRESENT OR PTE_USER)"
    have fl: "flags AND 0xFFF = flags" "present flags" "(flags AND PTE_WRITABLE \<noteq> 0) = (ph_flags m ph AND PF_W \<noteq> 0)"
      by (simp_all add: flags_def present_def PTE_PRESENT_def PTE_USER_def PTE_WRITABLE_def PDE_PRESENT_def)
    note b = segment_bounds [OF True nw]
    have "2 * card (page_numbers m ph) \<le> card (free_set p)" using Cons.prems(6) by (simp add: ph_def)
    then obtain p1 m1 where r: "load_segment data pd ph flags (table_of (ph_vaddr m ph + ph_memsz m ph + 0xFFF)) (table_of (ph_vaddr m ph)) p m = Inr (True, p1, m1)"
      "loader_step pd (segment_pages m ph) p m p1 m1" "card (free_set p) \<le> card (free_set p1) + 2 * card (page_numbers m ph)"
      "\<forall>w \<in> segment_pages m ph. mapped pd p1 m1 w (segment_byte m data ph w) (flags AND PTE_WRITABLE \<noteq> 0)"
      using load_segment_spec [OF Cons.prems(1,2) sg _ b(1) fl(1,2)] unfolding b(2) [symmetric] by auto
    have "load_phdrs data pd (i # is) p m = load_phdrs data pd is p1 m1"
      using True r(1) by (cases "ph_flags m ph AND PF_W = 0") (simp_all add: loads_def flags_def Let_def ph_def [symmetric] or.assoc)
    then show ?thesis using r fl(3) by (intro exI [of _ p1] exI [of _ m1]) simp
  qed
  then obtain p1 m1 where g: "load_phdrs data pd (i # is) p m = load_phdrs data pd is p1 m1" "loader_step pd (segment_pages m ph) p m p1 m1"
    "card (free_set p) \<le> card (free_set p1) + 2 * card (page_numbers m ph)"
    "\<forall>w \<in> segment_pages m ph. mapped pd p1 m1 w (segment_byte m data ph w) (ph_flags m ph AND PF_W \<noteq> 0)" by blast
  have im: "image_apart S pd p1 m1" "agree S m1 m" using image_apart_step [OF g(2) Cons.prems(2)] by simp_all
  have h: "\<forall>j < 52. unat (data + of_nat j) \<in> S" using Cons.prems(3) by (simp add: image_in_def)
  note ha = header_agree [OF im(2) h]
  have is_m: "j < unat (eh_phnum m data)" if "j \<in> set is" for j using Cons.prems(4) that by simp
  note ia = image_agree [OF im(2) Cons.prems(3) is_m]
  have sp: "space_ok pd p1 m1" using g(2) by (simp add: loader_step_def)
  have cs: "map (\<lambda>j. card (page_numbers m1 (elf32_get_phdr m1 data (of_nat j)))) is = map (\<lambda>j. card (page_numbers m (elf32_get_phdr m data (of_nat j)))) is"
    using ia(3) by (simp add: ha)
  have "sorted_wrt (\<lambda>i j. page_numbers m1 (elf32_get_phdr m1 data (of_nat i)) \<inter> page_numbers m1 (elf32_get_phdr m1 data (of_nat j)) = {}) is"
    by (rule sorted_wrt_mono_rel [rotated, where P = "\<lambda>i j. page_numbers m (elf32_get_phdr m data (of_nat i)) \<inter> page_numbers m (elf32_get_phdr m data (of_nat j)) = {}"])
      (use Cons.prems(5) ia(3) in \<open>auto simp: ha\<close>)
  moreover have "2 * (\<Sum>j \<leftarrow> is. card (page_numbers m1 (elf32_get_phdr m1 data (of_nat j)))) \<le> card (free_set p1)"
    using Cons.prems(6) g(3) unfolding cs by (simp add: ph_def)
  ultimately obtain p' m' where r: "load_phdrs data pd is p1 m1 = Inr (True, p', m')"
    "loader_step pd (\<Union>j \<in> set is. segment_pages m1 (elf32_get_phdr m1 data (of_nat j))) p1 m1 p' m'"
    "\<forall>j \<in> set is. \<forall>w \<in> segment_pages m1 (elf32_get_phdr m1 data (of_nat j)).
      mapped pd p' m' w (segment_byte m1 data (elf32_get_phdr m1 data (of_nat j)) w) (ph_flags m1 (elf32_get_phdr m1 data (of_nat j)) AND PF_W \<noteq> 0)"
    using Cons.IH [OF sp im(1) image_in_agree [OF im(2) Cons.prems(3)]] is_m ha(1) by auto
  have R: "(\<Union>j \<in> set is. segment_pages m1 (elf32_get_phdr m1 data (of_nat j))) = (\<Union>j \<in> set is. segment_pages m (elf32_get_phdr m data (of_nat j)))"
    using ia(4) by (simp add: ha)
  have lsm: "loads m (elf32_get_phdr m data (of_nat j))" if "w \<in> segment_pages m (elf32_get_phdr m data (of_nat j))" for w j
    using that by (auto simp: segment_pages_def page_numbers_def split: if_splits)
  have "mapped pd p' m' w (segment_byte m data (elf32_get_phdr m data (of_nat j)) w) (ph_flags m (elf32_get_phdr m data (of_nat j)) AND PF_W \<noteq> 0)"
    if j: "j \<in> set is" and w: "w \<in> segment_pages m (elf32_get_phdr m data (of_nat j))" for j w
    using r(3) [rule_format, OF j] w ia(4,5) [OF j] ia(6) [OF j lsm [OF w]] by (simp add: ha)
  moreover have "mapped pd p' m' w (segment_byte m data ph w) (ph_flags m ph AND PF_W \<noteq> 0)" if w: "w \<in> segment_pages m ph" for w
  proof (rule mapped_step [OF r(2)])
    show "w \<notin> (\<Union>j \<in> set is. segment_pages m1 (elf32_get_phdr m1 data (of_nat j)))"
      unfolding R using Cons.prems(5) w by (auto simp: segment_pages_def ph_def)
    show "mapped pd p1 m1 w (segment_byte m data ph w) (ph_flags m ph AND PF_W \<noteq> 0)" using g(4) w by blast
  qed
  moreover have "loader_step pd (segment_pages m ph \<union> (\<Union>j \<in> set is. segment_pages m (elf32_get_phdr m data (of_nat j)))) p m p' m'"
    using loader_step_trans [OF g(2) r(2)] unfolding R .
  ultimately show ?case using g(1) r(1) by (intro exI [of _ p'] exI [of _ m']) (auto simp: ph_def)
qed

text \<open>
  The loader reads and writes through pointers whose value is a physical address, in the address space \<open>kpd\<close> of its
  caller. This is sound while \<open>in_window\<close> holds: the image, the page tables and the free frames lie in the first
  32 MB, and \<open>kpd\<close> maps these to themselves, through tables that it shares with \<open>pd\<close>.
\<close>

definition in_window :: "u32 \<Rightarrow> nat set \<Rightarrow> u32 \<Rightarrow> pmm \<Rightarrow> mem \<Rightarrow> bool" where
  "in_window kpd S pd p m \<longleftrightarrow> S \<subseteq> {..<32 * 2 ^ 20} \<and> table_bytes m pd \<subseteq> {..<32 * 2 ^ 20} \<and> free_set p \<subseteq> {..<8192} \<and>
     (\<forall>w. unat w < 32 * 2 ^ 20 \<longrightarrow> (\<exists>a. translate m kpd w = Some a \<and> phys_addr a = w \<and> can_write a)) \<and>
     (\<forall>i < 8. pde m kpd i = pde m pd i) \<and>
     (kpd = pd \<or> aligned 4096 kpd \<and> page_bytes kpd \<inter> table_bytes m pd = {} \<and> unat kpd div 4096 \<notin> free_set p)"

lemma low_translate:
  assumes l: "low_same pd m m'" and e: "\<forall>i < 8. pde m kpd i = pde m pd i" "\<forall>i < 8. pde m' kpd i = pde m kpd i" and w: "unat w < 32 * 2 ^ 20"
  shows "translate m' kpd w = translate m kpd w"
proof -
  let ?i = "unat (pd_index w)"
  have i: "?i < 8" using w by (simp add: unat_pd_index)
  have "load32 m' (entry_at (table_of (pde m kpd ?i)) (pt_index w)) = load32 m (entry_at (table_of (pde m kpd ?i)) (pt_index w))"
    if p: "present (pde m kpd ?i)"
  proof (rule agree_entry)
    show "agree (low_bytes m pd) m' m" using l by (simp add: low_same_def)
    show "page_bytes (table_of (pde m kpd ?i)) \<subseteq> low_bytes m pd" using p i e(1) by (auto simp: low_bytes_def)
  qed simp_all
  then show ?thesis using e(2) i by (auto simp: translate_alt Let_def)
qed

lemma in_window_step:
  assumes st: "loader_step pd R p m p' m'" and R: "\<forall>w \<in> R. 32 * 2 ^ 20 \<le> unat w" and win: "in_window kpd S pd p m"
  shows "in_window kpd S pd p' m'"
proof -
  have hi: "\<forall>w \<in> R. 8 \<le> unat (pd_index w)" using R by (simp add: unat_pd_index less_eq_div_iff_mult_less_eq)
  then have l: "low_same pd m m'" using st by (simp add: loader_step_def)
  have tb: "\<forall>x \<in> table_bytes m' pd. x \<in> table_bytes m pd \<or> x div 4096 \<in> free_set p" and fs: "free_set p' \<subseteq> free_set p"
    and ag: "agree {x. x \<notin> table_bytes m pd \<and> x div 4096 \<notin> free_set p} m' m" using st by (simp_all add: loader_step_def)
  have w: "table_bytes m pd \<subseteq> {..<32 * 2 ^ 20}" "free_set p \<subseteq> {..<8192}" "\<forall>i < 8. pde m kpd i = pde m pd i"
    "kpd = pd \<or> aligned 4096 kpd \<and> page_bytes kpd \<inter> table_bytes m pd = {} \<and> unat kpd div 4096 \<notin> free_set p"
    using win by (simp_all add: in_window_def)
  have "x < 32 * 2 ^ 20" if "x div 4096 \<in> free_set p" for x
  proof -
    have "x div 4096 < 8192" using that w(2) by auto
    then show ?thesis by (simp add: div_less_iff_less_mult)
  qed
  then have t: "table_bytes m' pd \<subseteq> {..<32 * 2 ^ 20}" using tb w(1) by blast
  have k: "pde m' kpd i = pde m kpd i" if i: "i < 8" for i
  proof (cases "kpd = pd")
    case True then show ?thesis using l i by (simp add: low_same_def)
  next
    case False
    then have a: "aligned 4096 kpd" "page_bytes kpd \<inter> table_bytes m pd = {}" "unat kpd div 4096 \<notin> free_set p" using w(4) by simp_all
    then have "page_bytes kpd \<subseteq> {x. x \<notin> table_bytes m pd \<and> x div 4096 \<notin> free_set p}" using page_bytes_frame [OF a(1)] by auto
    then show ?thesis unfolding pde_def using agree_entry [OF ag a(1)] i by (simp add: unat_of_nat_1024)
  qed
  have "unat kpd div 4096 \<notin> free_set p' \<and> page_bytes kpd \<inter> table_bytes m' pd = {}" if "kpd \<noteq> pd"
  proof -
    have a: "aligned 4096 kpd" "page_bytes kpd \<inter> table_bytes m pd = {}" "unat kpd div 4096 \<notin> free_set p" using w(4) that by simp_all
    have "x \<notin> table_bytes m' pd" if x: "x \<in> page_bytes kpd" for x
    proof -
      have "x div 4096 \<notin> free_set p" "x \<notin> table_bytes m pd" using x a page_bytes_frame [OF a(1), of x] by auto
      then show ?thesis using tb by auto
    qed
    then show ?thesis using a(3) fs by auto
  qed
  moreover have "\<forall>i < 8. pde m' kpd i = pde m' pd i" using k w(3) l by (simp add: low_same_def)
  moreover have "translate m' kpd v = translate m kpd v" if "unat v < 32 * 2 ^ 20" for v
    using low_translate [OF l w(3) _ that] k by simp
  ultimately show ?thesis using win t fs w(2,4) unfolding in_window_def by auto
qed

lemma unat_ucast_u16: "unat (ucast (x :: u16) :: u32) = unat x"
proof -
  have "unat x < 2 ^ 16" using unsigned_less [of x] by simp
  then show ?thesis by (simp add: unsigned_ucast_eq take_bit_nat_eq_self_iff)
qed

section \<open>Properties\<close>

text \<open>
  C16: \<open>elf32_load\<close> loads an image whose segments lie above the first 32 MB. Let its headers and segments lie apart
  from the page tables and from the free frames, let no two segments share a page, let there be two free frames per
  page, and let all memory the loader touches lie in the first 32 MB, which its own address space \<open>kpd\<close> maps to
  themselves. Then the loader succeeds, and afterwards every address of every page of a loadable segment is mapped,
  to a byte that is that of the file where the segment has one and zero elsewhere, and writable only if the segment
  is. All other addresses are mapped as before, and in the loader's own address space the first 32 MB still map to
  themselves. (A segment below 32 MB, like that of the test program, would replace entries of the tables that all
  address spaces share, and the loader's own pointers to these pages would then lead elsewhere.)
\<close>

theorem elf32_loads_image:
  assumes ok: "space_ok pd p m" and im: "image_in S m data" "image_apart S pd p m"
    and dj: "\<And>i j. i < j \<Longrightarrow> j < unat (eh_phnum m data) \<Longrightarrow>
      segment_pages m (elf32_get_phdr m data (of_nat i)) \<inter> segment_pages m (elf32_get_phdr m data (of_nat j)) = {}"
    and room: "2 * (\<Sum>i < unat (eh_phnum m data). card (page_numbers m (elf32_get_phdr m data (of_nat i)))) \<le> card (free_set p)"
    and high: "\<forall>i < unat (eh_phnum m data). \<forall>w \<in> segment_pages m (elf32_get_phdr m data (of_nat i)). 32 * 2 ^ 20 \<le> unat w"
    and win: "in_window kpd S pd p m"
  shows "\<exists>p' m'. elf32_load data pd p m = Inr (True, p', m') \<and> space_ok pd p' m' \<and> in_window kpd S pd p' m' \<and>
    (\<forall>i < unat (eh_phnum m data). \<forall>w \<in> segment_pages m (elf32_get_phdr m data (of_nat i)).
      \<exists>a. translate m' pd w = Some a \<and> m' (phys_addr a) = segment_byte m data (elf32_get_phdr m data (of_nat i)) w \<and>
        (can_write a \<longrightarrow> ph_flags m (elf32_get_phdr m data (of_nat i)) AND PF_W \<noteq> 0)) \<and>
    (\<forall>w. (\<forall>i < unat (eh_phnum m data). w \<notin> segment_pages m (elf32_get_phdr m data (of_nat i))) \<longrightarrow>
      map_option phys_addr (translate m' pd w) = map_option phys_addr (translate m pd w))"
proof -
  let ?is = "[0..<unat (eh_phnum m data)]"
  let ?ph = "\<lambda>i. elf32_get_phdr m data (of_nat i)"
  have dj': "page_numbers m (?ph i) \<inter> page_numbers m (?ph j) = {}" if "i < j" "j < unat (eh_phnum m data)" for i j
  proof (rule ccontr)
    assume "page_numbers m (?ph i) \<inter> page_numbers m (?ph j) \<noteq> {}"
    then obtain n where n: "n \<in> page_numbers m (?ph i)" "n \<in> page_numbers m (?ph j)" by blast
    have "n < 2 ^ 20" using im(1) n(2) that(2) unat_u32_less
      by (auto simp: image_in_def Let_def page_numbers_def div_less_iff_less_mult less_eq_div_iff_mult_less_eq split: if_splits)
    then have "unat (of_nat (4096 * n) :: u32) div 4096 = n" by (subst unat_of_nat_u32) simp_all
    then have "of_nat (4096 * n) \<in> segment_pages m (?ph i) \<inter> segment_pages m (?ph j)" using n by (simp add: segment_pages_def)
    then show False using dj [OF that] by blast
  qed
  have s: "sorted_wrt (\<lambda>i j. page_numbers m (?ph i) \<inter> page_numbers m (?ph j) = {}) ?is"
    using dj' by (auto simp: sorted_wrt_iff_nth_less)
  have r: "2 * (\<Sum>i \<leftarrow> ?is. card (page_numbers m (?ph i))) \<le> card (free_set p)"
    using room by (simp add: interv_sum_list_conv_sum_set_nat atLeast0LessThan)
  obtain p' m' where l: "load_phdrs data pd ?is p m = Inr (True, p', m')" "loader_step pd (\<Union>i \<in> set ?is. segment_pages m (?ph i)) p m p' m'"
    "\<forall>i \<in> set ?is. \<forall>w \<in> segment_pages m (?ph i). mapped pd p' m' w (segment_byte m data (?ph i) w) (ph_flags m (?ph i) AND PF_W \<noteq> 0)"
    using load_phdrs_spec [OF ok im(2,1) _ s r] by auto
  have "elf32_load data pd p m = Inr (True, p', m')"
    using l(1) by (simp add: elf32_load_def elf32_phdr_count_def unat_ucast_u16)
  moreover have "map_option phys_addr (translate m' pd w) = map_option phys_addr (translate m pd w)"
    if "\<forall>i < unat (eh_phnum m data). w \<notin> segment_pages m (?ph i)" for w
  proof -
    have "map_option (can_user_update (\<lambda>_. False)) (translate m' pd w) = map_option (can_user_update (\<lambda>_. False)) (translate m pd w)"
      using l(2) that by (simp add: loader_step_def)
    from arg_cong [OF this, of "map_option phys_addr"] show ?thesis by (simp add: option.map_comp comp_def)
  qed
  moreover have "space_ok pd p' m'" using l(2) by (simp add: loader_step_def)
  moreover have "in_window kpd S pd p' m'" using in_window_step [OF l(2) _ win] high by auto
  ultimately show ?thesis using l(3) by (intro exI [of _ p'] exI [of _ m']) (fastforce simp: mapped_def)
qed

text \<open>An image with one loadable segment of eight bytes, four of them in the file, beside the kernel's page tables.\<close>

lemma identity_example:
  assumes z: "\<And>a. 0x200000 \<le> unat a \<Longrightarrow> unat a < 0x201000 \<Longrightarrow> m a = 0"
  defines "m' \<equiv> identity_tables 0x200000 0x201000 m"
  shows "wf_pd m' 0x200000" "table_bytes m' 0x200000 \<subseteq> {0x200000..<0x209000}" "agree (- {0x200000..<0x209000}) m' m"
    "translate m' 0x200000 w = (if unat w < 32 * 2 ^ 20 then Some \<lparr>phys_addr = w, can_write = True, can_user = False\<rparr> else None)"
proof -
  have pt: "unat (identity_pt 0x201000 t) = 0x201000 + t * 4096" if "t < 8" for t using unat_identity_pt [OF kernel_layout_ex that] by simp
  have "agree {0x200000..<0x201000} m (\<lambda>_. 0)" using z by (simp add: agree_def)
  then have "pde m 0x200000 i = pde (\<lambda>_. 0) 0x200000 i" if "i < 1024" for i
    unfolding pde_def using that by (intro agree_entry) (auto simp: aligned_def page_bytes_def unat_of_nat_1024)
  then have z: "pde m 0x200000 i = 0" if "i < 1024" for i using that by (simp add: zero_pde)
  note wf = identity_tables_wf [OF kernel_layout_ex, of m]
  show "wf_pd m' 0x200000" unfolding m'_def using wf(1) z by simp
  show "table_bytes m' 0x200000 \<subseteq> {0x200000..<0x209000}"
    unfolding m'_def table_bytes_def pd_pages_def using wf(2) z pt by (auto simp: page_bytes_def)
  show "agree (- {0x200000..<0x209000}) m' m"
    unfolding m'_def using pt by (intro identity_tables_agree [OF kernel_layout_ex]) (auto simp: page_bytes_def)
  show "translate m' 0x200000 w = (if unat w < 32 * 2 ^ 20 then Some \<lparr>phys_addr = w, can_write = True, can_user = False\<rparr> else None)"
    unfolding m'_def using identity_tables_translate [OF kernel_layout_ex, of m] z by simp
qed

definition image_bytes_ex :: "u8 list" where
  "image_bytes_ex = [0x7F, 0x45, 0x4C, 0x46, 1, 1, 1, 0, 0, 0, 0, 0, 0, 0, 0, 0, 2, 0, 3, 0, 1, 0, 0, 0, 0, 0, 0, 8, 52, 0, 0, 0,
     0, 0, 0, 0, 0, 0, 0, 0, 52, 0, 32, 0, 1, 0, 0, 0, 0, 0, 0, 0,
     1, 0, 0, 0, 84, 0, 0, 0, 0, 0, 0, 8, 0, 0, 0, 0, 4, 0, 0, 0, 8, 0, 0, 0, 5, 0, 0, 0, 0, 16, 0, 0, 11, 22, 33, 44]"

definition image_mem_ex :: mem where
  "image_mem_ex = identity_tables 0x200000 0x201000
     (\<lambda>a. if 0x300000 \<le> a \<and> a < 0x300058 then image_bytes_ex ! unat (a - 0x300000) else 0)"

lemma image_mem_ex_byte: "n < 88 \<Longrightarrow> image_mem_ex (0x300000 + of_nat n) = image_bytes_ex ! n"
proof -
  assume n: "n < 88"
  then have u: "unat (of_nat n :: u32) = n" by (simp add: unat_of_nat_u32)
  then have "unat (0x300000 + of_nat n :: u32) = 0x300000 + n" using n by (simp add: unat_add_nowrap)
  then show ?thesis
    using identity_example(3) [of "\<lambda>a. if 0x300000 \<le> a \<and> a < 0x300058 then image_bytes_ex ! unat (a - 0x300000) else 0"] n u
    by (simp add: image_mem_ex_def agree_def word_le_nat_alt word_less_nat_alt)
qed

lemma image_ex_headers:
  "eh_phnum image_mem_ex 0x300000 = 1" "elf32_get_phdr image_mem_ex 0x300000 0 = 0x300034"
  "ph_type image_mem_ex 0x300034 = PT_LOAD" "ph_offset image_mem_ex 0x300034 = 84" "ph_vaddr image_mem_ex 0x300034 = 0x8000000"
  "ph_filesz image_mem_ex 0x300034 = 4" "ph_memsz image_mem_ex 0x300034 = 8" "ph_flags image_mem_ex 0x300034 = 5"
proof -
  note b = image_mem_ex_byte
  note d = load32_def load16_def image_bytes_ex_def
  show "eh_phnum image_mem_ex 0x300000 = 1" using b [of 44] b [of 45] by (simp add: eh_phnum_def d)
  moreover have "eh_phoff image_mem_ex 0x300000 = 52" using b [of 28] b [of 29] b [of 30] b [of 31] by (simp add: eh_phoff_def d)
  ultimately show "elf32_get_phdr image_mem_ex 0x300000 0 = 0x300034" by (simp add: elf32_get_phdr_def)
  show "ph_type image_mem_ex 0x300034 = PT_LOAD" using b [of 52] b [of 53] b [of 54] b [of 55] by (simp add: ph_type_def d PT_LOAD_def)
  show "ph_offset image_mem_ex 0x300034 = 84" using b [of 56] b [of 57] b [of 58] b [of 59] by (simp add: ph_offset_def d)
  show "ph_vaddr image_mem_ex 0x300034 = 0x8000000" using b [of 60] b [of 61] b [of 62] b [of 63] by (simp add: ph_vaddr_def d)
  show "ph_filesz image_mem_ex 0x300034 = 4" using b [of 68] b [of 69] b [of 70] b [of 71] by (simp add: ph_filesz_def d)
  show "ph_memsz image_mem_ex 0x300034 = 8" using b [of 72] b [of 73] b [of 74] b [of 75] by (simp add: ph_memsz_def d)
  show "ph_flags image_mem_ex 0x300034 = 5" using b [of 76] b [of 77] b [of 78] b [of 79] by (simp add: ph_flags_def d)
qed

lemma image_ex_ok:
  "space_ok 0x200000 pmm_three image_mem_ex" "image_in {0x300000..<0x301000} image_mem_ex 0x300000"
  "image_apart {0x300000..<0x301000} 0x200000 pmm_three image_mem_ex" "page_numbers image_mem_ex 0x300034 = {0x8000}"
  "in_window 0x200000 {0x300000..<0x301000} 0x200000 pmm_three image_mem_ex"
proof -
  note e = identity_example(1,2) [of "\<lambda>a. if 0x300000 \<le> a \<and> a < 0x300058 then image_bytes_ex ! unat (a - 0x300000) else 0"]
  have e1: "wf_pd image_mem_ex 0x200000" "table_bytes image_mem_ex 0x200000 \<subseteq> {0x200000..<0x209000}"
    using e by (simp_all add: image_mem_ex_def word_le_nat_alt)
  have "unat t div 4096 \<notin> {1, 2, 3}" if "t \<in> pd_pages image_mem_ex 0x200000" for t
  proof -
    have "unat t \<in> table_bytes image_mem_ex 0x200000" using that by (auto simp: table_bytes_def page_bytes_def)
    then have "0x200000 \<le> unat t" using e1(2) by auto
    then show ?thesis by (auto simp: div_nat_eqI)
  qed
  then show "space_ok 0x200000 pmm_three image_mem_ex" using e1(1) pmm_three_inv by (simp add: space_ok_def owned_def pmm_three_free)
  have b: "unat (0x300000 + x :: u32) \<in> {0x300000..<0x301000}" if "unat x < 4096" for x using that by (simp add: unat_add_nowrap)
  have l: "loads image_mem_ex 0x300034" by (simp add: loads_def image_ex_headers)
  have sg: "segment_in {0x300000..<0x301000} image_mem_ex 0x300000 0x300034"
    unfolding segment_in_def image_ex_headers
  proof (intro conjI allI impI)
    show "unat (0x300034 + of_nat j :: u32) \<in> {0x300000..<0x301000}" if "j < 32" for j
      using that b [of "0x34 + of_nat j"] by (simp add: unat_add_nowrap unat_of_nat_u32 add.assoc)
    fix w :: u32 assume "0x8000000 \<le> w \<and> w < 0x8000000 + 4"
    then have "0x8000000 \<le> unat w" "unat w < 0x8000004" by (simp_all add: word_le_nat_alt word_less_nat_alt)
    moreover from this have "unat (w - 0x8000000) = unat w - 0x8000000" by (subst unat_sub_nowrap) simp_all
    ultimately have "unat (w - 0x8000000) < 4" by linarith
    then have "unat (84 + (w - 0x8000000)) < 4096" by (subst unat_add_nowrap) simp_all
    then show "unat (0x300000 + (84 + (w - 0x8000000))) \<in> {0x300000..<0x301000}" by (rule b)
  qed simp
  show "image_in {0x300000..<0x301000} image_mem_ex 0x300000"
    unfolding image_in_def Let_def
  proof (intro conjI allI impI)
    show "unat (0x300000 + of_nat j :: u32) \<in> {0x300000..<0x301000}" if "j < 52" for j using that by (intro b) (simp add: unat_of_nat_u32)
    show "unat (elf32_get_phdr image_mem_ex 0x300000 (of_nat i) + of_nat j) \<in> {0x300000..<0x301000}"
      if "i < unat (eh_phnum image_mem_ex 0x300000)" "j < 32" for i j
      using that sg by (simp add: image_ex_headers segment_in_def)
  qed (use sg in \<open>simp_all add: image_ex_headers\<close>)
  show "image_apart {0x300000..<0x301000} 0x200000 pmm_three image_mem_ex"
    unfolding image_apart_def pmm_three_free using e1(2) by (auto simp: div_nat_eqI)
  show "page_numbers image_mem_ex 0x300034 = {0x8000}" using l by (auto simp: page_numbers_def image_ex_headers)
  have "translate image_mem_ex 0x200000 w = Some \<lparr>phys_addr = w, can_write = True, can_user = False\<rparr>" if "unat w < 32 * 2 ^ 20" for w
    using identity_example(4) [of "\<lambda>a. if 0x300000 \<le> a \<and> a < 0x300058 then image_bytes_ex ! unat (a - 0x300000) else 0"] that
    by (simp add: image_mem_ex_def word_le_nat_alt)
  then show "in_window 0x200000 {0x300000..<0x301000} 0x200000 pmm_three image_mem_ex"
    using e1(2) by (auto simp: in_window_def pmm_three_free)
qed

theorem elf32_loads_image_witness:
  "\<exists>p' m' a. elf32_load 0x300000 0x200000 pmm_three image_mem_ex = Inr (True, p', m') \<and>
    translate m' 0x200000 0x8000002 = Some a \<and> m' (phys_addr a) = 33 \<and> \<not> can_write a"
proof -
  let ?w = "0x8000002 :: u32"
  have "32 * 2 ^ 20 \<le> unat w" if "unat w div 4096 = 0x8000" for w :: u32
    using that times_div_less_eq_dividend [of 4096 "unat w"] by simp
  then have high: "\<forall>i < unat (eh_phnum image_mem_ex 0x300000).
      \<forall>w \<in> segment_pages image_mem_ex (elf32_get_phdr image_mem_ex 0x300000 (of_nat i)). 32 * 2 ^ 20 \<le> unat w"
    by (simp add: image_ex_headers image_ex_ok(4) segment_pages_def)
  have "segment_byte image_mem_ex 0x300000 0x300034 ?w = 33"
    using image_mem_ex_byte [of 86] by (simp add: segment_byte_def image_ex_headers image_bytes_ex_def)
  moreover have "?w \<in> segment_pages image_mem_ex 0x300034" by (simp add: segment_pages_def image_ex_ok(4))
  moreover have "(5 :: u32) AND PF_W = 0" by (simp add: PF_W_def)
  ultimately show ?thesis
    using elf32_loads_image [OF image_ex_ok(1,2,3) _ _ high image_ex_ok(5)] by (auto simp: image_ex_headers image_ex_ok(4) pmm_three_free lessThan_Suc)
qed

end
