(* ===== verification/Cpu.thy ===== *)
theory Cpu
  imports Gdt Idt
begin

text \<open>
  The machine code of the kernel: the context switch (\<open>boot/context_switch.asm\<close>), the drop to user
  mode (\<open>boot/usermode.asm\<close>) and the interrupt stubs (\<open>boot/isr.asm\<close>), instruction by instruction on
  the registers and the stack in memory. Only the registers these routines touch are modelled.
\<close>

section \<open>Model\<close>

record cpu =
  r_eax :: u32
  r_ecx :: u32
  r_edx :: u32
  r_ebx :: u32
  r_esp :: u32
  r_ebp :: u32
  r_esi :: u32
  r_edi :: u32
  r_eip :: u32
  r_eflags :: u32
  r_cs :: u16
  r_ss :: u16
  r_ds :: u16
  r_es :: u16
  r_fs :: u16
  r_gs :: u16

type_synonym machine = "cpu \<times> mem"

definition push :: "u32 \<Rightarrow> machine \<Rightarrow> machine" where
  "push v cm = (case cm of (c, m) \<Rightarrow>
     (c\<lparr>r_esp := r_esp c - 4\<rparr>, store32 (r_esp c - 4) v m))"

definition pop :: "(u32 \<Rightarrow> cpu \<Rightarrow> cpu) \<Rightarrow> machine \<Rightarrow> machine" where
  "pop put cm = (case cm of (c, m) \<Rightarrow>
     (put (load32 m (r_esp c)) (c\<lparr>r_esp := r_esp c + 4\<rparr>), m))"

definition add_esp :: "u32 \<Rightarrow> machine \<Rightarrow> machine" where
  "add_esp n cm = (case cm of (c, m) \<Rightarrow> (c\<lparr>r_esp := r_esp c + n\<rparr>, m))"

definition push_reg :: "(cpu \<Rightarrow> u32) \<Rightarrow> machine \<Rightarrow> machine" where
  "push_reg reg cm = push (reg (fst cm)) cm"

abbreviation "set_eax v c \<equiv> c\<lparr>r_eax := v\<rparr>"
abbreviation "set_ecx v c \<equiv> c\<lparr>r_ecx := v\<rparr>"
abbreviation "set_edx v c \<equiv> c\<lparr>r_edx := v\<rparr>"
abbreviation "set_ebx v c \<equiv> c\<lparr>r_ebx := v\<rparr>"
abbreviation "set_ebp v c \<equiv> c\<lparr>r_ebp := v\<rparr>"
abbreviation "set_esi v c \<equiv> c\<lparr>r_esi := v\<rparr>"
abbreviation "set_edi v c \<equiv> c\<lparr>r_edi := v\<rparr>"
abbreviation "set_eip v c \<equiv> c\<lparr>r_eip := v\<rparr>"
abbreviation "set_eflags v c \<equiv> c\<lparr>r_eflags := v\<rparr>"
abbreviation "skip_dword v c \<equiv> c"

subsection \<open>Context switch\<close>

text \<open>
  \<open>save_context\<close> runs up to the point where the stack pointer has been stored in the old process;
  \<open>restore_context\<close> starts with the stack pointer of the new one. The scheduler model stores and
  loads the pointer and switches the page directory in between.
\<close>

definition save_context :: "machine \<Rightarrow> machine" where
  "save_context cm =
     (let cm = push_reg r_eflags cm;
          cm = push_reg r_eax cm;
          cm = push_reg r_ecx cm;
          cm = push_reg r_edx cm;
          cm = push_reg r_ebx cm;
          cm = push_reg r_ebp cm;
          cm = push_reg r_esi cm
      in push_reg r_edi cm)"

definition restore_context :: "u32 \<Rightarrow> machine \<Rightarrow> machine" where
  "restore_context esp cm =
     (let (c, m) = cm;
          cm = (c\<lparr>r_esp := esp\<rparr>, m);
          cm = pop set_edi cm;
          cm = pop set_esi cm;
          cm = pop set_ebp cm;
          cm = pop set_ebx cm;
          cm = pop set_edx cm;
          cm = pop set_ecx cm;
          cm = pop set_eax cm;
          cm = pop set_eflags cm
      in pop set_eip cm)"

subsection \<open>Entering user mode\<close>

text \<open>\<open>iret\<close>: to the same privilege level three words are popped, to a lower one five.\<close>

definition iret :: "machine \<Rightarrow> machine" where
  "iret cm =
     (let (c, m) = cm;
          eip = load32 m (r_esp c); cs = ucast (load32 m (r_esp c + 4)) :: u16; eflags = load32 m (r_esp c + 8)
      in if cs AND 3 = r_cs c AND 3
         then (c\<lparr>r_eip := eip, r_cs := cs, r_eflags := eflags, r_esp := r_esp c + 12\<rparr>, m)
         else (c\<lparr>r_eip := eip, r_cs := cs, r_eflags := eflags, r_esp := load32 m (r_esp c + 12),
                 r_ss := ucast (load32 m (r_esp c + 16))\<rparr>, m))"

definition enter_usermode :: "machine \<Rightarrow> machine" where
  "enter_usermode cm =
     (let (c, m) = cm;
          c = c\<lparr>r_eax := load32 m (r_esp c + 4)\<rparr>;
          c = c\<lparr>r_ebx := load32 m (r_esp c + 8)\<rparr>;
          c = c\<lparr>r_ecx := (r_ecx c AND 0xFFFF0000) OR (0x20 OR 3)\<rparr>;
          c = c\<lparr>r_ds := 0x20 OR 3, r_es := 0x20 OR 3, r_fs := 0x20 OR 3, r_gs := 0x20 OR 3\<rparr>;
          cm = push (0x20 OR 3) (c, m);
          cm = push_reg r_ebx cm;
          cm = push 0x202 cm;
          cm = push (0x18 OR 3) cm;
          cm = push_reg r_eax cm
      in iret cm)"

subsection \<open>Interrupt entry and return\<close>

text \<open>
  The processor pushes the return frame; at a change of privilege it first switches to the kernel
  stack named in the task state segment and pushes the user stack too. All gates of this kernel are
  interrupt gates, so the interrupt flag is cleared.
\<close>

definition int_entry :: "tss_entry \<Rightarrow> u32 \<Rightarrow> machine \<Rightarrow> machine" where
  "int_entry t handler cm =
     (let (c, m) = cm;
          cm = (if r_cs c AND 3 = 0 then (c, m)
                else push (r_esp c) (push (ucast (r_ss c)) (c\<lparr>r_esp := ts_esp0 t, r_ss := ucast (ts_ss0 t)\<rparr>, m)));
          cm = push (r_eflags c) cm;
          cm = push (ucast (r_cs c)) cm;
          (c', m') = push (r_eip c) cm
      in (c'\<lparr>r_cs := 0x08, r_eip := handler, r_eflags := r_eflags c AND NOT 0x200\<rparr>, m'))"

text \<open>
  For some exceptions the processor pushes an error code as well. (Vectors 21, 29 and 30 have one only
  with extensions that the kernel never enables.)
\<close>

definition has_error_code :: "nat \<Rightarrow> bool" where
  "has_error_code n \<longleftrightarrow> n \<in> {8, 10, 11, 12, 13, 14, 17}"

definition exception_entry :: "tss_entry \<Rightarrow> u32 \<Rightarrow> nat \<Rightarrow> u32 \<Rightarrow> machine \<Rightarrow> machine" where
  "exception_entry t handler n err cm =
     (let cm = int_entry t handler cm in if has_error_code n then push err cm else cm)"

definition pusha :: "machine \<Rightarrow> machine" where
  "pusha cm =
     (let esp = r_esp (fst cm);
          cm = push_reg r_eax cm; cm = push_reg r_ecx cm; cm = push_reg r_edx cm; cm = push_reg r_ebx cm;
          cm = push esp cm; cm = push_reg r_ebp cm; cm = push_reg r_esi cm
      in push_reg r_edi cm)"

definition popa :: "machine \<Rightarrow> machine" where
  "popa cm =
     (let cm = pop set_edi cm; cm = pop set_esi cm; cm = pop set_ebp cm; cm = pop skip_dword cm;
          cm = pop set_ebx cm; cm = pop set_edx cm; cm = pop set_ecx cm
      in pop set_eax cm)"

text \<open>
  The common stubs up to their call of the C handler: general registers and the data segment are
  saved, the data segments of the kernel loaded, and the address of it all is the argument.
\<close>

definition common_stub :: "machine \<Rightarrow> machine" where
  "common_stub cm =
     (let cm = pusha cm;
          (c, m) = cm;
          c = c\<lparr>r_eax := (r_eax c AND 0xFFFF0000) OR ucast (r_ds c)\<rparr>;
          cm = push_reg r_eax (c, m);
          (c, m) = cm;
          c = c\<lparr>r_eax := (r_eax c AND 0xFFFF0000) OR 0x10, r_ds := 0x10, r_es := 0x10, r_fs := 0x10, r_gs := 0x10\<rparr>
      in push_reg r_esp (c, m))"

text \<open>
  The entry points. One without an error code pushes a zero in its place; \<open>isr128\<close> and the entries for
  hardware interrupts are of this kind.
\<close>

definition stub_entry :: "u32 \<Rightarrow> machine \<Rightarrow> machine" where
  "stub_entry int_no cm = common_stub (push int_no (push 0 cm))"

definition stub_entry_err :: "u32 \<Rightarrow> machine \<Rightarrow> machine" where
  "stub_entry_err int_no cm = common_stub (push int_no cm)"

definition isr_stubs :: "(u32 \<Rightarrow> machine \<Rightarrow> machine) list" where
  "isr_stubs =
     [stub_entry, stub_entry, stub_entry, stub_entry, stub_entry, stub_entry, stub_entry, stub_entry,
      stub_entry_err, stub_entry, stub_entry_err, stub_entry_err, stub_entry_err, stub_entry_err, stub_entry_err, stub_entry,
      stub_entry, stub_entry_err, stub_entry, stub_entry, stub_entry, stub_entry, stub_entry, stub_entry,
      stub_entry, stub_entry, stub_entry, stub_entry, stub_entry, stub_entry, stub_entry, stub_entry]"

definition isr_stub :: "nat \<Rightarrow> machine \<Rightarrow> machine" where
  "isr_stub n = (isr_stubs ! n) (of_nat n)"

definition irq_stub :: "nat \<Rightarrow> machine \<Rightarrow> machine" where
  "irq_stub n = stub_entry (of_nat (32 + n))"

text \<open>\<open>fork_trampoline\<close>, the same instructions as the return path of the common stubs.\<close>

definition fork_trampoline :: "machine \<Rightarrow> machine" where
  "fork_trampoline cm =
     (let (c, m) = pop set_eax cm;
          cm = popa (c\<lparr>r_ds := ucast (r_eax c), r_es := ucast (r_eax c), r_fs := ucast (r_eax c), r_gs := ucast (r_eax c)\<rparr>, m)
      in iret (add_esp 8 cm))"

text \<open>\<open>isr_common_stub\<close> and \<open>irq_common_stub\<close> after the call: the argument is dropped, then all is restored.\<close>

definition stub_return :: "machine \<Rightarrow> machine" where
  "stub_return cm =
     (let (c, m) = pop set_eax (add_esp 4 cm);
          cm = popa (c\<lparr>r_ds := ucast (r_eax c), r_es := ucast (r_eax c), r_fs := ucast (r_eax c), r_gs := ucast (r_eax c)\<rparr>, m)
      in iret (add_esp 8 cm))"

text \<open>\<open>syscall_common_stub\<close> after the call: the result replaces the saved \<open>eax\<close>.\<close>

definition syscall_return :: "u32 \<Rightarrow> machine \<Rightarrow> machine" where
  "syscall_return retval cm =
     (let (c, m) = cm;
          (c, m) = pop set_ebx (add_esp 4 (c\<lparr>r_eax := retval\<rparr>, m));
          c = c\<lparr>r_ds := ucast (r_ebx c), r_es := ucast (r_ebx c), r_fs := ucast (r_ebx c), r_gs := ucast (r_ebx c)\<rparr>;
          m = store32 (r_esp c + 28) (r_eax c) m
      in iret (add_esp 8 (popa (c, m))))"

section \<open>Stack frames\<close>

text \<open>\<open>words_at m e ws\<close>: the words \<open>ws\<close> lie on the stack from \<open>e\<close> upwards.\<close>

fun words_at :: "mem \<Rightarrow> u32 \<Rightarrow> u32 list \<Rightarrow> bool" where
  "words_at m e [] = True"
| "words_at m e (w # ws) = (load32 m e = w \<and> words_at m (e + 4) ws)"

lemma load32_store32_apart:
  fixes a b :: u32
  assumes "4 \<le> unat (b - a)" "unat (b - a) \<le> 2 ^ 32 - 4"
  shows "load32 (store32 a v m) b = load32 m b"
proof -
  have "b + i \<noteq> a + j" if "unat i < 4" "unat j < 4" for i j
  proof
    assume "b + i = a + j"
    then have e: "(b - a) + i = j" by (simp add: algebra_simps)
    show False
    proof (cases "unat (b - a) + unat i < 2 ^ 32")
      case True then show False using e assms that unat_add_nowrap [of "b - a" i] by simp
    next
      case False
      then have u: "unat (b - a) = 2 ^ 32 - 4" "unat i < 4" "unat i \<ge> 4" using assms that by auto
      then show False by simp
    qed
  qed
  from this [of 0 0] this [of 0 1] this [of 0 2] this [of 0 3] this [of 1 0] this [of 1 1] this [of 1 2] this [of 1 3]
    this [of 2 0] this [of 2 1] this [of 2 2] this [of 2 3] this [of 3 0] this [of 3 1] this [of 3 2] this [of 3 3]
  show ?thesis by (intro load32_cong) (simp_all add: store32_def)
qed

lemma words_at_store:
  "4 \<le> unat (e - a) \<Longrightarrow> unat (e - a) + 4 * length ws \<le> 2 ^ 32 \<Longrightarrow> words_at (store32 a v m) e ws = words_at m e ws"
proof (induction ws arbitrary: e)
  case (Cons w ws)
  have b: "unat (e - a) \<le> 2 ^ 32 - 4" using Cons.prems by simp
  have l: "load32 (store32 a v m) e = load32 m e" using Cons.prems b by (intro load32_store32_apart)
  show ?case
  proof (cases ws)
    case (Cons w' ws')
    have s: "unat (e + 4 - a) = unat (e - a) + 4"
    proof -
      have "unat (e - a) + 4 < 2 ^ 32" using \<open>unat (e - a) + 4 * length (w # ws) \<le> 2 ^ 32\<close> Cons by simp
      moreover have "e + 4 - a = (e - a) + 4" by simp
      ultimately show ?thesis using unat_add_nowrap [of "e - a" 4] by (simp add: diff_add_eq)
    qed
    have "words_at (store32 a v m) (e + 4) ws = words_at m (e + 4) ws"
      using Cons.IH Cons.prems s by simp
    then show ?thesis using l by simp
  qed (use l in simp)
qed simp

lemma words_at_push:
  "words_at m e ws \<Longrightarrow> length ws < 2 ^ 29 \<Longrightarrow> words_at (store32 (e - 4) v m) (e - 4) (v # ws)"
  using words_at_store [of e "e - 4" ws v m] by simp

lemma words_at_append [simp]:
  "words_at m e (us @ vs) \<longleftrightarrow> words_at m e us \<and> words_at m (e + 4 * of_nat (length us)) vs"
  by (induction us arbitrary: e) (auto simp: algebra_simps)

subsection \<open>Context switch\<close>

definition context_words :: "cpu \<Rightarrow> u32 list" where
  "context_words c = [r_edi c, r_esi c, r_ebp c, r_ebx c, r_edx c, r_ecx c, r_eax c, r_eflags c]"

lemma push_frame:
  assumes "words_at m (r_esp c) ws" "length ws < 2 ^ 29"
  shows "\<exists>m'. push v (c, m) = (c\<lparr>r_esp := r_esp c - 4\<rparr>, m') \<and> words_at m' (r_esp c - 4) (v # ws)"
  using words_at_push [OF assms] by (simp add: push_def)

lemma fold_push_frame:
  assumes "\<forall>r \<in> set rs. \<forall>c e. r (c\<lparr>r_esp := e\<rparr>) = r c" "words_at m (r_esp c) ws" "length rs + length ws < 2 ^ 29"
  shows "\<exists>m'. fold push_reg rs (c, m) = (c\<lparr>r_esp := r_esp c - 4 * of_nat (length rs)\<rparr>, m') \<and>
    words_at m' (r_esp c - 4 * of_nat (length rs)) (rev (map (\<lambda>r. r c) rs) @ ws)"
  using assms
proof (induction rs arbitrary: c m ws)
  case (Cons r rs)
  obtain m1 where m1: "push (r c) (c, m) = (c\<lparr>r_esp := r_esp c - 4\<rparr>, m1)" "words_at m1 (r_esp c - 4) (r c # ws)"
    using push_frame [OF Cons.prems(2), of "r c"] Cons.prems(3) by auto
  let ?c = "c\<lparr>r_esp := r_esp c - 4\<rparr>"
  have reg: "q ?c = q c" if "q \<in> set rs" for q using Cons.prems(1) that by simp
  have "\<exists>m'. fold push_reg rs (?c, m1) = (?c\<lparr>r_esp := r_esp ?c - 4 * of_nat (length rs)\<rparr>, m') \<and>
    words_at m' (r_esp ?c - 4 * of_nat (length rs)) (rev (map (\<lambda>r. r ?c) rs) @ r c # ws)"
    using Cons.prems m1 reg by (intro Cons.IH) auto
  moreover have "map (\<lambda>r. r ?c) rs = map (\<lambda>r. r c) rs" using reg by simp
  moreover have "push_reg r (c, m) = (?c, m1)" using m1(1) by (simp add: push_reg_def)
  ultimately show ?case by (simp add: algebra_simps)
qed simp

lemma save_context_frame:
  assumes "words_at m (r_esp c) ws" "length ws < 2 ^ 28"
  shows "\<exists>m'. save_context (c, m) = (c\<lparr>r_esp := r_esp c - 32\<rparr>, m') \<and> words_at m' (r_esp c - 32) (context_words c @ ws)"
proof -
  have e: "save_context (c, m) = fold push_reg [r_eflags, r_eax, r_ecx, r_edx, r_ebx, r_ebp, r_esi, r_edi] (c, m)"
    by (simp add: save_context_def)
  show ?thesis unfolding e
    using fold_push_frame [where rs = "[r_eflags, r_eax, r_ecx, r_edx, r_ebx, r_ebp, r_esi, r_edi]" and c = c, OF _ assms(1)] assms(2)
    by (auto simp: context_words_def)
qed

lemma restore_context_frame:
  assumes "words_at m e [edi, esi, ebp, ebx, edx, ecx, eax, eflags, eip]"
  shows "restore_context e (d, m) = (d\<lparr>r_edi := edi, r_esi := esi, r_ebp := ebp, r_ebx := ebx, r_edx := edx, r_ecx := ecx,
    r_eax := eax, r_eflags := eflags, r_eip := eip, r_esp := e + 36\<rparr>, m)"
  using assms by (simp add: restore_context_def pop_def)

lemma words_at_cong:
  "(\<And>x. unat (x - e) < 4 * length ws \<Longrightarrow> m x = m' x) \<Longrightarrow> 4 * length ws \<le> 2 ^ 32 \<Longrightarrow> words_at m e ws = words_at m' e ws"
proof (induction ws arbitrary: e)
  case (Cons w ws)
  have "load32 m e = load32 m' e" by (intro load32_cong Cons.prems(1)) auto
  moreover have "words_at m (e + 4) ws = words_at m' (e + 4) ws"
  proof (rule Cons.IH)
    fix x assume x: "unat (x - (e + 4)) < 4 * length ws"
    have "x - e = (x - (e + 4)) + 4" by simp
    moreover have "unat (x - (e + 4)) + 4 < 2 ^ 32" using x Cons.prems(2) by simp
    ultimately have "unat (x - e) = unat (x - (e + 4)) + 4" using unat_add_nowrap [of "x - (e + 4)" 4] by simp
    then show "m x = m' x" using x by (intro Cons.prems(1)) simp
  qed (use Cons.prems in simp)
  ultimately show ?case by simp
qed simp

text \<open>
  C7: The context switch is transparent to a process. Let a process call \<open>context_switch\<close> with the return address
  \<open>ra\<close> on top of its stack. Whatever runs in between, if the 36 bytes of saved context above the stored stack
  pointer are intact when the process is switched back to, then it continues at \<open>ra\<close> with every general register,
  the flags and the stack pointer as after an ordinary return.
\<close>

theorem context_switch_transparent:
  assumes "words_at m (r_esp c) [ra]" "save_context (c, m) = (c', m')"
    "\<And>x. unat (x - r_esp c') < 36 \<Longrightarrow> m'' x = m' x"
  shows "restore_context (r_esp c') (d, m'') =
    (c\<lparr>r_esp := r_esp c + 4, r_eip := ra, r_cs := r_cs d, r_ss := r_ss d, r_ds := r_ds d, r_es := r_es d, r_fs := r_fs d, r_gs := r_gs d\<rparr>, m'')"
proof -
  have c': "c' = c\<lparr>r_esp := r_esp c - 32\<rparr>" "words_at m' (r_esp c - 32) (context_words c @ [ra])"
    using save_context_frame [OF assms(1)] assms(2) by auto
  then have "words_at m'' (r_esp c') (context_words c @ [ra])"
    using words_at_cong [of "r_esp c'" "context_words c @ [ra]" m'' m'] assms(3) by (simp add: context_words_def)
  from restore_context_frame [OF this [unfolded context_words_def append.simps]] show ?thesis
    using c'(1) by (cases d) simp
qed

definition cpu_ex :: cpu where
  "cpu_ex = \<lparr>r_eax = 1, r_ecx = 2, r_edx = 3, r_ebx = 4, r_esp = 0x8000, r_ebp = 5, r_esi = 6, r_edi = 7, r_eip = 0x1234,
     r_eflags = 0x202, r_cs = 8, r_ss = 0x10, r_ds = 0x10, r_es = 0x10, r_fs = 0x10, r_gs = 0x10\<rparr>"

theorem context_switch_transparent_witness:
  "restore_context 0x7FE0 (cpu_ex\<lparr>r_eax := 99, r_ebx := 98\<rparr>, snd (save_context (cpu_ex, store32 0x8000 0xABC (\<lambda>_. 0)))) =
    (cpu_ex\<lparr>r_esp := 0x8004, r_eip := 0xABC\<rparr>, snd (save_context (cpu_ex, store32 0x8000 0xABC (\<lambda>_. 0))))"
proof -
  let ?m = "store32 0x8000 0xABC (\<lambda>_. 0)"
  have "words_at ?m (r_esp cpu_ex) [0xABC]" by (simp add: cpu_ex_def)
  moreover have "fst (save_context (cpu_ex, ?m)) = cpu_ex\<lparr>r_esp := 0x7FE0\<rparr>"
    by (simp add: save_context_def push_reg_def push_def cpu_ex_def)
  moreover obtain c' m' where s: "save_context (cpu_ex, ?m) = (c', m')" by (metis surj_pair)
  ultimately show ?thesis
    using context_switch_transparent [OF _ s, of "0xABC" m' "cpu_ex\<lparr>r_eax := 99, r_ebx := 98\<rparr>"] s by (simp add: cpu_ex_def)
qed

subsection \<open>Traps\<close>

text \<open>The structure the C handlers see at the address passed to them.\<close>

definition registers_at :: "mem \<Rightarrow> u32 \<Rightarrow> registers" where
  "registers_at m p = \<lparr>reg_ds = load32 m p, reg_edi = load32 m (p + 4), reg_esi = load32 m (p + 8), reg_ebp = load32 m (p + 12),
     reg_esp = load32 m (p + 16), reg_ebx = load32 m (p + 20), reg_edx = load32 m (p + 24), reg_ecx = load32 m (p + 28),
     reg_eax = load32 m (p + 32), reg_int_no = load32 m (p + 36), reg_err_code = load32 m (p + 40), reg_eip = load32 m (p + 44),
     reg_cs = load32 m (p + 48), reg_eflags = load32 m (p + 52)\<rparr>"

text \<open>The frame the processor pushes, from the top of the stack upwards.\<close>

definition trap_words :: "cpu \<Rightarrow> u32 list" where
  "trap_words c = [r_eip c, ucast (r_cs c), r_eflags c] @ (if r_cs c AND 3 = 0 then [] else [r_esp c, ucast (r_ss c)])"

definition trap_base :: "tss_entry \<Rightarrow> cpu \<Rightarrow> u32" where
  "trap_base t c = (if r_cs c AND 3 = 0 then r_esp c else ts_esp0 t)"

lemma int_entry_frame:
  "\<exists>m'. int_entry t h (c, m) =
     (c\<lparr>r_esp := trap_base t c - 4 * of_nat (length (trap_words c)), r_cs := 8, r_eip := h,
        r_ss := (if r_cs c AND 3 = 0 then r_ss c else ucast (ts_ss0 t)), r_eflags := r_eflags c AND NOT 0x200\<rparr>, m') \<and>
     words_at m' (trap_base t c - 4 * of_nat (length (trap_words c))) (trap_words c)"
proof -
  have p: "\<exists>m'. push v (d, n) = (d\<lparr>r_esp := r_esp d - 4\<rparr>, m') \<and> words_at m' (r_esp d - 4) (v # ws)"
    if "words_at n (r_esp d) ws" "length ws \<le> 4" for v d n ws using push_frame [OF that(1)] that(2) by simp
  have three: "\<exists>m'. push a1 (push a2 (push a3 (d, n))) = (d\<lparr>r_esp := r_esp d - 12\<rparr>, m') \<and>
      words_at m' (r_esp d - 12) ([a1, a2, a3] @ ws)" if w: "words_at n (r_esp d) ws" "length ws \<le> 2" for a1 a2 a3 d n ws
  proof -
    obtain n1 where n1: "push a3 (d, n) = (d\<lparr>r_esp := r_esp d - 4\<rparr>, n1)" "words_at n1 (r_esp d - 4) (a3 # ws)"
      using p [OF w(1)] w(2) by auto
    obtain n2 where n2: "push a2 (d\<lparr>r_esp := r_esp d - 4\<rparr>, n1) = (d\<lparr>r_esp := r_esp d - 8\<rparr>, n2)"
      "words_at n2 (r_esp d - 8) (a2 # a3 # ws)"
      using p [of n1 "d\<lparr>r_esp := r_esp d - 4\<rparr>" "a3 # ws" a2] n1(2) w(2) by auto
    obtain n3 where n3: "push a1 (d\<lparr>r_esp := r_esp d - 8\<rparr>, n2) = (d\<lparr>r_esp := r_esp d - 12\<rparr>, n3)"
      "words_at n3 (r_esp d - 12) (a1 # a2 # a3 # ws)"
      using p [of n2 "d\<lparr>r_esp := r_esp d - 8\<rparr>" "a2 # a3 # ws" a1] n2(2) w(2) by auto
    then show ?thesis using n1(1) n2(1) by simp
  qed
  show ?thesis
  proof (cases "r_cs c AND 3 = 0")
    case True
    then show ?thesis using three [of m c "[]" "r_eip c" "ucast (r_cs c)" "r_eflags c"]
      by (auto simp: int_entry_def trap_base_def trap_words_def)
  next
    case False
    let ?c = "c\<lparr>r_esp := ts_esp0 t, r_ss := ucast (ts_ss0 t)\<rparr>"
    obtain m1 where m1: "push (ucast (r_ss c)) (?c, m) = (?c\<lparr>r_esp := ts_esp0 t - 4\<rparr>, m1)"
      "words_at m1 (ts_esp0 t - 4) [ucast (r_ss c)]" using p [of m ?c "[]" "ucast (r_ss c)"] by auto
    obtain m2 where m2: "push (r_esp c) (?c\<lparr>r_esp := ts_esp0 t - 4\<rparr>, m1) = (?c\<lparr>r_esp := ts_esp0 t - 8\<rparr>, m2)"
      "words_at m2 (ts_esp0 t - 8) [r_esp c, ucast (r_ss c)]"
      using p [of m1 "?c\<lparr>r_esp := ts_esp0 t - 4\<rparr>" "[ucast (r_ss c)]" "r_esp c"] m1(2) by auto
    show ?thesis
      using False m1(1) m2 three [of m2 "?c\<lparr>r_esp := ts_esp0 t - 8\<rparr>" "[r_esp c, ucast (r_ss c)]" "r_eip c" "ucast (r_cs c)" "r_eflags c"]
      by (auto simp: int_entry_def trap_base_def trap_words_def)
  qed
qed

text \<open>The words below it when the C handler is called, after error code and vector number were pushed.\<close>

definition stub_words :: "u32 \<Rightarrow> u32 \<Rightarrow> cpu \<Rightarrow> u32 list" where
  "stub_words n err c = [(r_eax c AND 0xFFFF0000) OR ucast (r_ds c), r_edi c, r_esi c, r_ebp c, r_esp c - 8, r_ebx c, r_edx c,
     r_ecx c, r_eax c, n, err]"

lemma push_const: "push_reg (\<lambda>_. v) cm = push v cm"
  by (simp add: push_reg_def)

lemma common_stub_frame:
  assumes "words_at m (r_esp c) ws" "length ws < 2 ^ 28"
  shows "\<exists>m' eax. common_stub (push n (push err (c, m))) = (c\<lparr>r_eax := eax, r_ds := 0x10, r_es := 0x10, r_fs := 0x10, r_gs := 0x10, r_esp := r_esp c - 48\<rparr>, m') \<and>
    words_at m' (r_esp c - 48) ((r_esp c - 44) # stub_words n err c @ ws)"
proof -
  obtain m1 where m1: "push err (c, m) = (c\<lparr>r_esp := r_esp c - 4\<rparr>, m1)" "words_at m1 (r_esp c - 4) (err # ws)"
    using push_frame [OF assms(1)] assms(2) by auto
  let ?c = "c\<lparr>r_esp := r_esp c - 8\<rparr>"
  obtain m2 where m2: "push n (c\<lparr>r_esp := r_esp c - 4\<rparr>, m1) = (?c, m2)" "words_at m2 (r_esp c - 8) (n # err # ws)"
    using push_frame [of m1 "c\<lparr>r_esp := r_esp c - 4\<rparr>" "err # ws" n] m1(2) assms(2) by auto
  have e: "pusha (?c, m2) = fold push_reg [r_eax, r_ecx, r_edx, r_ebx, \<lambda>_. r_esp c - 8, r_ebp, r_esi, r_edi] (?c, m2)"
    by (simp add: pusha_def push_const)
  let ?d = "c\<lparr>r_esp := r_esp c - 40\<rparr>"
  obtain m3 where m3: "pusha (?c, m2) = (?d, m3)" "words_at m3 (r_esp c - 40)
      ([r_edi c, r_esi c, r_ebp c, r_esp c - 8, r_ebx c, r_edx c, r_ecx c, r_eax c] @ n # err # ws)"
    unfolding e
    using fold_push_frame [where rs = "[r_eax, r_ecx, r_edx, r_ebx, \<lambda>_. r_esp c - 8, r_ebp, r_esi, r_edi]" and c = ?c
        and m = m2 and ws = "n # err # ws"] m2(2) assms(2)
    by auto
  let ?x = "(r_eax c AND 0xFFFF0000) OR ucast (r_ds c)"
  let ?e = "?d\<lparr>r_eax := ?x\<rparr>"
  obtain m4 where m4: "push ?x (?e, m3) = (?e\<lparr>r_esp := r_esp c - 44\<rparr>, m4)" "words_at m4 (r_esp c - 44) (stub_words n err c @ ws)"
    using push_frame [of m3 ?e "[r_edi c, r_esi c, r_ebp c, r_esp c - 8, r_ebx c, r_edx c, r_ecx c, r_eax c] @ n # err # ws" ?x] m3(2) assms(2)
    by (auto simp: stub_words_def)
  let ?f = "c\<lparr>r_esp := r_esp c - 44, r_eax := (?x AND 0xFFFF0000) OR 0x10, r_ds := 0x10, r_es := 0x10, r_fs := 0x10, r_gs := 0x10\<rparr>"
  obtain m5 where m5: "push (r_esp c - 44) (?f, m4) = (?f\<lparr>r_esp := r_esp c - 48\<rparr>, m5)"
    "words_at m5 (r_esp c - 48) ((r_esp c - 44) # stub_words n err c @ ws)"
    using push_frame [of m4 ?f "stub_words n err c @ ws" "r_esp c - 44"] m4(2) assms(2) by (auto simp: stub_words_def)
  have "common_stub (push n (push err (c, m))) = push (r_esp c - 44) (?f, m4)"
    using m1(1) m2(1) m3(1) m4(1) by (simp add: common_stub_def push_reg_def)
  then show ?thesis using m5 by auto
qed

text \<open>The frame on the kernel stack when the C handler is called.\<close>

lemma trap_frame:
  assumes "common_stub (push n (push err (int_entry t h (c, m)))) = (d, m')"
  shows "words_at m' (r_esp d)
      ((r_esp d + 4) # stub_words n err (c\<lparr>r_esp := trap_base t c - 4 * of_nat (length (trap_words c))\<rparr>) @ trap_words c)"
    and "r_esp d = trap_base t c - 4 * of_nat (length (trap_words c)) - 48"
    and "r_cs d = 8" "r_ss d = (if r_cs c AND 3 = 0 then r_ss c else ucast (ts_ss0 t))" "r_eflags d = r_eflags c AND NOT 0x200"
proof -
  let ?e = "trap_base t c - 4 * of_nat (length (trap_words c))"
  let ?c = "c\<lparr>r_esp := ?e, r_cs := 8, r_eip := h, r_ss := (if r_cs c AND 3 = 0 then r_ss c else ucast (ts_ss0 t)),
    r_eflags := r_eflags c AND NOT 0x200\<rparr>"
  obtain m1 where m1: "int_entry t h (c, m) = (?c, m1)" "words_at m1 ?e (trap_words c)"
    using int_entry_frame by blast
  have l: "length (trap_words c) < 2 ^ 28" by (simp add: trap_words_def)
  obtain eax where d: "d = ?c\<lparr>r_eax := eax, r_ds := 0x10, r_es := 0x10, r_fs := 0x10, r_gs := 0x10, r_esp := ?e - 48\<rparr>"
    "words_at m' (?e - 48) ((?e - 44) # stub_words n err ?c @ trap_words c)"
    using common_stub_frame [of m1 ?c "trap_words c" n err] m1 l assms by auto
  have "stub_words n err ?c = stub_words n err (c\<lparr>r_esp := ?e\<rparr>)" by (simp add: stub_words_def)
  then show "words_at m' (r_esp d) ((r_esp d + 4) # stub_words n err (c\<lparr>r_esp := ?e\<rparr>) @ trap_words c)" using d by simp
  show "r_esp d = ?e - 48" "r_cs d = 8" "r_ss d = (if r_cs c AND 3 = 0 then r_ss c else ucast (ts_ss0 t))"
    "r_eflags d = r_eflags c AND NOT 0x200" using d(1) by simp_all
qed

text \<open>With the processor's error code or the stub's zero, the frame is the same.\<close>

lemma isr_stub_uniform:
  assumes "n < 32"
  shows "isr_stub n (exception_entry t h n err cm) =
    common_stub (push (of_nat n) (push (if has_error_code n then err else 0) (int_entry t h cm)))"
proof -
  have "\<forall>n < 32. isr_stubs ! n = (if has_error_code n then stub_entry_err else stub_entry)"
    by (simp add: isr_stubs_def has_error_code_def numeral_eq_Suc All_less_Suc2)
  then have "isr_stubs ! n = (if has_error_code n then stub_entry_err else stub_entry)" using assms by blast
  then show ?thesis by (simp add: isr_stub_def exception_entry_def stub_entry_def stub_entry_err_def Let_def)
qed

text \<open>
  C32: What a handler of an exception sees. For every vector below 32, with or without an error code, the
  structure at the address handed to the C handler holds the registers of the interrupted code, the return
  address, code segment and flags, the vector number, and the error code or 0, from user mode as from kernel
  mode. The handler runs in the kernel's segments with interrupts disabled.
\<close>

theorem trap_frame_is_registers:
  assumes "n < 32" "isr_stub n (exception_entry t h n err (c, m)) = (d, m')"
  shows "registers_at m' (load32 m' (r_esp d)) = \<lparr>reg_ds = (r_eax c AND 0xFFFF0000) OR ucast (r_ds c), reg_edi = r_edi c,
    reg_esi = r_esi c, reg_ebp = r_ebp c, reg_esp = r_esp d + 40, reg_ebx = r_ebx c, reg_edx = r_edx c, reg_ecx = r_ecx c,
    reg_eax = r_eax c, reg_int_no = of_nat n, reg_err_code = (if has_error_code n then err else 0), reg_eip = r_eip c,
    reg_cs = ucast (r_cs c), reg_eflags = r_eflags c\<rparr> \<and>
    r_cs d = 8 \<and> r_ds d = 0x10 \<and> r_es d = 0x10 \<and> r_fs d = 0x10 \<and> r_gs d = 0x10 \<and> r_eflags d AND 0x200 = 0"
proof -
  note u = assms(2) [unfolded isr_stub_uniform [OF assms(1)]]
  note f = trap_frame [OF u]
  have "r_ds d = 0x10 \<and> r_es d = 0x10 \<and> r_fs d = 0x10 \<and> r_gs d = 0x10" using u by (auto simp: common_stub_def push_reg_def push_def split: prod.splits)
  moreover have "(r_eflags c AND NOT 0x200) AND 0x200 = (0 :: u32)" by (simp add: and.assoc)
  ultimately show ?thesis using f by (simp add: registers_at_def stub_words_def trap_words_def)
qed

lemma words_at_replace:
  assumes w: "words_at m e (us @ w # vs)" and l: "4 * length (us @ w # vs) \<le> 2 ^ 32"
  shows "words_at (store32 (e + 4 * of_nat (length us)) v m) e (us @ v # vs)"
proof -
  let ?k = "4 * of_nat (length us) :: u32"
  let ?m = "store32 (e + ?k) v m"
  have k: "unat ?k = 4 * length us"
    using l unat_of_nat_u32 [of "4 * length us"] by simp
  have "words_at ?m e us = words_at m e us"
  proof (cases "us = []")
    case False
    then have "unat (e - (e + ?k)) = 2 ^ 32 - 4 * length us" using unat_uminus_u32 [of ?k] k by simp
    moreover have "4 * length us + 4 \<le> 2 ^ 32" using l by simp
    ultimately show ?thesis by (intro words_at_store) auto
  qed simp
  moreover have "words_at ?m (e + ?k + 4) vs = words_at m (e + ?k + 4) vs"
    using l by (intro words_at_store) auto
  ultimately show ?thesis using w by simp
qed

lemma ucast_seg: "ucast ((x AND 0xFFFF0000) OR ucast (s :: u16) :: u32) = s"
proof (rule bit_word_eqI)
  fix n assume n: "n < LENGTH(16)"
  have "\<not> bit (0xFFFF0000 :: u32) n"
  proof -
    have "(0xFFFF0000 :: u32) = push_bit 16 0xFFFF" by simp
    then have "bit (0xFFFF0000 :: u32) n = bit (push_bit 16 0xFFFF :: u32) n" by (rule arg_cong)
    then show ?thesis using n by (simp add: bit_push_bit_iff del: push_bit_numeral)
  qed
  then show "bit (ucast ((x AND 0xFFFF0000) OR ucast s :: u32) :: u16) n = bit s n" using n by (simp add: bit_simps)
qed

lemma popa_frame:
  "words_at m (r_esp c) [edi, esi, ebp, x, ebx, edx, ecx, eax] \<Longrightarrow>
   popa (c, m) = (c\<lparr>r_edi := edi, r_esi := esi, r_ebp := ebp, r_ebx := ebx, r_edx := edx, r_ecx := ecx, r_eax := eax,
     r_esp := r_esp c + 32\<rparr>, m)"
  by (simp add: popa_def pop_def)

lemma iret_frame:
  assumes "words_at m (r_esp c) ([eip, cs, eflags] @ us)" "(ucast cs :: u16) AND 3 = r_cs c AND 3 \<or> length us = 2"
  shows "iret (c, m) =
    (let d = c\<lparr>r_eip := eip, r_cs := ucast cs, r_eflags := eflags, r_esp := r_esp c + 12\<rparr>
     in (if (ucast cs :: u16) AND 3 = r_cs c AND 3 then d else d\<lparr>r_esp := us ! 0, r_ss := ucast (us ! 1)\<rparr>), m)"
proof (cases "(ucast cs :: u16) AND 3 = r_cs c AND 3")
  case True
  then show ?thesis using assms(1) by (simp add: iret_def add.commute)
next
  case False
  then obtain a b where "us = [a, b]" using assms(2) by (auto simp: numeral_2_eq_2 length_Suc_conv)
  then show ?thesis using False assms(1) by (simp add: iret_def Let_def add.commute)
qed

lemma syscall_return_frame:
  assumes w: "words_at m (r_esp d + 4) ([ds, edi, esi, ebp, x, ebx, edx, ecx, eax, n, err, eip, cs, eflags] @ us)"
    and l: "length us \<le> 2" "(ucast cs :: u16) AND 3 = r_cs d AND 3 \<or> length us = 2"
  shows "fst (syscall_return rv (d, m)) =
    (let c = d\<lparr>r_edi := edi, r_esi := esi, r_ebp := ebp, r_ebx := ebx, r_edx := edx, r_ecx := ecx, r_eax := rv,
               r_ds := ucast ds, r_es := ucast ds, r_fs := ucast ds, r_gs := ucast ds, r_eip := eip, r_cs := ucast cs, r_eflags := eflags, r_esp := r_esp d + 60\<rparr>
     in if (ucast cs :: u16) AND 3 = r_cs d AND 3 then c else c\<lparr>r_esp := us ! 0, r_ss := ucast (us ! 1)\<rparr>)"
proof -
  let ?e = "r_esp d + 4"
  let ?m = "store32 (?e + 32) rv m"
  let ?d = "d\<lparr>r_eax := rv, r_esp := ?e + 4, r_ebx := ds, r_ds := ucast ds, r_es := ucast ds, r_fs := ucast ds, r_gs := ucast ds\<rparr>"
  have f: "words_at ?m ?e ([ds, edi, esi, ebp, x, ebx, edx, ecx, rv, n, err, eip, cs, eflags] @ us)"
    using words_at_replace [of m ?e "[ds, edi, esi, ebp, x, ebx, edx, ecx]" eax "[n, err, eip, cs, eflags] @ us" rv] w l by simp
  have fp: "words_at ?m (r_esp ?d) [edi, esi, ebp, x, ebx, edx, ecx, rv]" and fi: "words_at ?m (?e + 44) ([eip, cs, eflags] @ us)"
    using f by (simp_all add: add.commute)
  have "load32 m ?e = ds" using w by simp
  then have r1: "syscall_return rv (d, m) = iret (add_esp 8 (popa (?d, ?m)))"
    by (simp add: syscall_return_def pop_def add_esp_def Let_def add.commute)
  have r2: "add_esp 8 (popa (?d, ?m)) = (?d\<lparr>r_edi := edi, r_esi := esi, r_ebp := ebp, r_ebx := ebx, r_edx := edx, r_ecx := ecx,
      r_eax := rv, r_esp := ?e + 44\<rparr>, ?m)" (is "_ = (?c, _)")
  proof -
    have "popa (?d, ?m) = (?d\<lparr>r_edi := edi, r_esi := esi, r_ebp := ebp, r_ebx := ebx, r_edx := edx, r_ecx := ecx, r_eax := rv,
      r_esp := r_esp ?d + 32\<rparr>, ?m)" using fp by (rule popa_frame)
    then show ?thesis by (simp add: add_esp_def)
  qed
  have r3: "fst (iret (?c, ?m)) =
    (let c = ?c\<lparr>r_eip := eip, r_cs := ucast cs, r_eflags := eflags, r_esp := ?e + 44 + 12\<rparr>
     in if (ucast cs :: u16) AND 3 = r_cs d AND 3 then c else c\<lparr>r_esp := us ! 0, r_ss := ucast (us ! 1)\<rparr>)"
    using iret_frame [of ?m ?c eip cs eflags us] fi l(2) by (simp add: Let_def)
  show ?thesis unfolding r1 r2 r3 by (cases d) (simp add: Let_def)
qed

lemma stub_return_frame:
  assumes w: "words_at m (r_esp d + 4) ([ds, edi, esi, ebp, x, ebx, edx, ecx, eax, n, err, eip, cs, eflags] @ us)"
    and l: "(ucast cs :: u16) AND 3 = r_cs d AND 3 \<or> length us = 2"
  shows "fst (stub_return (d, m)) =
    (let c = d\<lparr>r_edi := edi, r_esi := esi, r_ebp := ebp, r_ebx := ebx, r_edx := edx, r_ecx := ecx, r_eax := eax,
               r_ds := ucast ds, r_es := ucast ds, r_fs := ucast ds, r_gs := ucast ds, r_eip := eip, r_cs := ucast cs, r_eflags := eflags, r_esp := r_esp d + 60\<rparr>
     in if (ucast cs :: u16) AND 3 = r_cs d AND 3 then c else c\<lparr>r_esp := us ! 0, r_ss := ucast (us ! 1)\<rparr>)"
proof -
  let ?e = "r_esp d + 4"
  let ?d = "d\<lparr>r_esp := ?e + 4, r_eax := ds, r_ds := ucast ds, r_es := ucast ds, r_fs := ucast ds, r_gs := ucast ds\<rparr>"
  have fp: "words_at m (r_esp ?d) [edi, esi, ebp, x, ebx, edx, ecx, eax]" and fi: "words_at m (?e + 44) ([eip, cs, eflags] @ us)"
    using w by (simp_all add: add.commute)
  have "load32 m ?e = ds" using w by simp
  then have r1: "stub_return (d, m) = iret (add_esp 8 (popa (?d, m)))" by (simp add: stub_return_def pop_def add_esp_def)
  have r2: "add_esp 8 (popa (?d, m)) = (?d\<lparr>r_edi := edi, r_esi := esi, r_ebp := ebp, r_ebx := ebx, r_edx := edx, r_ecx := ecx,
      r_eax := eax, r_esp := ?e + 44\<rparr>, m)" (is "_ = (?c, _)")
  proof -
    have "popa (?d, m) = (?d\<lparr>r_edi := edi, r_esi := esi, r_ebp := ebp, r_ebx := ebx, r_edx := edx, r_ecx := ecx, r_eax := eax,
      r_esp := r_esp ?d + 32\<rparr>, m)" using fp by (rule popa_frame)
    then show ?thesis by (simp add: add_esp_def)
  qed
  have r3: "fst (iret (?c, m)) =
    (let c = ?c\<lparr>r_eip := eip, r_cs := ucast cs, r_eflags := eflags, r_esp := ?e + 44 + 12\<rparr>
     in if (ucast cs :: u16) AND 3 = r_cs d AND 3 then c else c\<lparr>r_esp := us ! 0, r_ss := ucast (us ! 1)\<rparr>)"
    using iret_frame [of m ?c eip cs eflags us] fi l by (simp add: Let_def)
  show ?thesis unfolding r1 r2 r3 by (cases d) (simp add: Let_def)
qed

text \<open>
  The stubs save \<open>ds\<close> alone and load it into all four data segment registers at the end. Code whose four registers
  agree, as in the kernel after \<open>gdt_flush\<close> and in user code after \<open>enter_usermode\<close>, finds them as they were.
\<close>

definition segs_from_ds :: "cpu \<Rightarrow> cpu" where
  "segs_from_ds c = c\<lparr>r_es := r_ds c, r_fs := r_ds c, r_gs := r_ds c\<rparr>"

lemma segs_from_ds_same: "r_es c = r_ds c \<Longrightarrow> r_fs c = r_ds c \<Longrightarrow> r_gs c = r_ds c \<Longrightarrow> segs_from_ds c = c"
  by (simp add: segs_from_ds_def)

lemma ucast_ucast_u16 [simp]: "ucast (ucast (s :: u16) :: u32) = s"
  by (rule bit_word_eqI) (simp add: bit_simps)

text \<open>The intact frame at the end of a handler, and what the stack pointer and stack segment become.\<close>

lemma handler_frame:
  assumes trap: "common_stub (push n (push err (int_entry t h (c, m)))) = (d, m')"
    and regs: "r_esp d' = r_esp d" "r_cs d' = r_cs d" "r_ss d' = r_ss d"
    and frame: "\<And>x. unat (x - (r_esp d + 4)) < 44 + 4 * length (trap_words c) \<Longrightarrow> m'' x = m' x"
  shows "words_at m'' (r_esp d' + 4) ([(r_eax c AND 0xFFFF0000) OR ucast (r_ds c), r_edi c, r_esi c, r_ebp c,
      trap_base t c - 4 * of_nat (length (trap_words c)) - 8, r_ebx c, r_edx c, r_ecx c, r_eax c, n, err, r_eip c,
      ucast (r_cs c), r_eflags c] @ (if r_cs c AND 3 = 0 then [] else [r_esp c, ucast (r_ss c)]))"
    and "r_cs d' AND 3 = 0"
    and "r_cs c AND 3 = 0 \<Longrightarrow> r_ss d' = r_ss c \<and> r_esp d' + 60 = r_esp c"
proof -
  let ?ws = "stub_words n err (c\<lparr>r_esp := trap_base t c - 4 * of_nat (length (trap_words c))\<rparr>) @ trap_words c"
  have l: "length (trap_words c) \<le> 5" "length ?ws = 11 + length (trap_words c)" by (simp_all add: trap_words_def stub_words_def)
  have "words_at m'' (r_esp d + 4) ?ws = words_at m' (r_esp d + 4) ?ws"
    using l by (intro words_at_cong frame) simp_all
  then have w: "words_at m'' (r_esp d' + 4) ?ws" using trap_frame(1) [OF trap] regs(1) by simp
  then show "words_at m'' (r_esp d' + 4) ([(r_eax c AND 0xFFFF0000) OR ucast (r_ds c), r_edi c, r_esi c, r_ebp c,
      trap_base t c - 4 * of_nat (length (trap_words c)) - 8, r_ebx c, r_edx c, r_ecx c, r_eax c, n, err, r_eip c,
      ucast (r_cs c), r_eflags c] @ (if r_cs c AND 3 = 0 then [] else [r_esp c, ucast (r_ss c)]))"
    unfolding stub_words_def trap_words_def by simp
  show "r_cs d' AND 3 = 0" using regs(2) trap_frame(3) [OF trap] by simp
  have e: "r_esp d' = trap_base t c - 4 * of_nat (length (trap_words c)) - 48" using regs(1) trap_frame(2) [OF trap] by simp
  assume k: "r_cs c AND 3 = 0"
  have "r_ss d' = r_ss c" using k regs(3) trap_frame(4) [OF trap] by simp
  moreover have "r_esp d' + 60 = r_esp c" using e k by (simp add: trap_base_def trap_words_def)
  ultimately show "r_ss d' = r_ss c \<and> r_esp d' + 60 = r_esp c" by blast
qed

lemma syscall_frame_transparent:
  assumes trap: "common_stub (push n (push err (int_entry t h (c, m)))) = (d, m')"
    and regs: "r_esp d' = r_esp d" "r_cs d' = r_cs d" "r_ss d' = r_ss d"
    and frame: "\<And>x. unat (x - (r_esp d + 4)) < 44 + 4 * length (trap_words c) \<Longrightarrow> m'' x = m' x"
  shows "fst (syscall_return rv (d', m'')) = (segs_from_ds c)\<lparr>r_eax := rv\<rparr>"
proof -
  note h = handler_frame [OF trap regs frame]
  note r = syscall_return_frame [OF h(1), of rv]
  show ?thesis
  proof (cases "r_cs c AND 3 = 0")
    case True then show ?thesis using r h(2) h(3) by (simp add: ucast_seg segs_from_ds_def)
  next
    case False then show ?thesis using r h(2) by (simp add: ucast_seg segs_from_ds_def)
  qed
qed

text \<open>
  C8: What a system call leaves of the registers of its caller. Let \<open>c\<close> be the caller at \<open>int 0x80\<close>, in user
  or in kernel mode, and let the handler return \<open>rv\<close> with its stack pointer and segments as they were and the
  frame on the kernel stack above its argument intact. Then the caller continues after the instruction with \<open>rv\<close> in
  \<open>eax\<close>; every other general register, the flags, the stack pointer and the segments \<open>cs\<close>, \<open>ss\<close> and \<open>ds\<close> are
  unchanged; but \<open>es\<close>, \<open>fs\<close> and \<open>gs\<close>, which the stub does not save, come back as copies of \<open>ds\<close>. So nothing but
  \<open>eax\<close> changes for a caller whose four data segment registers agree.
\<close>

theorem syscall_transparent:
  assumes trap: "stub_entry 128 (int_entry t h (c, m)) = (d, m')"
    and regs: "r_esp d' = r_esp d" "r_cs d' = r_cs d" "r_ss d' = r_ss d"
    and frame: "\<And>x. unat (x - (r_esp d + 4)) < 44 + 4 * length (trap_words c) \<Longrightarrow> m'' x = m' x"
  shows "fst (syscall_return rv (d', m'')) = c\<lparr>r_es := r_ds c, r_fs := r_ds c, r_gs := r_ds c, r_eax := rv\<rparr>"
  using syscall_frame_transparent [OF trap [unfolded stub_entry_def] regs frame, of rv] by (simp add: segs_from_ds_def)

lemma trap_transparent:
  assumes trap: "common_stub (push n (push err (int_entry t h (c, m)))) = (d, m')"
    and regs: "r_esp d' = r_esp d" "r_cs d' = r_cs d" "r_ss d' = r_ss d"
    and frame: "\<And>x. unat (x - (r_esp d + 4)) < 44 + 4 * length (trap_words c) \<Longrightarrow> m'' x = m' x"
  shows "fst (stub_return (d', m'')) = segs_from_ds c"
proof -
  note h = handler_frame [OF trap regs frame]
  note r = stub_return_frame [OF h(1)]
  show ?thesis
  proof (cases "r_cs c AND 3 = 0")
    case True then show ?thesis using r h(2) h(3) by (simp add: ucast_seg segs_from_ds_def)
  next
    case False then show ?thesis using r h(2) by (simp add: ucast_seg segs_from_ds_def)
  qed
qed

text \<open>
  The same for a hardware interrupt or an exception: if the handler returns with its stack pointer and segments as
  they were and the frame on the kernel stack above its argument intact, the interrupted code continues with every
  register as it was but \<open>es\<close>, \<open>fs\<close> and \<open>gs\<close>, which are copies of \<open>ds\<close>, in user and in kernel mode, whether or not
  the processor pushed an error code.
\<close>

theorem irq_transparent:
  assumes trap: "irq_stub n (int_entry t h (c, m)) = (d, m') \<or> n < 32 \<and> isr_stub n (exception_entry t h n err (c, m)) = (d, m')"
    and regs: "r_esp d' = r_esp d" "r_cs d' = r_cs d" "r_ss d' = r_ss d"
    and frame: "\<And>x. unat (x - (r_esp d + 4)) < 44 + 4 * length (trap_words c) \<Longrightarrow> m'' x = m' x"
  shows "fst (stub_return (d', m'')) = segs_from_ds c"
  using trap
proof
  assume "irq_stub n (int_entry t h (c, m)) = (d, m')"
  from trap_transparent [OF this [unfolded irq_stub_def stub_entry_def] regs frame] show ?thesis .
next
  assume a: "n < 32 \<and> isr_stub n (exception_entry t h n err (c, m)) = (d, m')"
  then have n: "n < 32" and e: "isr_stub n (exception_entry t h n err (c, m)) = (d, m')" by simp_all
  from trap_transparent [OF e [unfolded isr_stub_uniform [OF n]] regs frame] show ?thesis .
qed

text \<open>The frame of a system call, with another result in the place of \<open>eax\<close>, is what \<open>fork_trampoline\<close> expects.\<close>

lemma fork_trampoline_return: "stub_return cm = fork_trampoline (add_esp 4 cm)"
  by (simp add: stub_return_def fork_trampoline_def)

definition user_cpu_ex :: cpu where
  "user_cpu_ex = cpu_ex\<lparr>r_eax := 0, r_ebx := 1, r_ecx := 0x400010, r_edx := 5, r_esp := 0x503F00, r_cs := 0x1B, r_ss := 0x23, r_ds := 0x23, r_es := 0x23, r_fs := 0x23, r_gs := 0x23\<rparr>"

definition tss_ex :: tss_entry where "tss_ex = tss_zero\<lparr>ts_esp0 := 0x9000, ts_ss0 := 0x10\<rparr>"

theorem trap_frame_is_registers_witness:
  "\<exists>d m'. isr_stub 14 (exception_entry tss_ex 0x2000 14 6 (user_cpu_ex, \<lambda>_. 0)) = (d, m') \<and>
    reg_ecx (registers_at m' (load32 m' (r_esp d))) = 0x400010 \<and> reg_err_code (registers_at m' (load32 m' (r_esp d))) = 6 \<and>
    reg_int_no (registers_at m' (load32 m' (r_esp d))) = 14 \<and> r_cs d = 8"
proof -
  obtain d m' where t: "isr_stub 14 (exception_entry tss_ex 0x2000 14 6 (user_cpu_ex, \<lambda>_. 0)) = (d, m')" by (metis surj_pair)
  from trap_frame_is_registers [OF _ t] show ?thesis using t by (simp add: user_cpu_ex_def has_error_code_def)
qed

theorem syscall_transparent_witness:
  "\<exists>d m'. stub_entry 128 (int_entry tss_ex 0x2000 (user_cpu_ex\<lparr>r_es := 0\<rparr>, \<lambda>_. 0)) = (d, m') \<and>
    fst (syscall_return 5 (d, m')) = user_cpu_ex\<lparr>r_eax := 5\<rparr>"
proof -
  obtain d m' where t: "stub_entry 128 (int_entry tss_ex 0x2000 (user_cpu_ex\<lparr>r_es := 0\<rparr>, \<lambda>_. 0)) = (d, m')" by (metis surj_pair)
  from syscall_transparent [OF t, of d m' 5] show ?thesis using t by (simp add: user_cpu_ex_def)
qed

subsection \<open>User mode\<close>

text \<open>
  C33: \<open>enter_usermode\<close>, called in kernel mode with an entry point and a stack, leaves the processor at the entry
  point in privilege level 3 on that stack: code selector 0x1B, stack and data selectors 0x23, interrupts enabled.
\<close>

theorem enter_usermode_state:
  assumes "words_at m (r_esp c) [ret, entry, stack]" "r_cs c AND 3 = 0"
  shows "\<exists>ecx m'. enter_usermode (c, m) = (c\<lparr>r_eax := entry, r_ebx := stack, r_ecx := ecx, r_ds := 0x23, r_es := 0x23, r_fs := 0x23, r_gs := 0x23, r_ss := 0x23,
    r_cs := 0x1B, r_eip := entry, r_esp := stack, r_eflags := 0x202\<rparr>, m')"
proof -
  let ?x = "(r_ecx c AND 0xFFFF0000) OR (0x20 OR 3)"
  let ?c = "c\<lparr>r_eax := entry, r_ebx := stack, r_ecx := ?x, r_ds := 0x20 OR 3, r_es := 0x20 OR 3, r_fs := 0x20 OR 3, r_gs := 0x20 OR 3\<rparr>"
  let ?rs = "[\<lambda>_. 0x20 OR 3, r_ebx, \<lambda>_. 0x202, \<lambda>_. 0x18 OR 3, r_eax]"
  have e: "enter_usermode (c, m) = iret (fold push_reg ?rs (?c, m))"
    using assms(1) by (simp add: enter_usermode_def push_const Let_def add.commute)
  obtain m' where f: "fold push_reg ?rs (?c, m) = (?c\<lparr>r_esp := r_esp c - 20\<rparr>, m')"
    "words_at m' (r_esp c - 20) ([entry, 0x1B, 0x202] @ [stack, 0x23])"
    using fold_push_frame [where rs = ?rs and c = ?c and m = m and ws = "[]"] by auto
  have "iret (?c\<lparr>r_esp := r_esp c - 20\<rparr>, m') =
    (c\<lparr>r_eax := entry, r_ebx := stack, r_ecx := ?x, r_ds := 0x23, r_es := 0x23, r_fs := 0x23, r_gs := 0x23, r_ss := 0x23,
    r_cs := 0x1B, r_eip := entry, r_esp := stack, r_eflags := 0x202\<rparr>, m')"
    using iret_frame [of m' "?c\<lparr>r_esp := r_esp c - 20\<rparr>" entry "0x1B" "0x202" "[stack, 0x23]"] f(2) assms(2)
    by (cases c) simp
  then show ?thesis unfolding e f(1) by blast
qed

theorem enter_usermode_state_witness:
  "r_eip (fst (enter_usermode (cpu_ex, store32 0x8004 0x400000 (store32 0x8008 0x504000 (\<lambda>_. 0))))) = 0x400000 \<and>
   r_cs (fst (enter_usermode (cpu_ex, store32 0x8004 0x400000 (store32 0x8008 0x504000 (\<lambda>_. 0))))) = 0x1B"
proof -
  let ?m = "store32 0x8004 0x400000 (store32 0x8008 0x504000 (\<lambda>_. 0))"
  have "words_at ?m (r_esp cpu_ex) [0, 0x400000, 0x504000]" by (simp add: cpu_ex_def load32_def store32_def)
  moreover have "r_cs cpu_ex AND 3 = 0" by (simp add: cpu_ex_def)
  ultimately show ?thesis using enter_usermode_state [of ?m cpu_ex 0 "0x400000" "0x504000"] by auto
qed

end
