(* ===== verification/Process.thy ===== *)
theory Process
  imports Vga "HOL-Library.Multiset"
begin

text \<open>
  Process control blocks and the process table of \<open>kernel/process.c\<close>, and the run queue and zombie
  list of \<open>kernel/scheduler.c\<close>. The control blocks are stored by address: \<open>pcbs\<close> maps the address
  of every live block to its contents. An access at another address is the error \<open>BadPtr\<close>.
  That the blocks do not overlap other heap objects is the contract of \<open>kmalloc\<close>. The lists are
  linked through the blocks, as in the code.
\<close>

section \<open>Model\<close>

subsection \<open>Control blocks\<close>

definition MAX_PROCESSES :: nat where "MAX_PROCESSES = 16"
definition MAX_FDS_PER_PROCESS :: nat where "MAX_FDS_PER_PROCESS = 8"

datatype process_state = PROCESS_READY | PROCESS_RUNNING | PROCESS_BLOCKED | PROCESS_ZOMBIE | PROCESS_DEAD

record fd_entry =
  fd_in_use :: bool
  fd_file_idx :: int
  fd_offset :: u32

record process =
  p_pid :: u32
  p_name :: cstring
  p_state :: process_state
  p_esp :: u32
  p_cr3 :: u32
  p_parent_pid :: u32
  p_priority :: u32
  p_ticks_remaining :: u32
  p_sleep_ticks :: u32
  p_exit_code :: u32
  p_kernel_stack_top :: u32
  p_stack_frame_lo :: u32
  p_stack_frame_hi :: u32
  p_user_entry :: u32
  p_user_stack_top :: u32
  p_fds :: "fd_entry list"
  p_next :: u32

text \<open>A block of zero bytes; 0 is the code of \<open>PROCESS_READY\<close>.\<close>

definition process_zero :: process where
  "process_zero = \<lparr>p_pid = 0, p_name = [], p_state = PROCESS_READY, p_esp = 0, p_cr3 = 0, p_parent_pid = 0,
     p_priority = 0, p_ticks_remaining = 0, p_sleep_ticks = 0, p_exit_code = 0, p_kernel_stack_top = 0,
     p_stack_frame_lo = 0, p_stack_frame_hi = 0, p_user_entry = 0, p_user_stack_top = 0,
     p_fds = replicate MAX_FDS_PER_PROCESS \<lparr>fd_in_use = False, fd_file_idx = 0, fd_offset = 0\<rparr>, p_next = 0\<rparr>"

definition sizeof_process :: u32 where "sizeof_process = 188"

text \<open>The copied name: at most \<open>n - 1\<close> characters, up to the first NUL.\<close>

fun kstrncpy :: "cstring \<Rightarrow> nat \<Rightarrow> cstring" where
  "kstrncpy (c # cs) (Suc (Suc n)) = (if c \<noteq> 0 then c # kstrncpy cs (Suc n) else [])"
| "kstrncpy _ _ = []"

subsection \<open>The state of the two modules\<close>

record sched =
  pcbs :: "u32 \<rightharpoonup> process"
  next_pid :: u32
  current_process :: u32
  proc_table :: "u32 list"
  queue_head :: u32
  queue_tail :: u32
  queue_size :: u32
  zombie_head :: u32

definition deref :: "u32 \<Rightarrow> sched \<Rightarrow> process res" where
  "deref p s = (case pcbs s p of None \<Rightarrow> Inl (BadPtr p) | Some pcb \<Rightarrow> Inr pcb)"

definition update :: "u32 \<Rightarrow> (process \<Rightarrow> process) \<Rightarrow> sched \<Rightarrow> sched res" where
  "update p f s = (case pcbs s p of None \<Rightarrow> Inl (BadPtr p) | Some pcb \<Rightarrow> Inr (s\<lparr>pcbs := (pcbs s)(p \<mapsto> f pcb)\<rparr>))"

subsection \<open>The process table\<close>

fun first_null :: "nat \<Rightarrow> u32 list \<Rightarrow> nat option" where
  "first_null i [] = None"
| "first_null i (p # ps) = (if p = 0 then Some i else first_null (Suc i) ps)"

text \<open>True where the C function returns 0.\<close>

definition proc_table_add :: "u32 \<Rightarrow> sched \<Rightarrow> bool \<times> sched" where
  "proc_table_add proc s =
     (case first_null 0 (proc_table s) of
        Some i \<Rightarrow> (True, s\<lparr>proc_table := (proc_table s)[i := proc]\<rparr>)
      | None \<Rightarrow> (False, s))"

fun clear_first :: "u32 \<Rightarrow> u32 list \<Rightarrow> u32 list" where
  "clear_first q [] = []"
| "clear_first q (p # ps) = (if p = q then 0 # ps else p # clear_first q ps)"

definition proc_table_remove :: "u32 \<Rightarrow> sched \<Rightarrow> sched" where
  "proc_table_remove proc s = s\<lparr>proc_table := clear_first proc (proc_table s)\<rparr>"

fun lookup_loop :: "u32 \<Rightarrow> sched \<Rightarrow> u32 list \<Rightarrow> u32 res" where
  "lookup_loop pid s [] = Inr 0"
| "lookup_loop pid s (p # ps) =
     (if p \<noteq> 0 then bindR (deref p s) (\<lambda>pcb. if p_pid pcb = pid then Inr p else lookup_loop pid s ps)
      else lookup_loop pid s ps)"

definition process_lookup :: "u32 \<Rightarrow> sched \<Rightarrow> u32 res" where
  "process_lookup pid s = lookup_loop pid s (proc_table s)"

definition process_current :: "sched \<Rightarrow> u32" where "process_current s = current_process s"

definition process_set_current :: "u32 \<Rightarrow> sched \<Rightarrow> sched" where
  "process_set_current proc s = s\<lparr>current_process := proc\<rparr>"

subsection \<open>The run queue\<close>

text \<open>Interrupts are off inside the queue operations, so each of them is one step.\<close>

definition scheduler_enqueue :: "u32 \<Rightarrow> sched \<Rightarrow> sched res" where
  "scheduler_enqueue proc s =
     (if proc = 0 then Inr s
      else
        bindR (update proc (\<lambda>p. p\<lparr>p_state := PROCESS_READY\<rparr>) s) (\<lambda>s.
        bindR (update proc (\<lambda>p. p\<lparr>p_next := 0\<rparr>) s) (\<lambda>s.
        bindR (if queue_head s = 0 then Inr (s\<lparr>queue_head := proc, queue_tail := proc\<rparr>)
               else bindR (update (queue_tail s) (\<lambda>p. p\<lparr>p_next := proc\<rparr>) s) (\<lambda>s. Inr (s\<lparr>queue_tail := proc\<rparr>)))
          (\<lambda>s. Inr (s\<lparr>queue_size := queue_size s + 1\<rparr>)))))"

fun dequeue_loop :: "nat \<Rightarrow> u32 \<Rightarrow> u32 \<Rightarrow> u32 \<Rightarrow> sched \<Rightarrow> sched res" where
  "dequeue_loop 0 proc prev cur s = Inl NoReturn"
| "dequeue_loop (Suc fuel) proc prev cur s =
     (if cur = 0 then Inr s
      else bindR (deref cur s) (\<lambda>c.
        if cur = proc then
          bindR (if prev \<noteq> 0 then update prev (\<lambda>p. p\<lparr>p_next := p_next c\<rparr>) s else Inr (s\<lparr>queue_head := p_next c\<rparr>)) (\<lambda>s.
          bindR (update cur (\<lambda>p. p\<lparr>p_next := 0\<rparr>) (if cur = queue_tail s then s\<lparr>queue_tail := prev\<rparr> else s)) (\<lambda>s.
          Inr (s\<lparr>queue_size := queue_size s - 1\<rparr>)))
        else dequeue_loop fuel proc cur (p_next c) s))"

definition scheduler_dequeue :: "u32 \<Rightarrow> sched \<Rightarrow> sched res" where
  "scheduler_dequeue proc s =
     (if proc = 0 \<or> queue_head s = 0 then Inr s else dequeue_loop walk_fuel proc 0 (queue_head s) s)"

definition scheduler_mark_zombie :: "u32 \<Rightarrow> sched \<Rightarrow> sched res" where
  "scheduler_mark_zombie proc s =
     (if proc = 0 then Inr s
      else bindR (scheduler_dequeue proc s) (\<lambda>s.
        bindR (update proc (\<lambda>p. p\<lparr>p_next := zombie_head s\<rparr>) s) (\<lambda>s.
        Inr (s\<lparr>zombie_head := proc\<rparr>))))"

definition scheduler_queue_head :: "sched \<Rightarrow> u32" where "scheduler_queue_head s = queue_head s"

text \<open>One turn of \<open>pick_next\<close>: the head of the queue moves to its end.\<close>

definition rotate_queue :: "sched \<Rightarrow> (u32 \<times> sched) res" where
  "rotate_queue s =
     (let nxt = queue_head s in
      bindR (deref nxt s) (\<lambda>n.
        let s = s\<lparr>queue_head := p_next n\<rparr>;
            s = (if queue_head s = 0 then s\<lparr>queue_tail := 0\<rparr> else s)
        in bindR (update nxt (\<lambda>p. p\<lparr>p_next := 0\<rparr>) s) (\<lambda>s.
           bindR (if queue_head s = 0 then Inr (s\<lparr>queue_head := nxt, queue_tail := nxt\<rparr>)
                  else bindR (update (queue_tail s) (\<lambda>p. p\<lparr>p_next := nxt\<rparr>) s) (\<lambda>s. Inr (s\<lparr>queue_tail := nxt\<rparr>)))
             (\<lambda>s. Inr (nxt, s)))))"

fun pick_loop :: "nat \<Rightarrow> sched \<Rightarrow> (u32 \<times> sched) res" where
  "pick_loop 0 s = Inr (0, s)"
| "pick_loop (Suc left) s =
     bindR (rotate_queue s) (\<lambda>(nxt, s).
       bindR (deref nxt s) (\<lambda>n.
         if p_state n = PROCESS_READY then Inr (nxt, s) else pick_loop left s))"

definition pick_next :: "sched \<Rightarrow> (u32 \<times> sched) res" where
  "pick_next s = (if queue_head s = 0 then Inr (0, s) else pick_loop (unat (queue_size s)) s)"

subsection \<open>Zombies\<close>

definition is_pid_alive :: "u32 \<Rightarrow> sched \<Rightarrow> bool res" where
  "is_pid_alive pid s =
     (if pid = 0 then Inr False
      else bindR (process_lookup pid s) (\<lambda>p.
        if p = 0 then Inr False
        else bindR (deref p s) (\<lambda>pcb. Inr (p_state pcb \<noteq> PROCESS_ZOMBIE \<and> p_state pcb \<noteq> PROCESS_DEAD))))"

subsection \<open>Sleepers\<close>

fun wake_loop :: "nat \<Rightarrow> u32 \<Rightarrow> sched \<Rightarrow> sched res" where
  "wake_loop 0 p s = Inl NoReturn"
| "wake_loop (Suc fuel) p s =
     (if p = 0 then Inr s
      else bindR (deref p s) (\<lambda>pcb.
        bindR (if p_state pcb = PROCESS_BLOCKED \<and> p_sleep_ticks pcb > 0 then
                 update p (\<lambda>q. let q = q\<lparr>p_sleep_ticks := p_sleep_ticks q - 1\<rparr> in
                                if p_sleep_ticks q = 0 then q\<lparr>p_state := PROCESS_READY\<rparr> else q) s
               else Inr s)
          (\<lambda>s. wake_loop fuel (p_next pcb) s)))"

subsection \<open>Listing\<close>

fun state_name :: "process_state \<Rightarrow> string" where
  "state_name PROCESS_READY = ''READY  ''"
| "state_name PROCESS_RUNNING = ''RUNNING''"
| "state_name PROCESS_BLOCKED = ''BLOCKED''"
| "state_name PROCESS_ZOMBIE = ''ZOMBIE ''"
| "state_name PROCESS_DEAD = ''DEAD   ''"

definition print_proc_row :: "process \<Rightarrow> bool \<Rightarrow> vga \<Rightarrow> vga" where
  "print_proc_row p highlight s =
     (let s = vga_set_color (if highlight then VGA_COLOR_WHITE else VGA_COLOR_LIGHT_GREY) s;
          s = kprint_int (p_pid p) s;
          s = kprint (lit ''    '') s;
          s = kprint (lit (state_name (p_state p))) s;
          s = kprint (lit ''  '') s;
          s = kprint_int (p_priority p) s;
          s = kprint (lit ''    '') s;
          s = kprint (p_name p) s
      in kprint (lit ''\<newline>'') s)"

text \<open>A walk over the queue that prints every process except the current one.\<close>

fun list_loop :: "(process \<Rightarrow> vga \<Rightarrow> vga) \<Rightarrow> nat \<Rightarrow> u32 \<Rightarrow> u32 \<Rightarrow> sched \<Rightarrow> vga \<Rightarrow> vga res" where
  "list_loop row 0 cur p s v = Inl NoReturn"
| "list_loop row (Suc fuel) cur p s v =
     (if p = 0 then Inr v
      else bindR (deref p s) (\<lambda>pcb.
        list_loop row fuel cur (p_next pcb) s (if p \<noteq> cur then row pcb v else v)))"

definition process_list :: "sched \<Rightarrow> vga \<Rightarrow> vga res" where
  "process_list s v =
     (let v = vga_set_color VGA_COLOR_LIGHT_CYAN v;
          v = kprint (lit ''PID  STATE    PRI  NAME\<newline>'') v;
          v = kprint (lit ''---  -------  ---  ----------------\<newline>'') v;
          cur = process_current s
      in bindR (if cur \<noteq> 0 then bindR (deref cur s) (\<lambda>pcb. Inr (print_proc_row pcb True v)) else Inr v) (\<lambda>v.
         bindR (list_loop (\<lambda>pcb. print_proc_row pcb False) walk_fuel cur (scheduler_queue_head s) s v) (\<lambda>v.
         Inr (vga_set_color VGA_COLOR_LIGHT_GREY v))))"

section \<open>The run queue as a list\<close>

text \<open>\<open>seg m p xs q\<close>: following the links from \<open>p\<close> visits the blocks \<open>xs\<close> and arrives at \<open>q\<close>.\<close>

fun seg :: "(u32 \<rightharpoonup> process) \<Rightarrow> u32 \<Rightarrow> u32 list \<Rightarrow> u32 \<Rightarrow> bool" where
  "seg m p [] q = (p = q)"
| "seg m p (x # xs) q = (p = x \<and> x \<noteq> 0 \<and> (case m x of None \<Rightarrow> False | Some b \<Rightarrow> seg m (p_next b) xs q))"

definition run_queue :: "sched \<Rightarrow> u32 list \<Rightarrow> bool" where
  "run_queue s xs \<longleftrightarrow> seg (pcbs s) (queue_head s) xs 0 \<and> distinct xs \<and>
     queue_tail s = (if xs = [] then 0 else last xs) \<and> queue_size s = of_nat (length xs)"

definition zombies :: "sched \<Rightarrow> u32 list \<Rightarrow> bool" where
  "zombies s zs \<longleftrightarrow> seg (pcbs s) (zombie_head s) zs 0 \<and> distinct zs"

lemma seg_append: "seg m p (xs @ ys) q \<longleftrightarrow> (\<exists>r. seg m p xs r \<and> seg m r ys q)"
  by (induction xs arbitrary: p) (auto split: option.splits)

lemma seg_upd [simp]: "x \<notin> set xs \<Longrightarrow> seg (m(x := b)) p xs q = seg m p xs q"
  by (induction xs arbitrary: p) (auto split: option.splits)

lemma seg_cong:
  "(\<And>x. x \<in> set xs \<Longrightarrow> map_option p_next (m x) = map_option p_next (m' x)) \<Longrightarrow> seg m p xs q = seg m' p xs q"
proof (induction xs arbitrary: p)
  case (Cons a xs)
  have "map_option p_next (m a) = map_option p_next (m' a)" using Cons.prems by simp
  moreover have "seg m p' xs q = seg m' p' xs q" for p' using Cons by simp
  ultimately show ?case by (cases "m a"; cases "m' a") auto
qed simp

lemma seg_dom: "seg m p xs q \<Longrightarrow> x \<in> set xs \<Longrightarrow> x \<noteq> 0 \<and> (\<exists>b. m x = Some b)"
  by (induction xs arbitrary: p) (auto split: option.splits)

lemma seg_unique: "seg m p xs 0 \<Longrightarrow> seg m p ys 0 \<Longrightarrow> xs = ys"
proof (induction xs arbitrary: p ys)
  case Nil then show ?case by (cases ys) auto
next
  case (Cons x xs) then show ?case by (cases ys) (auto split: option.splits)
qed

lemma seg_head_zero: "seg m p xs 0 \<Longrightarrow> p = 0 \<longleftrightarrow> xs = []"
  by (cases xs) auto

lemma seg_snoc_link:
  assumes "seg m p (xs @ [y]) q" "y \<notin> set xs" "m y = Some b"
  shows "seg (m(y \<mapsto> b\<lparr>p_next := r\<rparr>)) p (xs @ [y]) r"
  using assms by (auto simp: seg_append)

lemma run_queue_unique: "run_queue s xs \<Longrightarrow> run_queue s ys \<Longrightarrow> xs = ys"
  unfolding run_queue_def using seg_unique by blast

lemma run_queue_dom: "run_queue s xs \<Longrightarrow> x \<in> set xs \<Longrightarrow> x \<noteq> 0 \<and> (\<exists>b. pcbs s x = Some b)"
  unfolding run_queue_def using seg_dom by blast

lemma run_queue_length: "run_queue s xs \<Longrightarrow> length xs < walk_fuel"
  using length_distinct_nonzero_u32 [of xs] run_queue_dom [of s xs 0] unfolding run_queue_def by blast

lemma run_queue_size: "run_queue s xs \<Longrightarrow> unat (queue_size s) = length xs"
  using run_queue_length [of s xs] unfolding run_queue_def
  by (simp add: unat_of_nat take_bit_eq_mod walk_fuel_def)

text \<open>What the queue operations leave alone: everything but the links, and the links outside a set.\<close>

definition links_only :: "u32 set \<Rightarrow> (u32 \<rightharpoonup> process) \<Rightarrow> (u32 \<rightharpoonup> process) \<Rightarrow> bool" where
  "links_only X m m' \<longleftrightarrow> (\<forall>x. (x \<notin> X \<longrightarrow> m' x = m x) \<and>
     map_option (\<lambda>b. b\<lparr>p_next := 0\<rparr>) (m' x) = map_option (\<lambda>b. b\<lparr>p_next := 0\<rparr>) (m x))"

definition queue_step :: "u32 set \<Rightarrow> sched \<Rightarrow> sched \<Rightarrow> bool" where
  "queue_step X s s' \<longleftrightarrow> links_only X (pcbs s) (pcbs s') \<and> next_pid s' = next_pid s \<and>
     current_process s' = current_process s \<and> proc_table s' = proc_table s \<and> zombie_head s' = zombie_head s"

lemma links_only_refl [simp]: "links_only X m m"
  by (simp add: links_only_def)

lemma links_only_trans: "links_only X m m' \<Longrightarrow> links_only Y m' m'' \<Longrightarrow> links_only (X \<union> Y) m m''"
  unfolding links_only_def by auto

lemma links_only_mono: "links_only X m m' \<Longrightarrow> X \<subseteq> Y \<Longrightarrow> links_only Y m m'"
  unfolding links_only_def by blast

lemma links_only_upd: "m x = Some b \<Longrightarrow> x \<in> X \<Longrightarrow> links_only X m (m(x \<mapsto> b\<lparr>p_next := r\<rparr>))"
  unfolding links_only_def by auto

lemma links_only_lookup:
  assumes "links_only X m m'"
  shows "m' x = None \<longleftrightarrow> m x = None"
    "m x = Some b \<Longrightarrow> \<exists>r. m' x = Some (b\<lparr>p_next := r\<rparr>)"
proof -
  have e: "map_option (\<lambda>b. b\<lparr>p_next := 0\<rparr>) (m' x) = map_option (\<lambda>b. b\<lparr>p_next := 0\<rparr>) (m x)"
    using assms unfolding links_only_def by blast
  show "m' x = None \<longleftrightarrow> m x = None" using e by (metis map_option_is_None)
  assume "m x = Some b"
  then obtain c where c: "m' x = Some c" "c\<lparr>p_next := 0\<rparr> = b\<lparr>p_next := 0\<rparr>" using e by auto
  have "c = (c\<lparr>p_next := 0\<rparr>)\<lparr>p_next := p_next c\<rparr>" by simp
  also have "\<dots> = b\<lparr>p_next := p_next c\<rparr>" unfolding c(2) by simp
  finally show "\<exists>r. m' x = Some (b\<lparr>p_next := r\<rparr>)" using c(1) by metis
qed

lemma seg_links_only: "links_only X m m' \<Longrightarrow> set xs \<inter> X = {} \<Longrightarrow> seg m' p xs q = seg m p xs q"
  by (intro seg_cong) (auto simp: links_only_def)

lemma queue_step_refl [simp]: "queue_step X s s"
  by (simp add: queue_step_def)

lemma queue_step_trans: "queue_step X s s' \<Longrightarrow> queue_step Y s' s'' \<Longrightarrow> queue_step (X \<union> Y) s s''"
  unfolding queue_step_def using links_only_trans by auto

lemma queue_step_mono: "queue_step X s s' \<Longrightarrow> X \<subseteq> Y \<Longrightarrow> queue_step Y s s'"
  unfolding queue_step_def using links_only_mono by blast

lemma update_eq: "pcbs s p = Some b \<Longrightarrow> update p f s = Inr (s\<lparr>pcbs := (pcbs s)(p \<mapsto> f b)\<rparr>)"
  by (simp add: update_def)

lemma deref_eq: "pcbs s p = Some b \<Longrightarrow> deref p s = Inr b"
  by (simp add: deref_def)

text \<open>Appending a process whose link is already null.\<close>

lemma seg_snoc:
  assumes "seg m h (ys @ [y]) 0" "distinct (ys @ [y])" "p \<notin> set (ys @ [y])" "m y = Some b" "m p = Some c" "p_next c = 0" "p \<noteq> 0"
  shows "seg (m(y \<mapsto> b\<lparr>p_next := p\<rparr>)) h (ys @ [y] @ [p]) 0"
proof -
  have "seg (m(y \<mapsto> b\<lparr>p_next := p\<rparr>)) h (ys @ [y]) p"
    using seg_snoc_link [OF assms(1) _ assms(4)] assms(2) by simp
  moreover have "seg (m(y \<mapsto> b\<lparr>p_next := p\<rparr>)) p [p] 0" using assms by auto
  ultimately have "seg (m(y \<mapsto> b\<lparr>p_next := p\<rparr>)) h ((ys @ [y]) @ [p]) 0"
    unfolding seg_append [of _ _ "ys @ [y]"] by blast
  then show ?thesis by simp
qed

lemma scheduler_enqueue_rep:
  assumes q: "run_queue s xs" and p: "p \<noteq> 0" "p \<notin> set xs" "pcbs s p = Some b"
  shows "\<exists>s'. scheduler_enqueue p s = Inr s' \<and> run_queue s' (xs @ [p]) \<and>
    queue_step (insert p (set xs)) (s\<lparr>pcbs := (pcbs s)(p \<mapsto> b\<lparr>p_state := PROCESS_READY\<rparr>)\<rparr>) s'"
proof (cases xs rule: rev_cases)
  case Nil
  then have h: "queue_head s = 0" and n: "queue_size s = 0" using q by (auto simp: run_queue_def)
  let ?s = "s\<lparr>pcbs := (pcbs s)(p \<mapsto> b\<lparr>p_state := PROCESS_READY, p_next := 0\<rparr>), queue_head := p, queue_tail := p, queue_size := 1\<rparr>"
  have "scheduler_enqueue p s = Inr ?s"
    using h n p by (simp add: scheduler_enqueue_def update_eq bindR_def)
  moreover have "run_queue ?s (xs @ [p])" using Nil p by (simp add: run_queue_def)
  moreover have "queue_step (insert p (set xs)) (s\<lparr>pcbs := (pcbs s)(p \<mapsto> b\<lparr>p_state := PROCESS_READY\<rparr>)\<rparr>) ?s"
    by (auto simp: queue_step_def links_only_def)
  ultimately show ?thesis by blast
next
  case (snoc ys y)
  have h: "queue_head s \<noteq> 0" and t: "queue_tail s = y" and n: "queue_size s = of_nat (length xs)"
    and sg: "seg (pcbs s) (queue_head s) (ys @ [y]) 0" and d: "distinct (ys @ [y])"
    using q seg_head_zero [of "pcbs s" "queue_head s" xs] snoc by (auto simp: run_queue_def)
  have py: "p \<noteq> y" "y \<in> set xs" using p snoc by auto
  obtain c where c: "pcbs s y = Some c" using run_queue_dom [OF q py(2)] by blast
  let ?b = "b\<lparr>p_state := PROCESS_READY, p_next := 0\<rparr>"
  let ?m = "(pcbs s)(p \<mapsto> ?b)"
  let ?s = "s\<lparr>pcbs := ?m(y \<mapsto> c\<lparr>p_next := p\<rparr>), queue_tail := p, queue_size := queue_size s + 1\<rparr>"
  have "scheduler_enqueue p s = Inr ?s"
    using h t p py c by (simp add: scheduler_enqueue_def update_eq bindR_def)
  moreover have "run_queue ?s (xs @ [p])"
  proof -
    have "seg ?m (queue_head s) (ys @ [y]) 0" using sg p snoc by simp
    moreover have "?m y = Some c" "?m p = Some ?b" "p_next ?b = 0" "p \<notin> set (ys @ [y])" using c p py snoc by auto
    ultimately have "seg (?m(y \<mapsto> c\<lparr>p_next := p\<rparr>)) (queue_head s) (ys @ [y] @ [p]) 0"
      using d p(1) by (intro seg_snoc)
    moreover have "distinct (xs @ [p])" using p snoc d by auto
    ultimately show ?thesis using snoc n by (simp add: run_queue_def)
  qed
  moreover have "queue_step (insert p (set xs)) (s\<lparr>pcbs := (pcbs s)(p \<mapsto> b\<lparr>p_state := PROCESS_READY\<rparr>)\<rparr>) ?s"
  proof -
    have "links_only (insert p (set xs)) ((pcbs s)(p \<mapsto> b\<lparr>p_state := PROCESS_READY\<rparr>)) (?m(y \<mapsto> c\<lparr>p_next := p\<rparr>))"
    proof -
      have "links_only (insert p (set xs)) ((pcbs s)(p \<mapsto> b\<lparr>p_state := PROCESS_READY\<rparr>)) ?m"
        using links_only_upd [of "(pcbs s)(p \<mapsto> b\<lparr>p_state := PROCESS_READY\<rparr>)" p "b\<lparr>p_state := PROCESS_READY\<rparr>" "insert p (set xs)" 0]
        by simp
      moreover have "links_only (insert p (set xs)) ?m (?m(y \<mapsto> c\<lparr>p_next := p\<rparr>))"
        using c py by (intro links_only_upd) auto
      ultimately show ?thesis using links_only_trans by fastforce
    qed
    then show ?thesis by (simp add: queue_step_def)
  qed
  ultimately show ?thesis by blast
qed

subsection \<open>Removal\<close>

lemma dequeue_loop_step:
  "cur \<noteq> 0 \<Longrightarrow> cur \<noteq> p \<Longrightarrow> pcbs s cur = Some b \<Longrightarrow> dequeue_loop (Suc f) p prev cur s = dequeue_loop f p cur (p_next b) s"
  by (simp add: deref_eq bindR_def)

lemma dequeue_loop_absent:
  "seg (pcbs s) cur xs 0 \<Longrightarrow> p \<notin> set xs \<Longrightarrow> dequeue_loop (length xs + Suc fuel) p prev cur s = Inr s"
proof (induction xs arbitrary: prev cur)
  case (Cons x xs)
  then obtain b where b: "pcbs s x = Some b" "seg (pcbs s) (p_next b) xs 0" "cur = x" "x \<noteq> 0" "x \<noteq> p"
    by (auto split: option.splits)
  then have "dequeue_loop (Suc (length xs + Suc fuel)) p prev cur s = dequeue_loop (length xs + Suc fuel) p x (p_next b) s"
    by (simp only: dequeue_loop_step not_False_eq_True)
  then show ?case using Cons.IH [OF b(2)] Cons.prems by (simp del: dequeue_loop.simps)
qed simp

text \<open>The loop stops at the block, with the block before it in \<open>prev\<close>.\<close>

lemma dequeue_loop_skip:
  "seg (pcbs s) cur ys p \<Longrightarrow> p \<notin> set ys \<Longrightarrow>
   dequeue_loop (length ys + Suc fuel) p prev cur s =
   dequeue_loop (Suc fuel) p (if ys = [] then prev else last ys) p s"
proof (induction ys arbitrary: prev cur)
  case (Cons y ys)
  then obtain b where b: "pcbs s y = Some b" "seg (pcbs s) (p_next b) ys p" "cur = y" "y \<noteq> 0" "y \<noteq> p"
    by (auto split: option.splits)
  then have "dequeue_loop (Suc (length ys + Suc fuel)) p prev cur s = dequeue_loop (length ys + Suc fuel) p y (p_next b) s"
    by (simp only: dequeue_loop_step not_False_eq_True)
  also have "\<dots> = dequeue_loop (Suc fuel) p (if ys = [] then y else last ys) p s"
    using Cons b by (simp del: dequeue_loop.simps)
  finally show ?case by (simp del: dequeue_loop.simps)
qed simp

lemma seg_drop_mid:
  assumes "seg m h (ys @ y # p # zs) 0" "distinct (ys @ y # p # zs)" "m y = Some b" "m p = Some c"
  shows "seg (m(y \<mapsto> b\<lparr>p_next := p_next c\<rparr>, p \<mapsto> c\<lparr>p_next := 0\<rparr>)) h (ys @ y # zs) 0"
proof -
  have "seg m h ys y" "seg m (p_next c) zs 0" "y \<noteq> 0"
    using assms by (auto simp: seg_append)
  then show ?thesis using assms(2) by (auto simp: seg_append)
qed

text \<open>The removal itself, with \<open>p\<close> after the blocks \<open>ys\<close>.\<close>

definition unlink :: "u32 list \<Rightarrow> u32 \<Rightarrow> u32 \<Rightarrow> sched \<Rightarrow> sched" where
  "unlink ys p nxt s = (let m = pcbs s;
     m = (if ys = [] then m else m(last ys := map_option (\<lambda>b. b\<lparr>p_next := nxt\<rparr>) (m (last ys))));
     m = m(p := map_option (\<lambda>b. b\<lparr>p_next := 0\<rparr>) (m p))
   in s\<lparr>pcbs := m, queue_head := (if ys = [] then nxt else queue_head s),
         queue_tail := (if p = queue_tail s then (if ys = [] then 0 else last ys) else queue_tail s),
         queue_size := queue_size s - 1\<rparr>)"

lemma dequeue_loop_found:
  assumes sg: "seg (pcbs s) h (ys @ p # zs) 0" and d: "distinct (ys @ p # zs)" and c: "pcbs s p = Some c"
  shows "dequeue_loop (length ys + Suc fuel) p 0 h s = Inr (unlink ys p (p_next c) s)"
proof -
  have a: "seg (pcbs s) h ys p" "p \<noteq> 0" using sg by (auto simp: seg_append)
  have "dequeue_loop (length ys + Suc fuel) p 0 h s = dequeue_loop (Suc fuel) p (if ys = [] then 0 else last ys) p s"
    using a d by (intro dequeue_loop_skip) auto
  also have "\<dots> = Inr (unlink ys p (p_next c) s)"
  proof (cases "ys = []")
    case True then show ?thesis using a c by (auto simp: deref_eq update_def bindR_def unlink_def)
  next
    case False
    then have "last ys \<in> set ys" by simp
    then obtain b where "pcbs s (last ys) = Some b" "last ys \<noteq> 0" "last ys \<noteq> p"
      using seg_dom [OF a(1)] d by auto
    then show ?thesis using False a c by (auto simp: deref_eq update_def bindR_def unlink_def)
  qed
  finally show ?thesis .
qed

lemma unlink_rep:
  assumes q: "run_queue s (ys @ p # zs)" and c: "pcbs s p = Some c"
  shows "run_queue (unlink ys p (p_next c) s) (ys @ zs)"
    "queue_step (set (ys @ [p])) s (unlink ys p (p_next c) s)"
proof -
  have sg: "seg (pcbs s) (queue_head s) (ys @ p # zs) 0" and d: "distinct (ys @ p # zs)"
    and t: "queue_tail s = last (ys @ p # zs)" and n: "queue_size s = of_nat (length (ys @ p # zs))"
    using q by (auto simp: run_queue_def)
  have pt: "p = queue_tail s \<longleftrightarrow> zs = []" using t d by (cases zs rule: rev_cases) auto
  show "run_queue (unlink ys p (p_next c) s) (ys @ zs)"
  proof (cases ys rule: rev_cases)
    case Nil
    then show ?thesis using sg d t n c pt
      by (auto simp: run_queue_def unlink_def split: option.splits)
  next
    case (snoc us u)
    then obtain b where b: "pcbs s u = Some b" "u \<noteq> p" using seg_dom [OF sg, of u] d by auto
    have "seg ((pcbs s)(u \<mapsto> b\<lparr>p_next := p_next c\<rparr>, p \<mapsto> c\<lparr>p_next := 0\<rparr>)) (queue_head s) (us @ u # zs) 0"
      using seg_drop_mid [of "pcbs s" "queue_head s" us u p zs b c] sg d b c snoc by simp
    then show ?thesis using snoc b c d t n pt by (auto simp: run_queue_def unlink_def)
  qed
  have "ys \<noteq> [] \<Longrightarrow> last ys \<noteq> p" using d by auto
  then show "queue_step (set (ys @ [p])) s (unlink ys p (p_next c) s)"
    using c by (auto simp: queue_step_def links_only_def unlink_def Let_def option.map_comp o_def)
qed

lemma scheduler_dequeue_rep:
  assumes q: "run_queue s xs"
  shows "\<exists>s'. scheduler_dequeue p s = Inr s' \<and> run_queue s' (remove1 p xs) \<and> queue_step (set xs) s s' \<and>
    (p \<notin> set xs \<longrightarrow> s' = s)"
proof (cases "p \<in> set xs")
  case False
  have sg: "seg (pcbs s) (queue_head s) xs 0" using q by (simp add: run_queue_def)
  have "length xs < walk_fuel" by (rule run_queue_length [OF q])
  then have "scheduler_dequeue p s = Inr s"
    using dequeue_loop_absent [OF sg False, of "walk_fuel - Suc (length xs)"]
    by (simp add: scheduler_dequeue_def del: dequeue_loop.simps)
  then show ?thesis using q False by (simp add: remove1_idem)
next
  case True
  then obtain ys zs where xs: "xs = ys @ p # zs" "p \<notin> set ys" by (meson split_list_first)
  obtain c where c: "pcbs s p = Some c" "p \<noteq> 0" using run_queue_dom [OF q True] by blast
  have sg: "seg (pcbs s) (queue_head s) (ys @ p # zs) 0" "distinct (ys @ p # zs)" "queue_head s \<noteq> 0"
    using q xs seg_head_zero [of "pcbs s" "queue_head s" xs] by (auto simp: run_queue_def)
  have "length ys < walk_fuel" using run_queue_length [OF q] xs by simp
  then have "scheduler_dequeue p s = Inr (unlink ys p (p_next c) s)"
    using dequeue_loop_found [OF sg(1,2) c(1), of "walk_fuel - Suc (length ys)"] sg c
    by (simp add: scheduler_dequeue_def del: dequeue_loop.simps)
  then show ?thesis using unlink_rep [of s ys p zs c] q xs c queue_step_mono [of "set (ys @ [p])" s _ "set xs"]
    by (auto simp: remove1_append)
qed

subsection \<open>Rotation\<close>

definition is_ready :: "sched \<Rightarrow> u32 \<Rightarrow> bool" where
  "is_ready s x = (case pcbs s x of None \<Rightarrow> False | Some b \<Rightarrow> p_state b = PROCESS_READY)"

lemma is_ready_step: "queue_step X s s' \<Longrightarrow> is_ready s' = is_ready s"
proof
  fix x assume q: "queue_step X s s'"
  then have l: "links_only X (pcbs s) (pcbs s')" by (simp add: queue_step_def)
  show "is_ready s' x = is_ready s x"
    using links_only_lookup [OF l, of x] by (cases "pcbs s x") (auto simp: is_ready_def)
qed

lemma rotate_queue_rep:
  assumes q: "run_queue s (x # xs)"
  shows "\<exists>s'. rotate_queue s = Inr (x, s') \<and> run_queue s' (xs @ [x]) \<and> queue_step (set (x # xs)) s s'"
proof -
  obtain b where b: "pcbs s x = Some b" using run_queue_dom [OF q, of x] by auto
  have h: "queue_head s = x" "x \<noteq> 0" "seg (pcbs s) (p_next b) xs 0" and d: "distinct (x # xs)"
    and n: "queue_size s = of_nat (length (x # xs))" and t: "queue_tail s = last (x # xs)"
    using q b by (auto simp: run_queue_def)
  let ?b = "b\<lparr>p_next := 0\<rparr>"
  let ?m = "(pcbs s)(x \<mapsto> ?b)"
  have lo: "links_only (set (x # xs)) (pcbs s) ?m" using b by (intro links_only_upd) auto
  show ?thesis
  proof (cases xs rule: rev_cases)
    case Nil
    let ?s = "s\<lparr>pcbs := ?m, queue_head := x, queue_tail := x\<rparr>"
    have "rotate_queue s = Inr (x, ?s)"
      using Nil h b by (simp add: rotate_queue_def deref_eq update_def bindR_def)
    moreover have "run_queue ?s (xs @ [x])" using Nil h n by (simp add: run_queue_def)
    moreover have "queue_step (set (x # xs)) s ?s" using lo by (simp add: queue_step_def)
    ultimately show ?thesis by blast
  next
    case (snoc ys y)
    have p: "p_next b \<noteq> 0" "queue_tail s = y" "y \<noteq> x" "y \<in> set (x # xs)" using h(3) d t snoc seg_head_zero [OF h(3)] by auto
    obtain c where c: "pcbs s y = Some c" using run_queue_dom [OF q p(4)] by blast
    let ?s = "s\<lparr>pcbs := ?m(y \<mapsto> c\<lparr>p_next := x\<rparr>), queue_head := p_next b, queue_tail := x\<rparr>"
    have "rotate_queue s = Inr (x, ?s)"
      using h b c p by (simp add: rotate_queue_def deref_eq update_def bindR_def)
    moreover have "run_queue ?s (xs @ [x])"
    proof -
      have "seg ?m (p_next b) (ys @ [y]) 0" using h d snoc by simp
      moreover have "?m y = Some c" "?m x = Some ?b" "p_next ?b = 0" "x \<notin> set (ys @ [y])" "distinct (ys @ [y])"
        using c p d snoc by auto
      ultimately have "seg (?m(y \<mapsto> c\<lparr>p_next := x\<rparr>)) (p_next b) (ys @ [y] @ [x]) 0"
        using h(2) by (intro seg_snoc)
      moreover have "distinct (xs @ [x])" using d by auto
      ultimately show ?thesis using snoc n by (simp add: run_queue_def)
    qed
    moreover have "queue_step (set (x # xs)) s ?s"
    proof -
      have "links_only (set (x # xs)) ?m (?m(y \<mapsto> c\<lparr>p_next := x\<rparr>))"
        using c p by (intro links_only_upd) auto
      from links_only_trans [OF lo this] show ?thesis by (simp add: queue_step_def)
    qed
    ultimately show ?thesis by blast
  qed
qed

text \<open>The specification of \<open>pick_next\<close>: the first ready process, which moves to the end with all before it.\<close>

definition pick_spec :: "(u32 \<Rightarrow> bool) \<Rightarrow> u32 list \<Rightarrow> u32 \<times> u32 list" where
  "pick_spec ready xs =
     (case dropWhile (\<lambda>x. \<not> ready x) xs of
        [] \<Rightarrow> (0, xs)
      | p # zs \<Rightarrow> (p, zs @ takeWhile (\<lambda>x. \<not> ready x) xs @ [p]))"

lemma pick_spec_found:
  "\<forall>y \<in> set ys. \<not> ready y \<Longrightarrow> ready p \<Longrightarrow> pick_spec ready (ys @ p # zs) = (p, zs @ ys @ [p])"
  unfolding pick_spec_def by (simp add: takeWhile_append dropWhile_append)

lemma pick_spec_none: "\<forall>x \<in> set xs. \<not> ready x \<Longrightarrow> pick_spec ready xs = (0, xs)"
proof -
  assume "\<forall>x \<in> set xs. \<not> ready x"
  then have e: "dropWhile (\<lambda>x. \<not> ready x) xs = []" by (simp add: dropWhile_eq_Nil_conv)
  show ?thesis unfolding pick_spec_def e by simp
qed

lemma pick_loop_none:
  assumes "run_queue s (us @ vs)" "\<forall>x \<in> set us. \<not> is_ready s x"
  shows "\<exists>s'. pick_loop (length us) s = Inr (0, s') \<and> run_queue s' (vs @ us) \<and> queue_step (set (us @ vs)) s s'"
  using assms
proof (induction us arbitrary: s vs)
  case (Cons u us)
  obtain s1 where s1: "rotate_queue s = Inr (u, s1)" "run_queue s1 (us @ vs @ [u])" "queue_step (set (u # us @ vs)) s s1"
    using rotate_queue_rep [of s u "us @ vs"] Cons.prems(1) by auto
  obtain b where b: "pcbs s1 u = Some b" using run_queue_dom [OF s1(2), of u] by auto
  have "\<not> is_ready s1 u" using Cons.prems(2) is_ready_step [OF s1(3)] by simp
  then have nr: "p_state b \<noteq> PROCESS_READY" using b by (simp add: is_ready_def)
  obtain s2 where s2: "pick_loop (length us) s1 = Inr (0, s2)" "run_queue s2 ((vs @ [u]) @ us)"
    "queue_step (set (us @ vs @ [u])) s1 s2"
    using Cons.IH [OF s1(2)] Cons.prems(2) is_ready_step [OF s1(3)] by auto
  have "pick_loop (length (u # us)) s = Inr (0, s2)"
    using s1 s2 b nr by (simp add: bindR_def deref_eq)
  moreover have "queue_step (set ((u # us) @ vs)) s s2"
    by (rule queue_step_mono [OF queue_step_trans [OF s1(3) s2(3)]]) auto
  ultimately show ?case using s2(2) by auto
qed auto

lemma pick_loop_found:
  assumes "run_queue s (ys @ p # zs)" "\<forall>y \<in> set ys. \<not> is_ready s y" "is_ready s p"
  shows "\<exists>s'. pick_loop (length ys + Suc n) s = Inr (p, s') \<and> run_queue s' (zs @ ys @ [p]) \<and> queue_step (set (ys @ p # zs)) s s'"
  using assms
proof (induction ys arbitrary: s zs)
  case Nil
  obtain s1 where s1: "rotate_queue s = Inr (p, s1)" "run_queue s1 (zs @ [p])" "queue_step (set (p # zs)) s s1"
    using rotate_queue_rep [of s p zs] Nil.prems(1) by auto
  obtain b where b: "pcbs s1 p = Some b" using run_queue_dom [OF s1(2), of p] by auto
  have "is_ready s1 p" using Nil.prems(3) is_ready_step [OF s1(3)] by simp
  then have "p_state b = PROCESS_READY" using b by (simp add: is_ready_def)
  then show ?case using s1 b by (simp add: bindR_def deref_eq)
next
  case (Cons u us)
  obtain s1 where s1: "rotate_queue s = Inr (u, s1)" "run_queue s1 (us @ p # zs @ [u])" "queue_step (set (u # us @ p # zs)) s s1"
    using rotate_queue_rep [of s u "us @ p # zs"] Cons.prems(1) by auto
  obtain b where b: "pcbs s1 u = Some b" using run_queue_dom [OF s1(2), of u] by auto
  have "\<not> is_ready s1 u" using Cons.prems(2) is_ready_step [OF s1(3)] by simp
  then have nr: "p_state b \<noteq> PROCESS_READY" using b by (simp add: is_ready_def)
  obtain s2 where s2: "pick_loop (length us + Suc n) s1 = Inr (p, s2)" "run_queue s2 ((zs @ [u]) @ us @ [p])"
    "queue_step (set (us @ p # zs @ [u])) s1 s2"
    using Cons.IH [OF s1(2)] Cons.prems(2,3) is_ready_step [OF s1(3)] by auto
  have "pick_loop (length (u # us) + Suc n) s = Inr (p, s2)"
    using s1 s2 b nr by (simp add: bindR_def deref_eq)
  moreover have "queue_step (set ((u # us) @ p # zs)) s s2"
    by (rule queue_step_mono [OF queue_step_trans [OF s1(3) s2(3)]]) auto
  ultimately show ?case using s2(2) by auto
qed

lemma pick_next_rep:
  assumes q: "run_queue s xs"
  shows "\<exists>s'. pick_next s = Inr (fst (pick_spec (is_ready s) xs), s') \<and>
    run_queue s' (snd (pick_spec (is_ready s) xs)) \<and> queue_step (set xs) s s'"
proof (cases "xs = []")
  case True
  then have "queue_head s = 0" using q by (simp add: run_queue_def)
  then show ?thesis using True q by (auto simp: pick_next_def pick_spec_def)
next
  case False
  then have h: "queue_head s \<noteq> 0" using q seg_head_zero by (auto simp: run_queue_def)
  have e: "pick_next s = pick_loop (length xs) s" using h run_queue_size [OF q] by (simp add: pick_next_def)
  show ?thesis
  proof (cases "list_ex (is_ready s) xs")
    case True
    then obtain ys p zs where xs: "xs = ys @ p # zs" "\<forall>y \<in> set ys. \<not> is_ready s y" "is_ready s p"
      using split_list_first_prop [of xs "is_ready s"] by (auto simp: list_ex_iff)
    then show ?thesis using pick_loop_found [of s ys p zs "length zs"] q e by (auto simp: pick_spec_found)
  next
    case False
    then have "\<forall>x \<in> set xs. \<not> is_ready s x" by (auto simp: list_ex_iff)
    then show ?thesis using pick_loop_none [of s xs "[]"] q e by (auto simp: pick_spec_none)
  qed
qed

subsection \<open>The contract of the queue\<close>

text \<open>Repeated selection: the processes picked in turn.\<close>

fun pick_times :: "('s \<Rightarrow> ('p \<times> 's) res) \<Rightarrow> nat \<Rightarrow> 's \<Rightarrow> ('p list \<times> 's) res" where
  "pick_times pick 0 s = Inr ([], s)"
| "pick_times pick (Suc n) s = bindR (pick s) (\<lambda>(p, s). bindR (pick_times pick n s) (\<lambda>(ps, s). Inr (p # ps, s)))"

locale ready_queue =
  fixes rep :: "'s \<Rightarrow> 'p list \<Rightarrow> bool"
    and valid ready :: "'s \<Rightarrow> 'p \<Rightarrow> bool"
    and enq deq :: "'p \<Rightarrow> 's \<Rightarrow> 's res"
    and pick :: "'s \<Rightarrow> ('p \<times> 's) res"
  assumes rep_distinct: "rep s xs \<Longrightarrow> distinct xs"
    and enq_law: "rep s xs \<Longrightarrow> valid s p \<Longrightarrow> p \<notin> set xs \<Longrightarrow>
      \<exists>s'. enq p s = Inr s' \<and> rep s' (xs @ [p]) \<and> ready s' = (ready s)(p := True)"
    and deq_law: "rep s xs \<Longrightarrow> \<exists>s'. deq p s = Inr s' \<and> rep s' (remove1 p xs) \<and> ready s' = ready s"
    and pick_law: "rep s (ys @ p # zs) \<Longrightarrow> \<forall>y \<in> set ys. \<not> ready s y \<Longrightarrow> ready s p \<Longrightarrow>
      \<exists>s'. pick s = Inr (p, s') \<and> rep s' (zs @ ys @ [p]) \<and> ready s' = ready s"
begin

lemma enq_deq:
  assumes "rep s xs" "valid s p" "p \<notin> set xs"
  shows "\<exists>s' s''. enq p s = Inr s' \<and> deq p s' = Inr s'' \<and> rep s'' xs"
proof -
  obtain s' where s': "enq p s = Inr s'" "rep s' (xs @ [p])" using enq_law [OF assms] by blast
  obtain s'' where "deq p s' = Inr s''" "rep s'' (remove1 p (xs @ [p]))" using deq_law [OF s'(2)] by blast
  moreover have "remove1 p (xs @ [p]) = xs" using assms(3) by (simp add: remove1_append)
  ultimately show ?thesis using s'(1) by auto
qed

lemma picks_in_order:
  "rep s (us @ vs) \<Longrightarrow>
   \<exists>s' ws. pick_times pick (length (filter (ready s) us)) s = Inr (filter (ready s) us, s') \<and> rep s' ws \<and>
     mset ws = mset (us @ vs) \<and> ready s' = ready s"
proof (induction "length us" arbitrary: us vs s rule: less_induct)
  case less
  show ?case
  proof (cases "\<exists>u \<in> set us. ready s u")
    case False
    then have "filter (ready s) us = []" by (simp add: filter_empty_conv)
    then show ?thesis using less.prems by auto
  next
    case True
    then obtain ys p zs where us: "us = ys @ p # zs" "\<forall>y \<in> set ys. \<not> ready s y" "ready s p"
      using split_list_first_prop [of us "ready s"] by blast
    obtain s1 where s1: "pick s = Inr (p, s1)" "rep s1 (zs @ (vs @ ys @ [p]))" "ready s1 = ready s"
      using pick_law [of s ys p "zs @ vs"] less.prems us by auto
    obtain s2 ws where s2: "pick_times pick (length (filter (ready s1) zs)) s1 = Inr (filter (ready s1) zs, s2)"
      "rep s2 ws" "mset ws = mset (zs @ (vs @ ys @ [p]))" "ready s2 = ready s1"
      using less.hyps [OF _ s1(2)] us(1) by auto
    have "filter (ready s) us = p # filter (ready s) zs" using us by (simp add: filter_empty_conv)
    then have "pick_times pick (length (filter (ready s) us)) s = Inr (filter (ready s) us, s2)"
      using s1 s2 by (simp add: bindR_def)
    moreover have "mset ws = mset (us @ vs)" using s2(3) us(1) by simp
    ultimately show ?thesis using s2 s1 by auto
  qed
qed

lemma picks_all_ready:
  assumes "rep s xs"
  shows "\<exists>s' ys. pick_times pick (length (filter (ready s) xs)) s = Inr (filter (ready s) xs, s') \<and> rep s' ys \<and>
    mset ys = mset xs"
  using picks_in_order [of s xs "[]"] assms by auto

end

definition live_pcb :: "sched \<Rightarrow> u32 \<Rightarrow> bool" where
  "live_pcb s p \<longleftrightarrow> p \<noteq> 0 \<and> pcbs s p \<noteq> None"

interpretation rq: ready_queue run_queue live_pcb is_ready scheduler_enqueue scheduler_dequeue pick_next
proof
  fix s xs p
  show "distinct xs" if "run_queue s xs" using that by (simp add: run_queue_def)
  show "\<exists>s'. scheduler_dequeue p s = Inr s' \<and> run_queue s' (remove1 p xs) \<and> is_ready s' = is_ready s" if "run_queue s xs"
    using scheduler_dequeue_rep [OF that, of p] is_ready_step by blast
  show "\<exists>s'. scheduler_enqueue p s = Inr s' \<and> run_queue s' (xs @ [p]) \<and> is_ready s' = (is_ready s)(p := True)"
    if r: "run_queue s xs" and v: "live_pcb s p" and np: "p \<notin> set xs"
  proof -
    obtain b where b: "pcbs s p = Some b" "p \<noteq> 0" using v by (auto simp: live_pcb_def)
    obtain s' where s': "scheduler_enqueue p s = Inr s'" "run_queue s' (xs @ [p])"
      "queue_step (insert p (set xs)) (s\<lparr>pcbs := (pcbs s)(p \<mapsto> b\<lparr>p_state := PROCESS_READY\<rparr>)\<rparr>) s'"
      using scheduler_enqueue_rep [OF r b(2) np b(1)] by blast
    have "is_ready s' = is_ready (s\<lparr>pcbs := (pcbs s)(p \<mapsto> b\<lparr>p_state := PROCESS_READY\<rparr>)\<rparr>)"
      by (rule is_ready_step [OF s'(3)])
    also have "\<dots> = (is_ready s)(p := True)" by (rule ext) (simp add: is_ready_def)
    finally show ?thesis using s' by blast
  qed
  show "\<exists>s'. pick_next s = Inr (p, s') \<and> run_queue s' (zs @ ys @ [p]) \<and> is_ready s' = is_ready s"
    if "run_queue s (ys @ p # zs)" "\<forall>y \<in> set ys. \<not> is_ready s y" "is_ready s p" for ys zs
    using pick_next_rep [OF that(1)] pick_spec_found [of ys "is_ready s" p zs] that is_ready_step by auto
qed

subsection \<open>Zombies\<close>

definition lists_ok :: "sched \<Rightarrow> u32 list \<Rightarrow> u32 list \<Rightarrow> bool" where
  "lists_ok s xs zs \<longleftrightarrow> run_queue s xs \<and> zombies s zs \<and> set xs \<inter> set zs = {}"

lemma run_queue_upd [simp]: "p \<notin> set xs \<Longrightarrow> run_queue (s\<lparr>pcbs := (pcbs s)(p := b)\<rparr>) xs = run_queue s xs"
  by (simp add: run_queue_def)

lemma run_queue_zombie [simp]: "run_queue (s\<lparr>zombie_head := z\<rparr>) xs = run_queue s xs"
  by (simp add: run_queue_def)

lemma zombies_step: "queue_step X s s' \<Longrightarrow> set zs \<inter> X = {} \<Longrightarrow> zombies s' zs = zombies s zs"
  by (auto simp: queue_step_def zombies_def seg_links_only)

lemma scheduler_mark_zombie_rep:
  assumes ok: "lists_ok s xs zs" and p: "p \<noteq> 0" "p \<notin> set zs" "pcbs s p = Some b"
  shows "\<exists>s'. scheduler_mark_zombie p s = Inr s' \<and> lists_ok s' (remove1 p xs) (p # zs) \<and>
    links_only (insert p (set xs)) (pcbs s) (pcbs s') \<and> next_pid s' = next_pid s \<and>
    current_process s' = current_process s \<and> proc_table s' = proc_table s"
proof -
  have q: "run_queue s xs" and z: "zombies s zs" and dis: "set xs \<inter> set zs = {}" using ok by (auto simp: lists_ok_def)
  obtain s1 where s1: "scheduler_dequeue p s = Inr s1" "run_queue s1 (remove1 p xs)" "queue_step (set xs) s s1"
    using scheduler_dequeue_rep [OF q] by blast
  have lo: "links_only (set xs) (pcbs s) (pcbs s1)" using s1(3) by (simp add: queue_step_def)
  obtain r where c: "pcbs s1 p = Some (b\<lparr>p_next := r\<rparr>)" using links_only_lookup(2) [OF lo p(3)] by blast
  have z1: "zombies s1 zs" using zombies_step [OF s1(3)] z dis by blast
  let ?m = "(pcbs s1)(p \<mapsto> b\<lparr>p_next := zombie_head s1\<rparr>)"
  let ?s = "s1\<lparr>pcbs := ?m, zombie_head := p\<rparr>"
  have "scheduler_mark_zombie p s = Inr ?s"
    using p s1 c by (simp add: scheduler_mark_zombie_def bindR_def update_eq)
  moreover have "lists_ok ?s (remove1 p xs) (p # zs)"
  proof -
    have d: "distinct xs" using q by (simp add: run_queue_def)
    then have np: "p \<notin> set (remove1 p xs)" by simp
    then have "run_queue ?s (remove1 p xs)" using s1(2) by simp
    moreover have "zombies ?s (p # zs)" using z1 p by (simp add: zombies_def)
    ultimately show ?thesis using np dis d by (auto simp: lists_ok_def)
  qed
  moreover have "links_only (insert p (set xs)) (pcbs s) ?m"
  proof -
    have "links_only {p} (pcbs s1) ?m" 
      using links_only_upd [of "pcbs s1" p "b\<lparr>p_next := r\<rparr>" "{p}" "zombie_head s1"] c by simp
    from links_only_trans [OF lo this] show ?thesis by (simp add: insert_commute Un_commute)
  qed
  ultimately show ?thesis using s1(3) by (auto simp: queue_step_def)
qed

subsection \<open>Sleepers\<close>

text \<open>What a tick does to one process of the queue.\<close>

definition wake :: "process \<Rightarrow> process" where
  "wake b = (if p_state b = PROCESS_BLOCKED \<and> p_sleep_ticks b > 0 then
     (let b = b\<lparr>p_sleep_ticks := p_sleep_ticks b - 1\<rparr> in
      if p_sleep_ticks b = 0 then b\<lparr>p_state := PROCESS_READY\<rparr> else b) else b)"

lemma p_next_wake [simp]: "p_next (wake b) = p_next b"
  by (simp add: wake_def Let_def)

definition wake_all :: "u32 list \<Rightarrow> sched \<Rightarrow> sched" where
  "wake_all xs s = s\<lparr>pcbs := (\<lambda>x. if x \<in> set xs then map_option wake (pcbs s x) else pcbs s x)\<rparr>"

lemma wake_step: "pcbs s p = Some b \<Longrightarrow>
  (if p_state b = PROCESS_BLOCKED \<and> p_sleep_ticks b > 0 then
     update p (\<lambda>q. let q = q\<lparr>p_sleep_ticks := p_sleep_ticks q - 1\<rparr> in
       if p_sleep_ticks q = 0 then q\<lparr>p_state := PROCESS_READY\<rparr> else q) s
   else Inr s) = Inr (s\<lparr>pcbs := (pcbs s)(p \<mapsto> wake b)\<rparr>)"
  by (auto simp: update_def wake_def Let_def fun_upd_idem)

lemma wake_loop_rep:
  "seg (pcbs s) p xs 0 \<Longrightarrow> distinct xs \<Longrightarrow> wake_loop (length xs + Suc fuel) p s = Inr (wake_all xs s)"
proof (induction xs arbitrary: p s)
  case Nil then show ?case by (simp add: wake_all_def)
next
  case (Cons x xs)
  then obtain b where b: "pcbs s x = Some b" "seg (pcbs s) (p_next b) xs 0" "p = x" "x \<noteq> 0" "x \<notin> set xs" "distinct xs"
    by (auto split: option.splits)
  let ?s = "s\<lparr>pcbs := (pcbs s)(x \<mapsto> wake b)\<rparr>"
  have "wake_loop (length (x # xs) + Suc fuel) p s = wake_loop (length xs + Suc fuel) (p_next b) ?s"
    using b wake_step [OF b(1)] by (simp add: bindR_def deref_eq del: wake_loop.simps add: wake_loop.simps(2))
  also have "\<dots> = Inr (wake_all xs ?s)"
  proof (rule Cons.IH [OF _ b(6)])
    show "seg (pcbs ?s) (p_next b) xs 0" using b by simp
  qed
  also have "wake_all xs ?s = wake_all (x # xs) s"
  proof -
    have "(\<lambda>y. if y \<in> set xs then map_option wake (pcbs ?s y) else pcbs ?s y) =
      (\<lambda>y. if y \<in> set (x # xs) then map_option wake (pcbs s y) else pcbs s y)" using b by (intro ext) auto
    then show ?thesis unfolding wake_all_def by simp
  qed
  finally show ?case .
qed

lemma wake_queue:
  assumes q: "run_queue s xs"
  shows "wake_loop walk_fuel (queue_head s) s = Inr (wake_all xs s)" "run_queue (wake_all xs s) xs"
proof -
  have "length xs + Suc (walk_fuel - Suc (length xs)) = walk_fuel" using run_queue_length [OF q] by simp
  then show "wake_loop walk_fuel (queue_head s) s = Inr (wake_all xs s)"
    using wake_loop_rep [of s "queue_head s" xs "walk_fuel - Suc (length xs)"] q by (simp add: run_queue_def)
  have "seg (pcbs (wake_all xs s)) (queue_head s) xs 0 = seg (pcbs s) (queue_head s) xs 0"
    by (intro seg_cong) (simp add: wake_all_def option.map_comp o_def)
  then show "run_queue (wake_all xs s) xs" using q by (simp add: run_queue_def wake_all_def)
qed

text \<open>A process that sleeps for \<open>n\<close> ticks is ready after \<open>n\<close> ticks and not before.\<close>

lemma wake_before:
  assumes "p_state b = PROCESS_BLOCKED"
  shows "n < unat (p_sleep_ticks b) \<Longrightarrow> (wake ^^ n) b = b\<lparr>p_sleep_ticks := p_sleep_ticks b - of_nat n\<rparr>"
proof (induction n)
  case (Suc n)
  let ?t = "p_sleep_ticks b"
  have u: "unat (?t - of_nat n) = unat ?t - n" if "n < unat ?t" for n
    using that unat_u32_less [of ?t] by (simp add: unat_sub_nowrap unat_of_nat_u32)
  have "unat (?t - of_nat n) > 0" "unat (?t - of_nat (Suc n)) > 0" using u [of n] u [of "Suc n"] Suc.prems by simp_all
  then have "?t - of_nat n > 0" "?t - of_nat n - 1 \<noteq> 0"
    by (auto simp: word_less_nat_alt diff_diff_eq algebra_simps)
  then show ?case using Suc assms by (simp add: wake_def algebra_simps)
qed simp

lemma wake_after:
  assumes b: "p_state b = PROCESS_BLOCKED" "p_sleep_ticks b > 0"
  shows "(wake ^^ unat (p_sleep_ticks b)) b = b\<lparr>p_sleep_ticks := 0, p_state := PROCESS_READY\<rparr>"
proof -
  let ?t = "p_sleep_ticks b"
  obtain n where n: "unat ?t = Suc n" using b(2) by (metis not0_implies_Suc unat_0_iff word_not_simps(1))
  have "of_nat (Suc n) = ?t" using n by (metis of_nat_unat ucast_id)
  then have t: "?t - of_nat n = 1" by (auto simp: algebra_simps)
  have "(wake ^^ unat ?t) b = wake ((wake ^^ n) b)" using n by simp
  also have "\<dots> = wake (b\<lparr>p_sleep_ticks := 1\<rparr>)" using wake_before [OF b(1), of n] n t by simp
  also have "\<dots> = b\<lparr>p_sleep_ticks := 0, p_state := PROCESS_READY\<rparr>" using b by (simp add: wake_def)
  finally show ?thesis .
qed

section \<open>The process table\<close>

definition pid_of :: "sched \<Rightarrow> u32 \<Rightarrow> u32 option" where
  "pid_of s p = map_option p_pid (pcbs s p)"

text \<open>Sixteen slots; the used ones hold distinct live blocks with distinct process ids.\<close>

definition table_ok :: "sched \<Rightarrow> bool" where
  "table_ok s \<longleftrightarrow> length (proc_table s) = MAX_PROCESSES \<and>
     distinct (filter (\<lambda>p. p \<noteq> 0) (proc_table s)) \<and>
     (\<forall>p \<in> set (proc_table s). p \<noteq> 0 \<longrightarrow> pcbs s p \<noteq> None) \<and>
     inj_on (pid_of s) (set (proc_table s) - {0})"

lemma lookup_loop_rep:
  "\<forall>p \<in> set ps. p \<noteq> 0 \<longrightarrow> pcbs s p \<noteq> None \<Longrightarrow>
   lookup_loop pid s ps = Inr (case find (\<lambda>p. p \<noteq> 0 \<and> pid_of s p = Some pid) ps of None \<Rightarrow> 0 | Some p \<Rightarrow> p)"
  by (induction ps) (auto simp: deref_def pid_of_def bindR_def)

lemma process_lookup_rep:
  assumes ok: "table_ok s"
  shows "process_lookup pid s = Inr p \<longleftrightarrow>
    (if p = 0 then \<forall>q \<in> set (proc_table s) - {0}. pid_of s q \<noteq> Some pid
     else p \<in> set (proc_table s) \<and> pid_of s p = Some pid)"
proof -
  let ?P = "\<lambda>p. p \<noteq> 0 \<and> pid_of s p = Some pid"
  have l: "process_lookup pid s = Inr (case find ?P (proc_table s) of None \<Rightarrow> 0 | Some p \<Rightarrow> p)"
    using ok unfolding process_lookup_def table_ok_def by (intro lookup_loop_rep) auto
  show ?thesis
  proof (cases "find ?P (proc_table s)")
    case None
    then have "\<forall>q \<in> set (proc_table s). \<not> ?P q" by (auto simp: find_None_iff)
    then show ?thesis using l None by auto
  next
    case (Some q)
    then have q: "q \<in> set (proc_table s)" "?P q" by (auto simp: find_Some_iff)
    have "p = q" if "p \<noteq> 0" "p \<in> set (proc_table s)" "pid_of s p = Some pid"
    proof -
      have "inj_on (pid_of s) (set (proc_table s) - {0})" using ok by (simp add: table_ok_def)
      then show ?thesis using that q by (simp add: inj_on_def)
    qed
    then show ?thesis using l Some q by auto
  qed
qed

lemma first_null_Some: "first_null i ps = Some j \<Longrightarrow> i \<le> j \<and> j - i < length ps \<and> ps ! (j - i) = 0"
proof (induction ps arbitrary: i)
  case (Cons p ps)
  show ?case
  proof (cases "p = 0")
    case False
    then have "first_null (Suc i) ps = Some j" using Cons.prems by simp
    from Cons.IH [OF this] have "Suc i \<le> j" "j - Suc i < length ps" "ps ! (j - Suc i) = 0" by auto
    moreover have "j - i = Suc (j - Suc i)" using \<open>Suc i \<le> j\<close> by simp
    ultimately show ?thesis by simp
  qed (use Cons in auto)
qed simp

lemma first_null_None: "first_null i ps = None \<longleftrightarrow> 0 \<notin> set ps"
  by (induction ps arbitrary: i) auto

lemma set_update_null: "i < length ps \<Longrightarrow> ps ! i = 0 \<Longrightarrow> set (ps[i := p]) - {0} = insert p (set ps) - {0 :: u32}"
proof -
  assume i: "i < length ps" "ps ! i = 0"
  have "set (ps[i := p]) = insert p (set (take i ps) \<union> set (drop (Suc i) ps))"
    using i by (simp add: upd_conv_take_nth_drop)
  moreover have "set ps = insert 0 (set (take i ps) \<union> set (drop (Suc i) ps))"
    using i by (metis Un_insert_right id_take_nth_drop list.simps(15) set_append)
  ultimately show ?thesis by auto
qed

lemma filter_update_null: "i < length ps \<Longrightarrow> ps ! i = 0 \<Longrightarrow> p \<noteq> 0 \<Longrightarrow> p \<notin> set ps \<Longrightarrow>
  distinct (filter (\<lambda>p. p \<noteq> 0) ps) \<Longrightarrow> distinct (filter (\<lambda>p. p \<noteq> 0) (ps[i := p :: u32]))"
proof -
  assume i: "i < length ps" "ps ! i = 0" "p \<noteq> 0" "p \<notin> set ps" "distinct (filter (\<lambda>p. p \<noteq> 0) ps)"
  have "ps = take i ps @ 0 # drop (Suc i) ps" using i by (metis id_take_nth_drop)
  then have d: "distinct (filter (\<lambda>p. p \<noteq> 0) (take i ps @ drop (Suc i) ps))"
    using i(5) by (metis (mono_tags, lifting) filter.simps(2) filter_append)
  then show ?thesis using i(1,3,4) by (auto simp: upd_conv_take_nth_drop dest: in_set_takeD in_set_dropD)
qed

lemma proc_table_add_rep:
  assumes ok: "table_ok s" and p: "p \<noteq> 0" "p \<notin> set (proc_table s)" "pcbs s p = Some b"
    and pid: "\<forall>q \<in> set (proc_table s) - {0}. pid_of s q \<noteq> Some (p_pid b)"
  shows "fst (proc_table_add p s) \<longleftrightarrow> 0 \<in> set (proc_table s)"
    and "\<not> fst (proc_table_add p s) \<Longrightarrow> snd (proc_table_add p s) = s"
    and "fst (proc_table_add p s) \<Longrightarrow> table_ok (snd (proc_table_add p s)) \<and>
      set (proc_table (snd (proc_table_add p s))) - {0} = insert p (set (proc_table s) - {0}) \<and>
      pcbs (snd (proc_table_add p s)) = pcbs s"
proof -
  show "fst (proc_table_add p s) \<longleftrightarrow> 0 \<in> set (proc_table s)"
    using first_null_None [of 0 "proc_table s"] by (auto simp: proc_table_add_def split: option.splits)
  show "snd (proc_table_add p s) = s" if "\<not> fst (proc_table_add p s)"
    using that by (auto simp: proc_table_add_def split: option.splits)
  assume "fst (proc_table_add p s)"
  then obtain i where f: "first_null 0 (proc_table s) = Some i" by (auto simp: proc_table_add_def split: option.splits)
  have i: "i < length (proc_table s)" "proc_table s ! i = 0" using first_null_Some [OF f] by auto
  let ?t = "(proc_table s)[i := p]"
  have e: "snd (proc_table_add p s) = s\<lparr>proc_table := ?t\<rparr>" using f by (simp add: proc_table_add_def)
  have st: "set ?t - {0} = insert p (set (proc_table s) - {0})" using set_update_null [OF i] p(1) by auto
  have po: "pid_of (s\<lparr>proc_table := ?t\<rparr>) = pid_of s" by (rule ext) (simp add: pid_of_def)
  have "pid_of s p = Some (p_pid b)" using p(3) by (simp add: pid_of_def)
  then have "pid_of s p \<notin> pid_of s ` (set (proc_table s) - {0} - {p})" using pid by auto
  then have "inj_on (pid_of s) (insert p (set (proc_table s) - {0}))"
    unfolding inj_on_insert using ok by (simp add: table_ok_def)
  moreover have "\<forall>q \<in> set ?t. q \<noteq> 0 \<longrightarrow> pcbs s q \<noteq> None"
    using ok p st by (auto simp: table_ok_def dest: set_update_memI dest!: equalityD1)
  ultimately have "table_ok (s\<lparr>proc_table := ?t\<rparr>)"
    using ok filter_update_null [OF i p(1,2)] st by (simp add: table_ok_def po)
  then show "table_ok (snd (proc_table_add p s)) \<and>
      set (proc_table (snd (proc_table_add p s))) - {0} = insert p (set (proc_table s) - {0}) \<and>
      pcbs (snd (proc_table_add p s)) = pcbs s"
    using e st by simp
qed

lemma length_clear_first [simp]: "length (clear_first p ps) = length ps"
  by (induction ps) auto

lemma clear_first_filter:
  "p \<noteq> 0 \<Longrightarrow> filter (\<lambda>q. q \<noteq> 0) (clear_first p ps) = remove1 p (filter (\<lambda>q. q \<noteq> 0) ps)"
  by (induction ps) auto

lemma proc_table_remove_rep:
  assumes ok: "table_ok s" and p: "p \<noteq> 0"
  shows "table_ok (proc_table_remove p s)"
    and "set (proc_table (proc_table_remove p s)) - {0} = set (proc_table s) - {0} - {p}"
proof -
  let ?t = "clear_first p (proc_table s)"
  let ?nz = "filter (\<lambda>q. q \<noteq> (0 :: u32))"
  have f: "?nz ?t = remove1 p (?nz (proc_table s))" by (rule clear_first_filter [OF p])
  have d: "distinct (?nz (proc_table s))" using ok by (simp add: table_ok_def)
  have st: "set ?t - {0} = set (proc_table s) - {0} - {p}"
  proof -
    have "set ?t - {0} = set (?nz ?t)" by auto
    also have "\<dots> = set (?nz (proc_table s)) - {p}" unfolding f using d by (rule set_remove1_eq)
    finally show ?thesis by auto
  qed
  then show "set (proc_table (proc_table_remove p s)) - {0} = set (proc_table s) - {0} - {p}"
    by (simp add: proc_table_remove_def)
  have po: "pid_of (s\<lparr>proc_table := ?t\<rparr>) = pid_of s" by (rule ext) (simp add: pid_of_def)
  have "inj_on (pid_of s) (set ?t - {0})"
    unfolding st using ok by (auto simp: table_ok_def intro: inj_on_subset)
  moreover have "\<forall>q \<in> set ?t. q \<noteq> 0 \<longrightarrow> pcbs s q \<noteq> None"
    using ok st by (auto simp: table_ok_def dest!: equalityD1)
  moreover have "distinct (?nz ?t)" unfolding f using d by simp
  ultimately show "table_ok (proc_table_remove p s)"
    using ok by (simp add: table_ok_def po proc_table_remove_def)
qed

lemma is_pid_alive_rep:
  assumes ok: "table_ok s"
  shows "is_pid_alive pid s = Inr (pid \<noteq> 0 \<and> (\<exists>p b. p \<in> set (proc_table s) \<and> p \<noteq> 0 \<and> pcbs s p = Some b \<and>
    p_pid b = pid \<and> p_state b \<noteq> PROCESS_ZOMBIE \<and> p_state b \<noteq> PROCESS_DEAD))"
proof (cases "pid = 0")
  case False
  obtain p where p: "process_lookup pid s = Inr p"
    using ok lookup_loop_rep [of "proc_table s" s pid] by (simp add: process_lookup_def table_ok_def)
  show ?thesis
  proof (cases "p = 0")
    case True
    then have "\<forall>q \<in> set (proc_table s) - {0}. pid_of s q \<noteq> Some pid" using p process_lookup_rep [OF ok, of pid p] by simp
    then show ?thesis using True p False by (auto simp: is_pid_alive_def pid_of_def)
  next
    case pn: False
    then have m: "p \<in> set (proc_table s)" "pid_of s p = Some pid" using p process_lookup_rep [OF ok, of pid p] by auto
    then obtain b where b: "pcbs s p = Some b" "p_pid b = pid" by (auto simp: pid_of_def)
    have uq: "q = p" if "q \<in> set (proc_table s)" "q \<noteq> 0" "pid_of s q = Some pid" for q
      using that m pn ok by (auto simp: table_ok_def inj_on_def)
    have "c = b" if "q \<in> set (proc_table s)" "q \<noteq> 0" "pcbs s q = Some c" "p_pid c = pid" for q c
      using uq [of q] that b by (simp add: pid_of_def)
    then have "(\<exists>q c. q \<in> set (proc_table s) \<and> q \<noteq> 0 \<and> pcbs s q = Some c \<and> p_pid c = pid \<and>
        p_state c \<noteq> PROCESS_ZOMBIE \<and> p_state c \<noteq> PROCESS_DEAD) \<longleftrightarrow> p_state b \<noteq> PROCESS_ZOMBIE \<and> p_state b \<noteq> PROCESS_DEAD"
      using m(1) pn b by blast
    then show ?thesis using p pn False b by (simp add: is_pid_alive_def deref_eq)
  qed
qed (simp add: is_pid_alive_def)

section \<open>Properties\<close>

text \<open>Three processes, the second one asleep for two ticks, and a zombie.\<close>

definition pcb_ex :: "u32 \<Rightarrow> process_state \<Rightarrow> u32 \<Rightarrow> u32 \<Rightarrow> process" where
  "pcb_ex pid st sl nxt = process_zero\<lparr>p_pid := pid, p_state := st, p_sleep_ticks := sl, p_next := nxt, p_priority := 1\<rparr>"

definition sched_ex :: sched where
  "sched_ex = \<lparr>pcbs = [0x100 \<mapsto> pcb_ex 0 PROCESS_READY 0 0x200, 0x200 \<mapsto> pcb_ex 1 PROCESS_BLOCKED 2 0x300,
     0x300 \<mapsto> pcb_ex 2 PROCESS_READY 0 0, 0x400 \<mapsto> pcb_ex 3 PROCESS_ZOMBIE 0 0, 0x500 \<mapsto> pcb_ex 4 PROCESS_READY 0 0],
     next_pid = 5, current_process = 0x100, proc_table = [0x100, 0x200, 0x300, 0x400] @ replicate 12 0,
     queue_head = 0x100, queue_tail = 0x300, queue_size = 3, zombie_head = 0x400\<rparr>"

lemma sched_ex_ok:
  "run_queue sched_ex [0x100, 0x200, 0x300]" "lists_ok sched_ex [0x100, 0x200, 0x300] [0x400]"
  "live_pcb sched_ex 0x500" "filter (is_ready sched_ex) [0x100, 0x200, 0x300] = [0x100, 0x300]"
  by (simp_all add: sched_ex_def run_queue_def zombies_def lists_ok_def live_pcb_def pcb_ex_def is_ready_def)

text \<open>
  \<open>scheduler_enqueue\<close> appends to the run queue. If the linked queue holds the processes \<open>xs\<close> and \<open>p\<close> is a
  live process that is not among them, the call succeeds, the queue then holds \<open>xs\<close> followed by \<open>p\<close>, \<open>p\<close> is
  ready, the readiness of the others is unchanged, and a following \<open>scheduler_dequeue\<close> gives \<open>xs\<close> back.
\<close>

theorem enqueue_appends:
  assumes "run_queue s xs" "live_pcb s p" "p \<notin> set xs"
  shows "\<exists>s' s''. scheduler_enqueue p s = Inr s' \<and> run_queue s' (xs @ [p]) \<and> is_ready s' = (is_ready s)(p := True) \<and>
    scheduler_dequeue p s' = Inr s'' \<and> run_queue s'' xs"
  using rq.enq_law [OF assms] rq.enq_deq [OF assms] by auto

theorem enqueue_appends_witness:
  "\<exists>s' s''. scheduler_enqueue 0x500 sched_ex = Inr s' \<and> run_queue s' [0x100, 0x200, 0x300, 0x500] \<and>
    scheduler_dequeue 0x500 s' = Inr s'' \<and> run_queue s'' [0x100, 0x200, 0x300]"
  using enqueue_appends [of sched_ex "[0x100, 0x200, 0x300]" "0x500", OF sched_ex_ok(1) sched_ex_ok(3)] by auto

text \<open>
  \<open>scheduler_dequeue\<close> on a queue that holds \<open>xs\<close> always succeeds, whether the process is queued or not. The
  queue then holds \<open>xs\<close> without it; the process table, the zombie list, the current process and every field of
  every control block except the links of queued blocks are unchanged.
\<close>

theorem dequeue_removes:
  assumes "run_queue s xs"
  shows "\<exists>s'. scheduler_dequeue p s = Inr s' \<and> run_queue s' (remove1 p xs) \<and> queue_step (set xs) s s'"
  using scheduler_dequeue_rep [OF assms, of p] by blast

theorem dequeue_removes_witness:
  "\<exists>s'. scheduler_dequeue 0x300 sched_ex = Inr s' \<and> run_queue s' [0x100, 0x200] \<and>
    queue_step {0x100, 0x200, 0x300} sched_ex s'"
  using dequeue_removes [of sched_ex "[0x100, 0x200, 0x300]" "0x300", OF sched_ex_ok(1)] by simp

text \<open>
  C25: \<open>pick_next\<close> refines its specification. On a queue \<open>xs\<close> it returns the first ready process, and the queue is
  rotated so that this process is last and the ones after it come first; if none is ready it returns null and
  the order is as before. Nothing but links changes.
\<close>

theorem pick_next_first_ready:
  assumes "run_queue s xs"
  shows "\<exists>s'. pick_next s = Inr (fst (pick_spec (is_ready s) xs), s') \<and>
    run_queue s' (snd (pick_spec (is_ready s) xs)) \<and> queue_step (set xs) s s'"
  by (rule pick_next_rep [OF assms])

theorem pick_next_first_ready_witness:
  "\<exists>s'. pick_next sched_ex = Inr (0x100, s') \<and> run_queue s' [0x200, 0x300, 0x100]"
proof -
  have "pick_spec (is_ready sched_ex) [0x100, 0x200, 0x300] = (0x100, [0x200, 0x300, 0x100])"
    by (simp add: pick_spec_def sched_ex_def pcb_ex_def is_ready_def)
  then show ?thesis using pick_next_first_ready [of sched_ex "[0x100, 0x200, 0x300]", OF sched_ex_ok(1)] by auto
qed

text \<open>
  C6: Selection is round robin. If \<open>n\<close> processes of the queue are ready, \<open>n\<close> calls of \<open>pick_next\<close> return exactly
  these \<open>n\<close> processes, each once, in queue order, so no ready process starves; the queue still has the same
  members.
\<close>

theorem round_robin:
  assumes "run_queue s xs"
  shows "\<exists>s' ys. pick_times pick_next (length (filter (is_ready s) xs)) s = Inr (filter (is_ready s) xs, s') \<and>
    run_queue s' ys \<and> mset ys = mset xs"
  by (rule rq.picks_all_ready [OF assms])

theorem round_robin_witness: "\<exists>s'. pick_times pick_next 2 sched_ex = Inr ([0x100, 0x300], s')"
  using round_robin [of sched_ex "[0x100, 0x200, 0x300]", OF sched_ex_ok(1)] unfolding sched_ex_ok(4)
  by (auto simp: numeral_2_eq_2 simp del: pick_times.simps)

text \<open>
  C31: The sleepers. The walk of \<open>scheduler_tick\<close> over the queue applies \<open>wake\<close> to every queued block and changes
  nothing else. A blocked process with \<open>n\<close> ticks to sleep is still blocked after any smaller number of such
  walks and is ready after \<open>n\<close> of them.
\<close>

theorem sleepers_wake_in_time:
  assumes "run_queue s xs" "x \<in> set xs" "pcbs s x = Some b" "p_state b = PROCESS_BLOCKED" "p_sleep_ticks b > 0"
  shows "wake_loop walk_fuel (queue_head s) s = Inr (wake_all xs s) \<and> run_queue (wake_all xs s) xs \<and>
    pcbs (wake_all xs s) x = Some (wake b) \<and>
    (\<forall>n < unat (p_sleep_ticks b). p_state ((wake ^^ n) b) = PROCESS_BLOCKED) \<and>
    (wake ^^ unat (p_sleep_ticks b)) b = b\<lparr>p_sleep_ticks := 0, p_state := PROCESS_READY\<rparr>"
  using wake_queue [OF assms(1)] wake_before [OF assms(4)] wake_after [OF assms(4,5)] assms(2-4)
  by (simp add: wake_all_def)

theorem sleepers_wake_in_time_witness:
  "\<exists>s'. wake_loop walk_fuel 0x100 sched_ex = Inr s' \<and> map_option p_sleep_ticks (pcbs s' 0x200) = Some 1 \<and>
    p_state ((wake ^^ 2) (pcb_ex 1 PROCESS_BLOCKED 2 0x300)) = PROCESS_READY"
proof -
  have b: "pcbs sched_ex 0x200 = Some (pcb_ex 1 PROCESS_BLOCKED 2 0x300)" by (simp add: sched_ex_def)
  have "p_sleep_ticks (wake (pcb_ex 1 PROCESS_BLOCKED 2 0x300)) = 1" by (simp add: wake_def pcb_ex_def)
  then show ?thesis
    using sleepers_wake_in_time [OF sched_ex_ok(1) _ b] by (simp add: pcb_ex_def sched_ex_def)
qed

text \<open>
  \<open>scheduler_mark_zombie\<close> moves a live process from the run queue, if it is there, to the front of the zombie
  list. The two lists stay disjoint, and nothing changes but links.
\<close>

theorem mark_zombie_moves:
  assumes "lists_ok s xs zs" "live_pcb s p" "p \<notin> set zs"
  shows "\<exists>s'. scheduler_mark_zombie p s = Inr s' \<and> lists_ok s' (remove1 p xs) (p # zs) \<and>
    links_only (insert p (set xs)) (pcbs s) (pcbs s') \<and> next_pid s' = next_pid s \<and>
    current_process s' = current_process s \<and> proc_table s' = proc_table s"
proof -
  obtain b where "p \<noteq> 0" "pcbs s p = Some b" using assms(2) by (auto simp: live_pcb_def)
  then show ?thesis by (intro scheduler_mark_zombie_rep [OF assms(1) _ assms(3)])
qed

theorem mark_zombie_moves_witness:
  "\<exists>s'. scheduler_mark_zombie 0x200 sched_ex = Inr s' \<and> lists_ok s' [0x100, 0x300] [0x200, 0x400]"
  using mark_zombie_moves [of sched_ex "[0x100, 0x200, 0x300]" "[0x400]" "0x200", OF sched_ex_ok(2)]
  by (auto simp: live_pcb_def sched_ex_def)

text \<open>
  The process table. Adding a live process with a new process id to a table with a free slot succeeds;
  \<open>process_lookup\<close> then finds it under its id and answers as before for every other id, and after
  \<open>proc_table_remove\<close> it finds it no more.
\<close>

theorem process_table_roundtrip:
  assumes ok: "table_ok s" and p: "live_pcb s p" "p \<notin> set (proc_table s)" and free: "0 \<in> set (proc_table s)"
    and pid: "pid_of s p = Some pid" "process_lookup pid s = Inr 0"
  shows "\<exists>s'. proc_table_add p s = (True, s') \<and> table_ok s' \<and> process_lookup pid s' = Inr p \<and>
    (\<forall>k. k \<noteq> pid \<longrightarrow> process_lookup k s' = process_lookup k s) \<and>
    table_ok (proc_table_remove p s') \<and> process_lookup pid (proc_table_remove p s') = Inr 0"
proof -
  obtain b where b: "p \<noteq> 0" "pcbs s p = Some b" "p_pid b = pid" using p(1) pid(1) by (auto simp: live_pcb_def pid_of_def)
  have no: "\<forall>q \<in> set (proc_table s) - {0}. pid_of s q \<noteq> Some (p_pid b)"
    using process_lookup_rep [OF ok, of pid 0] pid(2) b(3) by simp
  note add = proc_table_add_rep [OF ok b(1) p(2) b(2) no]
  obtain s' where s': "proc_table_add p s = (True, s')" using add(1) free by (cases "proc_table_add p s") auto
  have t: "table_ok s'" "set (proc_table s') - {0} = insert p (set (proc_table s) - {0})" "pcbs s' = pcbs s"
    using add(3) s' by auto
  have po: "pid_of s' = pid_of s" by (rule ext) (simp add: pid_of_def t(3))
  have mem: "q \<in> set (proc_table s') \<longleftrightarrow> q = p \<or> q \<in> set (proc_table s)" if "q \<noteq> 0" for q using t(2) that b(1) by blast
  have "process_lookup pid s' = Inr p"
    using process_lookup_rep [OF t(1), of pid p] b(1) pid(1) po mem by simp
  moreover have "process_lookup k s' = process_lookup k s" if "k \<noteq> pid" for k
  proof -
    obtain q where q: "process_lookup k s = Inr q"
      using ok lookup_loop_rep [of "proc_table s" s k] by (simp add: process_lookup_def table_ok_def)
    then have "process_lookup k s' = Inr q"
      using process_lookup_rep [OF t(1), of k q] process_lookup_rep [OF ok, of k q] t(2) po mem that pid(1)
      by (auto split: if_splits)
    then show ?thesis using q by simp
  qed
  moreover note r = proc_table_remove_rep [OF t(1) b(1)]
  moreover have "process_lookup pid (proc_table_remove p s') = Inr 0"
  proof -
    have "pid_of (proc_table_remove p s') = pid_of s" by (rule ext) (simp add: pid_of_def proc_table_remove_def t(3))
    then show ?thesis using process_lookup_rep [OF r(1), of pid 0] r(2) t(2) no b(3) by auto
  qed
  ultimately show ?thesis using s' t(1) by blast
qed

theorem process_table_roundtrip_witness:
  "\<exists>s'. proc_table_add 0x500 sched_ex = (True, s') \<and> process_lookup 4 s' = Inr 0x500 \<and>
    process_lookup 4 (proc_table_remove 0x500 s') = Inr 0"
proof -
  have t: "proc_table sched_ex = [0x100, 0x200, 0x300, 0x400, 0, 0, 0, 0, 0, 0, 0, 0, 0, 0, 0, 0]" by code_simp
  have p: "pcbs sched_ex 0x100 = Some (pcb_ex 0 PROCESS_READY 0 0x200)" "pcbs sched_ex 0x200 = Some (pcb_ex 1 PROCESS_BLOCKED 2 0x300)"
    "pcbs sched_ex 0x300 = Some (pcb_ex 2 PROCESS_READY 0 0)" "pcbs sched_ex 0x400 = Some (pcb_ex 3 PROCESS_ZOMBIE 0 0)"
    "pcbs sched_ex 0x500 = Some (pcb_ex 4 PROCESS_READY 0 0)" by (simp_all add: sched_ex_def)
  have "table_ok sched_ex" unfolding table_ok_def t by (auto simp: p inj_on_def pid_of_def pcb_ex_def MAX_PROCESSES_def)
  moreover have "process_lookup 4 sched_ex = Inr 0" unfolding process_lookup_def t by (simp add: p deref_def pcb_ex_def)
  moreover have "pid_of sched_ex 0x500 = Some 4" by (simp add: p pid_of_def pcb_ex_def)
  moreover have "0x500 \<notin> set (proc_table sched_ex)" "0 \<in> set (proc_table sched_ex)" unfolding t by simp_all
  ultimately show ?thesis using process_table_roundtrip [of sched_ex "0x500" 4] sched_ex_ok(3) by blast
qed

end
