(* ===== verification/Scheduler.thy ===== *)
theory Scheduler
  imports Kmalloc Paging Elf Idt Keyboard Ramfs Cpu Process
begin

text \<open>
  The kernel as a whole: its state, the life cycle of processes (\<open>kernel/process.c\<close>) and the
  scheduler (\<open>kernel/scheduler.c\<close>) with the timer (\<open>kernel/pit.c\<close>). An operation takes the state
  and returns the new one, or the error that stopped the machine.
\<close>

section \<open>Model\<close>

subsection \<open>State\<close>

text \<open>
  The addresses the linker assigns to static objects, string literals and functions, and that of the
  stack buffer of one shell command.
\<close>

record layout =
  a_kernel_end :: u32
  a_stack_top :: u32
  a_kernel_pd :: u32
  a_identity_pts :: u32
  a_gdt :: u32
  a_tss :: u32
  a_idt :: u32
  a_isr :: "nat \<Rightarrow> u32"
  a_irq :: "nat \<Rightarrow> u32"
  a_idle_pcb :: u32
  a_process_exit :: u32
  a_user_mode_trampoline :: u32
  a_test_prog_blob :: u32
  a_test_prog_blob_size :: u32
  a_synctest_msg :: u32
  a_fstest_path :: u32
  a_fstest_buf :: u32

record kernel =
  k_vga :: vga
  k_ram :: mem
  k_pmm :: pmm
  k_heap :: heap
  k_mmu :: mmu
  k_gdt :: gdt_state
  k_idt :: idt_state
  k_kbd :: keyboard
  k_fs :: ramfs
  k_sched :: sched
  k_cpu :: cpu
  k_ticks :: u32
  k_io :: io_log

definition on_vga :: "(vga \<Rightarrow> vga) \<Rightarrow> kernel \<Rightarrow> kernel" where
  "on_vga f k = k\<lparr>k_vga := f (k_vga k)\<rparr>"

definition lift_sched :: "(sched \<Rightarrow> sched res) \<Rightarrow> kernel \<Rightarrow> kernel res" where
  "lift_sched f k = bindR (f (k_sched k)) (\<lambda>s. Inr (k\<lparr>k_sched := s\<rparr>))"

definition pcb_of :: "u32 \<Rightarrow> kernel \<Rightarrow> process res" where
  "pcb_of p k = deref p (k_sched k)"

definition pcb_update :: "u32 \<Rightarrow> (process \<Rightarrow> process) \<Rightarrow> kernel \<Rightarrow> kernel res" where
  "pcb_update p f = lift_sched (update p f)"

subsection \<open>Process creation\<close>

definition process_init :: "layout \<Rightarrow> kernel \<Rightarrow> kernel" where
  "process_init L k =
     (let s = k_sched k;
          old = (case pcbs s (a_idle_pcb L) of Some p \<Rightarrow> p | None \<Rightarrow> process_zero);
          pcb = old\<lparr>p_pid := next_pid s, p_state := PROCESS_RUNNING, p_parent_pid := 0, p_priority := 0,
                    p_ticks_remaining := 1, p_sleep_ticks := 0, p_exit_code := 0, p_next := 0,
                    p_name := kstrncpy (lit ''idle'') 32, p_esp := 0, p_kernel_stack_top := a_stack_top L,
                    p_cr3 := kernel_pd_phys (k_mmu k)\<rparr>;
          s = s\<lparr>next_pid := next_pid s + 1, pcbs := (pcbs s)(a_idle_pcb L \<mapsto> pcb), current_process := a_idle_pcb L\<rparr>;
          s = snd (proc_table_add (a_idle_pcb L) s);
          k = on_vga (vga_set_color VGA_COLOR_LIGHT_GREEN) (k\<lparr>k_sched := s\<rparr>);
          k = on_vga (kprint (lit ''[OK] Process subsystem initialized (idle PID=0)\<newline>'')) k
      in on_vga (vga_set_color VGA_COLOR_LIGHT_GREY) k)"

text \<open>\<open>kfree\<close> of a control block: the block is gone from the store.\<close>

definition free_pcb :: "u32 \<Rightarrow> kernel \<Rightarrow> kernel res" where
  "free_pcb proc k =
     bindR (kfree (k_heap k) proc (k_ram k)) (\<lambda>m.
       Inr (k\<lparr>k_ram := m, k_sched := (k_sched k)\<lparr>pcbs := (pcbs (k_sched k))(proc := None)\<rparr>\<rparr>))"

text \<open>The ten words \<open>process_create\<close> writes below the top of the new kernel stack.\<close>

definition fake_stack :: "u32 \<Rightarrow> u32 \<Rightarrow> u32 \<Rightarrow> mem \<Rightarrow> mem" where
  "fake_stack stk exit_fn entry m =
     (let m = store32 (stk - 4) exit_fn m;
          m = store32 (stk - 8) entry m;
          m = store32 (stk - 12) 0x202 m;
          m = store32 (stk - 16) 0 m;
          m = store32 (stk - 20) 0 m;
          m = store32 (stk - 24) 0 m;
          m = store32 (stk - 28) 0 m;
          m = store32 (stk - 32) 0 m;
          m = store32 (stk - 36) 0 m
      in store32 (stk - 40) 0 m)"

definition current_pid :: "kernel \<Rightarrow> u32 res" where
  "current_pid k =
     (if current_process (k_sched k) = 0 then Inr 0
      else bindR (pcb_of (current_process (k_sched k)) k) (\<lambda>p. Inr (p_pid p)))"

definition free_frame :: "u32 \<Rightarrow> kernel \<Rightarrow> kernel" where
  "free_frame a k = k\<lparr>k_pmm := pmm_free_frame a (k_pmm k)\<rparr>"

definition free_pd :: "u32 \<Rightarrow> kernel \<Rightarrow> kernel" where
  "free_pd pd k = k\<lparr>k_pmm := paging_free_pd pd (k_ram k) (k_pmm k)\<rparr>"

text \<open>
  The second half of \<open>process_create\<close>, from the allocation of the stack frames on; \<open>pcb\<close> is the
  control block as initialised so far.
\<close>

definition create_stack :: "layout \<Rightarrow> u32 \<Rightarrow> u32 \<Rightarrow> process \<Rightarrow> kernel \<Rightarrow> (u32 \<times> kernel) res" where
  "create_stack L proc entry pcb k =
     (let (stack_lo, p) = pmm_alloc_frame (k_pmm k);
          (stack_hi, p) = pmm_alloc_frame p;
          k = k\<lparr>k_pmm := p\<rparr>
      in if stack_lo = 0 \<or> stack_hi = 0 then
           (let k = (if stack_lo \<noteq> 0 then free_frame stack_lo k else k);
                k = (if stack_hi \<noteq> 0 then free_frame stack_hi k else k);
                k = free_pd (p_cr3 pcb) k
            in bindR (free_pcb proc k) (\<lambda>k. Inr (0, k)))
         else
           (let stk = stack_hi + PAGE_SIZE;
                pcb = pcb\<lparr>p_stack_frame_lo := stack_lo, p_stack_frame_hi := stack_hi, p_kernel_stack_top := stk,
                          p_esp := stk - 40\<rparr>;
                k = k\<lparr>k_ram := fake_stack stk (a_process_exit L) entry (k_ram k),
                      k_sched := (k_sched k)\<lparr>pcbs := (pcbs (k_sched k))(proc \<mapsto> pcb)\<rparr>\<rparr>
            in bindR (lift_sched (scheduler_enqueue proc) k) (\<lambda>k.
               let (added, s) = proc_table_add proc (k_sched k) in
               if added then Inr (proc, k\<lparr>k_sched := s\<rparr>)
               else
                 bindR (lift_sched (scheduler_dequeue proc) k) (\<lambda>k.
                 let k = free_frame stack_lo k;
                     k = free_frame stack_hi k;
                     k = free_pd (p_cr3 pcb) k
                 in bindR (free_pcb proc k) (\<lambda>k. Inr (0, k))))))"

definition process_create :: "layout \<Rightarrow> cstring \<Rightarrow> u32 \<Rightarrow> u32 \<Rightarrow> kernel \<Rightarrow> (u32 \<times> kernel) res" where
  "process_create L name entry priority k =
     bindR (kmalloc (k_heap k) sizeof_process (k_ram k)) (\<lambda>(proc, m).
       let k = k\<lparr>k_ram := m\<rparr> in
       if proc = 0 then Inr (0, k)
       else
         (let (cr3, p, m) = paging_create_user_pd (a_kernel_pd L) (k_pmm k) (k_ram k);
              k = k\<lparr>k_pmm := p, k_ram := m\<rparr>
          in if cr3 = 0 then bindR (free_pcb proc k) (\<lambda>k. Inr (0, k))
             else
               (let s = k_sched k;
                    pid = next_pid s;
                    k = k\<lparr>k_sched := s\<lparr>next_pid := pid + 1\<rparr>\<rparr>
                in bindR (current_pid k) (\<lambda>parent.
                   let prio = (if priority = 0 then 1 else priority)
                   in create_stack L proc entry
                        (process_zero\<lparr>p_cr3 := cr3, p_pid := pid, p_parent_pid := parent, p_state := PROCESS_READY,
                           p_priority := prio, p_ticks_remaining := prio, p_name := kstrncpy name 32\<rparr>) k))))"

definition USER_STACK_PAGES :: nat where "USER_STACK_PAGES = 4"
definition USER_STACK_BASE :: u32 where "USER_STACK_BASE = 0x500000"

text \<open>The loop that maps the user stack; the result is the new top, or None when out of memory.\<close>

fun map_user_stack :: "u32 \<Rightarrow> nat list \<Rightarrow> u32 \<Rightarrow> kernel \<Rightarrow> (u32 option \<times> kernel) res" where
  "map_user_stack pd [] stack_top k = Inr (Some stack_top, k)"
| "map_user_stack pd (i # is) stack_top k =
     (let (frame, p) = pmm_alloc_frame (k_pmm k); k = k\<lparr>k_pmm := p\<rparr> in
      if frame = 0 then Inr (None, k)
      else
        (let va = USER_STACK_BASE + of_nat i * PAGE_SIZE in
         bindR (paging_map_into pd va frame (PTE_PRESENT OR PTE_WRITABLE OR PTE_USER) (k_pmm k) (k_ram k)) (\<lambda>(p, m).
           map_user_stack pd is (va + PAGE_SIZE) (k\<lparr>k_pmm := p, k_ram := m\<rparr>))))"

definition abandon :: "u32 \<Rightarrow> kernel \<Rightarrow> (u32 \<times> kernel) res" where
  "abandon proc k =
     bindR (pcb_update proc (\<lambda>p. p\<lparr>p_state := PROCESS_ZOMBIE\<rparr>) k) (\<lambda>k.
     bindR (lift_sched (scheduler_mark_zombie proc) k) (\<lambda>k. Inr (0, k)))"

definition process_create_from_elf :: "layout \<Rightarrow> cstring \<Rightarrow> u32 \<Rightarrow> u32 \<Rightarrow> kernel \<Rightarrow> (u32 \<times> kernel) res" where
  "process_create_from_elf L name elf_data priority k =
     (case elf32_validate (k_ram k) elf_data of
        None \<Rightarrow> Inr (0, k)
      | Some entry \<Rightarrow>
          bindR (process_create L name (a_user_mode_trampoline L) priority k) (\<lambda>(proc, k).
          if proc = 0 then Inr (0, k)
          else
            bindR (pcb_of proc k) (\<lambda>pcb.
            bindR (elf32_load elf_data (p_cr3 pcb) (k_pmm k) (k_ram k)) (\<lambda>(ok, p, m).
            let k = k\<lparr>k_pmm := p, k_ram := m\<rparr> in
            if \<not> ok then abandon proc k
            else
              bindR (map_user_stack (p_cr3 pcb) [0..<USER_STACK_PAGES] USER_STACK_BASE k) (\<lambda>(stk, k).
              case stk of
                None \<Rightarrow> abandon proc k
              | Some stack_top \<Rightarrow>
                  bindR (pcb_update proc (\<lambda>p. p\<lparr>p_user_entry := entry, p_user_stack_top := stack_top\<rparr>) k) (\<lambda>k.
                  Inr (proc, k)))))))"

subsection \<open>Release\<close>

definition process_free :: "u32 \<Rightarrow> kernel \<Rightarrow> kernel res" where
  "process_free proc k =
     (if proc = 0 then Inr k
      else
        (let k = k\<lparr>k_sched := proc_table_remove proc (k_sched k)\<rparr> in
         bindR (pcb_of proc k) (\<lambda>pcb.
         let k = free_frame (p_stack_frame_lo pcb) k;
             k = free_frame (p_stack_frame_hi pcb) k;
             k = free_pd (p_cr3 pcb) k
         in free_pcb proc k)))"

fun reap_loop :: "nat \<Rightarrow> u32 \<Rightarrow> u32 \<Rightarrow> kernel \<Rightarrow> kernel res" where
  "reap_loop 0 prev cur k = Inl NoReturn"
| "reap_loop (Suc fuel) prev cur k =
     (if cur = 0 then Inr k
      else
        bindR (pcb_of cur k) (\<lambda>c.
        bindR (is_pid_alive (p_parent_pid c) (k_sched k)) (\<lambda>alive.
        if \<not> alive then
          bindR (if prev \<noteq> 0 then pcb_update prev (\<lambda>p. p\<lparr>p_next := p_next c\<rparr>) k
                 else Inr (k\<lparr>k_sched := (k_sched k)\<lparr>zombie_head := p_next c\<rparr>\<rparr>)) (\<lambda>k.
          bindR (process_free cur k) (\<lambda>k. reap_loop fuel prev (p_next c) k))
        else reap_loop fuel cur (p_next c) k)))"

definition scheduler_reap_zombies :: "kernel \<Rightarrow> kernel res" where
  "scheduler_reap_zombies k = reap_loop walk_fuel 0 (zombie_head (k_sched k)) k"

definition scheduler_init :: "kernel \<Rightarrow> kernel res" where
  "scheduler_init k =
     (let k = k\<lparr>k_sched := (k_sched k)\<lparr>queue_head := 0, queue_tail := 0, queue_size := 0\<rparr>\<rparr>;
          idle = process_current (k_sched k)
      in bindR (if idle \<noteq> 0 then
                  bindR (lift_sched (scheduler_enqueue idle) k) (pcb_update idle (\<lambda>p. p\<lparr>p_state := PROCESS_RUNNING\<rparr>))
                else Inr k) (\<lambda>k.
         let k = on_vga (vga_set_color VGA_COLOR_LIGHT_GREEN) k;
             k = on_vga (kprint (lit ''[OK] Scheduler initialized (round-robin + priority)\<newline>'')) k
         in Inr (on_vga (vga_set_color VGA_COLOR_LIGHT_GREY) k)))"

subsection \<open>Switching\<close>

text \<open>
  \<open>context_switch\<close> on the kernel state: the old context goes to the old stack and its stack pointer to
  the old control block, CR3 is loaded if it differs, and the new context comes from the new stack.
  \<open>k_cpu\<close> holds the registers at the entry of the routine. The state after a switch is the one in which
  the new process goes on; the rest of the caller runs when it is switched back to.
\<close>

definition context_switch :: "u32 \<Rightarrow> u32 \<Rightarrow> kernel \<Rightarrow> kernel res" where
  "context_switch old new k =
     (let (c, m) = save_context (k_cpu k, k_ram k);
          k = k\<lparr>k_cpu := c, k_ram := m\<rparr>
      in bindR (pcb_update old (\<lambda>p. p\<lparr>p_esp := r_esp c\<rparr>) k) (\<lambda>k.
         bindR (pcb_of new k) (\<lambda>n.
         let k = (if p_cr3 n = cr3 (k_mmu k) then k else k\<lparr>k_mmu := (k_mmu k)\<lparr>cr3 := p_cr3 n\<rparr>\<rparr>);
             (c, m) = restore_context (p_esp n) (k_cpu k, k_ram k)
         in Inr (k\<lparr>k_cpu := c, k_ram := m\<rparr>))))"

definition do_switch :: "u32 \<Rightarrow> kernel \<Rightarrow> kernel res" where
  "do_switch nxt k =
     (let old = process_current (k_sched k) in
      if old = nxt then Inr k
      else
        bindR (pcb_of old k) (\<lambda>q.
        bindR (if p_state q = PROCESS_RUNNING then pcb_update old (\<lambda>p. p\<lparr>p_state := PROCESS_READY\<rparr>) k else Inr k) (\<lambda>k.
        bindR (pcb_update nxt (\<lambda>p. p\<lparr>p_state := PROCESS_RUNNING, p_ticks_remaining := p_priority p\<rparr>) k) (\<lambda>k.
        bindR (pcb_of nxt k) (\<lambda>n.
        let k = k\<lparr>k_gdt := tss_set_kernel_stack (p_kernel_stack_top n) (k_gdt k)\<rparr>;
            k = k\<lparr>k_sched := process_set_current nxt (k_sched k)\<rparr>
        in context_switch old nxt k)))))"

definition lift_pick :: "kernel \<Rightarrow> (u32 \<times> kernel) res" where
  "lift_pick k = bindR (pick_next (k_sched k)) (\<lambda>(nxt, s). Inr (nxt, k\<lparr>k_sched := s\<rparr>))"

definition scheduler_yield :: "kernel \<Rightarrow> kernel res" where
  "scheduler_yield k =
     (let cur = process_current (k_sched k) in
      bindR (lift_pick k) (\<lambda>(nxt, k). if nxt = 0 \<or> nxt = cur then Inr k else do_switch nxt k))"

definition scheduler_tick :: "kernel \<Rightarrow> kernel res" where
  "scheduler_tick k =
     (let cur = process_current (k_sched k) in
      if cur = 0 then Inr k
      else
        bindR (scheduler_reap_zombies k) (\<lambda>k.
        bindR (lift_sched (\<lambda>s. wake_loop walk_fuel (queue_head s) s) k) (\<lambda>k.
        bindR (pcb_of cur k) (\<lambda>c.
        bindR (if p_ticks_remaining c > 0
               then pcb_update cur (\<lambda>p. p\<lparr>p_ticks_remaining := p_ticks_remaining p - 1\<rparr>) k else Inr k) (\<lambda>k.
        bindR (pcb_of cur k) (\<lambda>c.
        if p_ticks_remaining c = 0 \<and> queue_size (k_sched k) > 0 then
          bindR (lift_pick k) (\<lambda>(nxt, k).
            if nxt \<noteq> 0 \<and> nxt \<noteq> cur then do_switch nxt k
            else pcb_update cur (\<lambda>p. p\<lparr>p_ticks_remaining := p_priority p\<rparr>) k)
        else Inr k))))))"

text \<open>
  \<open>process_exit\<close> up to the switch. When \<open>scheduler_yield\<close> returns without a switch, the code runs into
  \<open>cli; hlt\<close>.
\<close>

definition process_exit :: "u32 \<Rightarrow> kernel \<Rightarrow> kernel res" where
  "process_exit exit_code k =
     (let cur = current_process (k_sched k) in
      bindR (pcb_update cur (\<lambda>p. p\<lparr>p_exit_code := exit_code, p_state := PROCESS_ZOMBIE\<rparr>) k) (\<lambda>k.
      bindR (lift_sched (scheduler_mark_zombie cur) k) (\<lambda>k.
      bindR (scheduler_yield k) (\<lambda>k.
        if current_process (k_sched k) = cur then Inl NoReturn else Inr k))))"

text \<open>
  The first code of a user process: the jump to user mode with the arguments on the stack, above the
  return address \<open>ret\<close> that the call pushes.
\<close>

definition user_mode_trampoline :: "u32 \<Rightarrow> kernel \<Rightarrow> kernel res" where
  "user_mode_trampoline ret k =
     bindR (pcb_of (process_current (k_sched k)) k) (\<lambda>self.
       let k = k\<lparr>k_gdt := tss_set_kernel_stack (p_kernel_stack_top self) (k_gdt k)\<rparr>;
           (c, m) = enter_usermode (push ret (push (p_user_entry self) (push (p_user_stack_top self) (k_cpu k, k_ram k))))
       in Inr (k\<lparr>k_cpu := c, k_ram := m\<rparr>))"

subsection \<open>The timer\<close>

definition PIT_BASE_FREQ :: u32 where "PIT_BASE_FREQ = 1193182"
definition PIT_CMD :: u16 where "PIT_CMD = 0x43"
definition PIT_CHANNEL0 :: u16 where "PIT_CHANNEL0 = 0x40"

definition pit_handler :: "kernel \<Rightarrow> kernel res" where
  "pit_handler k = scheduler_tick (k\<lparr>k_ticks := k_ticks k + 1\<rparr>)"

definition pit_init :: "u32 \<Rightarrow> kernel \<Rightarrow> kernel" where
  "pit_init hz k =
     (let divisor = PIT_BASE_FREQ div hz;
          k = k\<lparr>k_io := k_io k @ [OutB PIT_CMD 0x36, OutB PIT_CHANNEL0 (ucast (divisor AND 0xFF)),
                                  OutB PIT_CHANNEL0 (ucast (drop_bit 8 divisor AND 0xFF))]\<rparr>;
          k = k\<lparr>k_idt := irq_register 0 Pit_handler (k_idt k)\<rparr>;
          k = on_vga (vga_set_color VGA_COLOR_LIGHT_GREEN) k;
          k = on_vga (kprint (lit ''[OK] PIT initialized ('')) k;
          k = on_vga (kprint_int hz) k;
          k = on_vga (kprint (lit '' Hz)\<newline>'')) k
      in on_vga (vga_set_color VGA_COLOR_LIGHT_GREY) k)"

definition pit_ticks :: "kernel \<Rightarrow> u32" where "pit_ticks k = k_ticks k"

text \<open>A hardware interrupt: the end-of-interrupt commands, then the registered handler.\<close>

definition run_irq :: "registers \<Rightarrow> u8 \<Rightarrow> kernel \<Rightarrow> kernel res" where
  "run_irq r sc k =
     (let (eoi, handler) = irq_handler r (k_idt k);
          k = k\<lparr>k_io := k_io k @ eoi\<rparr>
      in case handler of
           None \<Rightarrow> Inr k
         | Some Pit_handler \<Rightarrow> pit_handler k
         | Some Keyboard_handler \<Rightarrow> Inr (k\<lparr>k_kbd := keyboard_handler sc (k_kbd k)\<rparr>))"

section \<open>Memory and its owners\<close>

text \<open>
  What creation and release of processes rely on: the heap and the kernel's page tables are intact,
  lie apart from each other, and use none of the frames \<open>F\<close> that are free at the start.
\<close>

definition mem_ok :: "u32 \<Rightarrow> heap \<Rightarrow> nat set \<Rightarrow> mem \<Rightarrow> bool" where
  "mem_ok kpd h F m \<longleftrightarrow> heap_ok h m \<and> wf_pd m kpd \<and> F \<subseteq> {1..<32768} \<and>
     (\<forall>t \<in> pd_pages m kpd. unat t div 4096 \<notin> F) \<and> (\<forall>x \<in> heap_bytes h m. x div 4096 \<notin> F) \<and>
     heap_bytes h m \<inter> \<Union> (page_bytes ` pd_pages m kpd) = {}"

lemma mem_ok_owned: "mem_ok kpd h F m \<Longrightarrow> free_set p \<subseteq> F \<Longrightarrow> owned (pd_pages m kpd) p"
  by (auto simp: mem_ok_def owned_def)

lemma mem_ok_pd_agree:
  assumes "mem_ok kpd h F m" "agree (\<Union> (page_bytes ` pd_pages m kpd)) m' m"
  shows "wf_pd m' kpd" "pd_pages m' kpd = pd_pages m kpd" "translate m' kpd = translate m kpd"
proof -
  have "wf_pd m kpd" "aligned 4096 kpd" using assms(1) by (auto simp: mem_ok_def wf_pd_def)
  then show "wf_pd m' kpd" "pd_pages m' kpd = pd_pages m kpd" "translate m' kpd = translate m kpd"
    using pd_agree [OF assms(2)] by (simp_all add: pd_pages_def)
qed

lemma mem_ok_kmalloc:
  assumes ok: "mem_ok kpd h F m" and n: "0 < n" "n \<le> 0xFFFFFFFC" and k: "kmalloc h n m = Inr (q, m')"
  shows "mem_ok kpd h F m'" "heap_bytes h m' = heap_bytes h m" "translate m' kpd = translate m kpd"
proof -
  have h: "heap_ok h m" using ok by (simp add: mem_ok_def)
  note b = kmalloc_bytes [OF h n k]
  have "agree (\<Union> (page_bytes ` pd_pages m kpd)) m' m"
    using ok by (intro agree_subset [OF b(2)]) (auto simp: mem_ok_def)
  note d = mem_ok_pd_agree [OF ok this]
  have "heap_ok h m'" using kmalloc_contract [OF h n] k by auto
  then show "mem_ok kpd h F m'" using ok d b(1) by (simp add: mem_ok_def)
  show "heap_bytes h m' = heap_bytes h m" by (rule b(1))
  show "translate m' kpd = translate m kpd" by (rule d(3))
qed

lemma mem_ok_kfree:
  assumes ok: "mem_ok kpd h F m" and p: "live h m p = Some n"
  shows "\<exists>m'. kfree h p m = Inr m' \<and> mem_ok kpd h F m' \<and> live h m' = (live h m)(p := None) \<and> heap_bytes h m' = heap_bytes h m \<and>
    agree (- heap_bytes h m) m' m"
proof -
  have h: "heap_ok h m" using ok by (simp add: mem_ok_def)
  obtain m' where m': "kfree h p m = Inr m'" "heap_ok h m'" "live h m' = (live h m)(p := None)"
    using kfree_contract [OF h p] by blast
  note b = kfree_bytes [OF h p m'(1)]
  have "agree (\<Union> (page_bytes ` pd_pages m kpd)) m' m"
    using ok by (intro agree_subset [OF b(2)]) (auto simp: mem_ok_def)
  note d = mem_ok_pd_agree [OF ok this]
  have "mem_ok kpd h F m'" using ok d b(1) m'(2) by (simp add: mem_ok_def)
  then show ?thesis using m' b by blast
qed

text \<open>Writing to a frame of \<open>F\<close> touches neither the heap nor the kernel's tables.\<close>

lemma mem_ok_frame:
  assumes ok: "mem_ok kpd h F m" and t: "aligned 4096 t" "unat t div 4096 \<in> F"
    and ag: "\<And>X. X \<inter> page_bytes t = {} \<Longrightarrow> agree X m' m"
  shows "mem_ok kpd h F m'" "heap_bytes h m' = heap_bytes h m" "live h m' = live h m" "translate m' kpd = translate m kpd"
proof -
  have h: "heap_ok h m" using ok by (simp add: mem_ok_def)
  have "heap_bytes h m \<inter> page_bytes t = {}" using ok t page_bytes_frame [OF t(1)] by (auto simp: mem_ok_def)
  note b = heap_agree [OF h ag [OF this]]
  have al: "aligned 4096 x" if "x \<in> pd_pages m kpd" for x
    using that ok by (auto simp: mem_ok_def wf_pd_def pd_pages_def pd_tables_def)
  have "\<Union> (page_bytes ` pd_pages m kpd) \<inter> page_bytes t = {}"
    using ok t page_bytes_frame [OF t(1)] page_bytes_frame [OF al] by (fastforce simp: mem_ok_def)
  note d = mem_ok_pd_agree [OF ok ag [OF this]]
  show "mem_ok kpd h F m'" using ok d b by (simp add: mem_ok_def)
  show "heap_bytes h m' = heap_bytes h m" "live h m' = live h m" "translate m' kpd = translate m kpd"
    using b d by simp_all
qed

section \<open>The first stack of a process\<close>

lemma fake_stack_words:
  "words_at (fake_stack stk exit_fn entry m) (stk - 40) [0, 0, 0, 0, 0, 0, 0, 0x202, entry, exit_fn]"
proof -
  have p: "words_at (store32 (stk - b) v m) (stk - b) (v # ws)" if "words_at m (stk - a) ws" "length ws < 12" "b = a + 4" for a b v m ws
    using words_at_push [OF that(1), of v] that(2,3) by (simp add: algebra_simps)
  have "words_at (store32 (stk - 4) exit_fn m) (stk - 4) [exit_fn]" by simp
  from p [OF p [OF p [OF p [OF p [OF p [OF p [OF p [OF p [OF this]]]]]]]]] show ?thesis
    unfolding fake_stack_def Let_def by simp
qed

lemma fake_stack_agree:
  assumes "aligned 4096 hi" "X \<inter> page_bytes hi = {}"
  shows "agree X (fake_stack (hi + PAGE_SIZE) exit_fn entry m) m"
proof -
  have e: "hi + PAGE_SIZE - 4 * of_nat j = entry_at hi (1024 - of_nat j)" for j
    by (simp add: entry_at_def PAGE_SIZE_def algebra_simps)
  have "agree X (store32 (hi + PAGE_SIZE - a) v m) m" if "a \<in> {4, 8, 12, 16, 20, 24, 28, 32, 36, 40}" for a v m
  proof -
    have "hi + PAGE_SIZE - a = entry_at hi (1024 - a div 4)" using that by (auto simp: entry_at_def PAGE_SIZE_def)
    moreover have "unat (1024 - a div 4) < 1024" using that by auto
    ultimately show ?thesis using agree_store_entry [OF assms(1) _ assms(2)] by simp
  qed
  note s = this
  show ?thesis unfolding fake_stack_def Let_def
    by (rule agree_trans [OF s] | rule s | simp)+
qed

section \<open>Process creation\<close>

text \<open>A directory made for a new process: its frame is taken, its user half is empty.\<close>

definition new_dir :: "u32 \<Rightarrow> nat set \<Rightarrow> pmm \<Rightarrow> mem \<Rightarrow> bool" where
  "new_dir pd F p m \<longleftrightarrow> pd \<noteq> 0 \<and> aligned 4096 pd \<and> unat pd div 4096 \<in> F \<and> unat pd div 4096 \<notin> free_set p \<and>
     (\<forall>i. 8 \<le> i \<and> i < 1024 \<longrightarrow> pde m pd i = 0)"

lemma new_dir_free:
  assumes "new_dir pd F p m" "F \<subseteq> {1..<32768}" "pmm_inv p'"
  shows "free_set (paging_free_pd pd m p') = insert (unat pd div 4096) (free_set p')" "pmm_inv (paging_free_pd pd m p')"
proof -
  have f: "pd_frames m pd = {unat pd div 4096}"
    using assms(1) by (intro created_frames [where e = "pde m pd"]) (auto simp: new_dir_def)
  then have "pd_frames m pd \<subseteq> {1..<32768}" using assms(1,2) by (auto simp: new_dir_def)
  then show "free_set (paging_free_pd pd m p') = insert (unat pd div 4096) (free_set p')" "pmm_inv (paging_free_pd pd m p')"
    using paging_free_pd_spec [OF assms(3), of pd m] f assms(1) by (auto simp: new_dir_def)
qed

lemma new_dir_agree:
  assumes "new_dir pd F p m" "agree (page_bytes pd) m' m"
  shows "new_dir pd F p m'"
proof -
  have "pde m' pd i = pde m pd i" if "i < 1024" for i
    unfolding pde_def using assms that by (intro agree_entry [where X = "page_bytes pd"]) (auto simp: new_dir_def unat_of_nat_1024)
  then show ?thesis using assms(1) by (simp add: new_dir_def)
qed

lemma free_pcb_spec:
  assumes ok: "mem_ok kpd (k_heap k) F (k_ram k)" and p: "live (k_heap k) (k_ram k) proc = Some n"
  shows "\<exists>m. free_pcb proc k = Inr (k\<lparr>k_ram := m, k_sched := (k_sched k)\<lparr>pcbs := (pcbs (k_sched k))(proc := None)\<rparr>\<rparr>) \<and>
    mem_ok kpd (k_heap k) F m \<and> live (k_heap k) m = (live (k_heap k) (k_ram k))(proc := None) \<and>
    heap_bytes (k_heap k) m = heap_bytes (k_heap k) (k_ram k)"
proof -
  obtain m where "kfree (k_heap k) proc (k_ram k) = Inr m" "mem_ok kpd (k_heap k) F m"
    "live (k_heap k) m = (live (k_heap k) (k_ram k))(proc := None)" "heap_bytes (k_heap k) m = heap_bytes (k_heap k) (k_ram k)"
    using mem_ok_kfree [OF ok p] by (elim exE conjE) (rule that)
  then show ?thesis by (intro exI [of _ m]) (simp add: free_pcb_def)
qed

lemma give_back:
  assumes ok: "mem_ok kpd (k_heap k) F (k_ram k)" and p: "live (k_heap k) (k_ram k) proc = Some n"
    and dir: "new_dir pd F p0 (k_ram k)" and inv: "pmm_inv (k_pmm k)"
  shows "\<exists>k'. free_pcb proc (free_pd pd k) = Inr k' \<and>
     mem_ok kpd (k_heap k) F (k_ram k') \<and> k_heap k' = k_heap k \<and> pmm_inv (k_pmm k') \<and>
     free_set (k_pmm k') = insert (unat pd div 4096) (free_set (k_pmm k)) \<and>
     live (k_heap k) (k_ram k') = (live (k_heap k) (k_ram k))(proc := None) \<and>
     heap_bytes (k_heap k) (k_ram k') = heap_bytes (k_heap k) (k_ram k) \<and>
     k_sched k' = k_sched k\<lparr>pcbs := (pcbs (k_sched k))(proc := None)\<rparr>"
proof -
  let ?k = "free_pd pd k"
  have F: "F \<subseteq> {1..<32768}" using ok by (simp add: mem_ok_def)
  have s: "k_heap ?k = k_heap k" "k_ram ?k = k_ram k" "k_sched ?k = k_sched k" "k_pmm ?k = paging_free_pd pd (k_ram k) (k_pmm k)"
    by (simp_all add: free_pd_def)
  obtain m where m: "free_pcb proc ?k = Inr (?k\<lparr>k_ram := m, k_sched := (k_sched k)\<lparr>pcbs := (pcbs (k_sched k))(proc := None)\<rparr>\<rparr>)"
    "mem_ok kpd (k_heap k) F m" "live (k_heap k) m = (live (k_heap k) (k_ram k))(proc := None)"
    "heap_bytes (k_heap k) m = heap_bytes (k_heap k) (k_ram k)"
    using free_pcb_spec [of kpd ?k F proc n, unfolded s, OF ok p] by (elim exE conjE) (rule that)
  show ?thesis using m s new_dir_free [OF dir F inv] by (intro exI [of _ "?k\<lparr>k_ram := m, k_sched := (k_sched k)\<lparr>pcbs := (pcbs (k_sched k))(proc := None)\<rparr>\<rparr>"]) simp
qed


text \<open>The scheduler's view of a new process that is entered into the queue and the table.\<close>

lemma table_ok_links:
  assumes "table_ok s" "proc_table s' = proc_table s" "links_only X (pcbs s) (pcbs s')"
  shows "table_ok s'"
proof -
  have "(pcbs s' p = None) = (pcbs s p = None)" "pid_of s' p = pid_of s p" for p
    using assms(3) links_only_lookup [OF assms(3), of p] by (cases "pcbs s p"; force simp: pid_of_def links_only_def)+
  then have "pid_of s' = pid_of s" "\<And>p. (pcbs s' p = None) = (pcbs s p = None)" by auto
  then show ?thesis using assms(1,2) by (simp add: table_ok_def)
qed

lemma new_process_queued:
  assumes l: "lists_ok s xs zs" and t: "table_ok s" and p: "p \<noteq> 0" "pcbs s p = None" and b: "p_state b = PROCESS_READY"
  shows "\<exists>s'. scheduler_enqueue p (s\<lparr>pcbs := (pcbs s)(p \<mapsto> b)\<rparr>) = Inr s' \<and> lists_ok s' (xs @ [p]) zs \<and> table_ok s' \<and>
    queue_step (insert p (set xs)) (s\<lparr>pcbs := (pcbs s)(p \<mapsto> b)\<rparr>) s' \<and> p \<notin> set xs \<and> p \<notin> set zs \<and> p \<notin> set (proc_table s)"
proof -
  let ?s = "s\<lparr>pcbs := (pcbs s)(p \<mapsto> b)\<rparr>"
  have q: "run_queue s xs" "zombies s zs" "set xs \<inter> set zs = {}" using l by (auto simp: lists_ok_def)
  have px: "p \<notin> set xs" using run_queue_dom [OF q(1), of p] p(2) by auto
  have pz: "p \<notin> set zs" using q(2) p(2) seg_dom by (fastforce simp: zombies_def)
  have pt: "p \<notin> set (proc_table s)" using t p by (auto simp: table_ok_def)
  have "run_queue ?s xs" using q(1) px by simp
  moreover have "pcbs ?s p = Some b" by simp
  ultimately obtain s' where s': "scheduler_enqueue p ?s = Inr s'" "run_queue s' (xs @ [p])"
    "queue_step (insert p (set xs)) (?s\<lparr>pcbs := (pcbs ?s)(p \<mapsto> b\<lparr>p_state := PROCESS_READY\<rparr>)\<rparr>) s'"
    using scheduler_enqueue_rep [OF _ p(1) px] by blast
  have "b\<lparr>p_state := PROCESS_READY\<rparr> = b" using b by (cases b) simp
  then have qs: "queue_step (insert p (set xs)) ?s s'" using s'(3) by simp
  have "zombies ?s zs" using q(2) pz by (simp add: zombies_def)
  then have "zombies s' zs" using zombies_step [OF qs] q(3) pz by auto
  then have "lists_ok s' (xs @ [p]) zs" using s'(2) q(3) pz by (auto simp: lists_ok_def)
  moreover have "table_ok ?s"
  proof -
    have "pid_of ?s q = pid_of s q" if "q \<in> set (proc_table s)" for q using that pt by (auto simp: pid_of_def)
    then show ?thesis using t by (auto simp: table_ok_def inj_on_def)
  qed
  then have "table_ok s'" using qs table_ok_links by (auto simp: queue_step_def)
  ultimately show ?thesis using s'(1) qs px pz pt by blast
qed

text \<open>
  The second half of \<open>process_create\<close>. It succeeds exactly when two frames are free and the table has a
  free slot; otherwise it gives back the directory and the control block as well.
\<close>

lemma two_frames:
  assumes inv: "pmm_inv p" and a: "pmm_alloc_frame p = (lo, p1)" "pmm_alloc_frame p1 = (hi, p2)"
  shows "lo = 0 \<or> hi = 0 \<longleftrightarrow> card (free_set p) < 2"
    and "lo \<noteq> 0 \<Longrightarrow> hi \<noteq> 0 \<Longrightarrow> aligned 4096 lo \<and> aligned 4096 hi \<and> pmm_inv p2 \<and> unat lo div 4096 \<in> free_set p \<and>
      unat hi div 4096 \<in> free_set p \<and> unat lo div 4096 \<noteq> unat hi div 4096 \<and>
      free_set p2 = free_set p - {unat lo div 4096, unat hi div 4096}"
    and "lo = 0 \<or> hi = 0 \<Longrightarrow> hi = 0 \<and> (let q = if lo \<noteq> 0 then pmm_free_frame lo p2 else p2 in pmm_inv q \<and> free_set q = free_set p)"
proof -
  consider "lo = 0" | "lo \<noteq> 0" "hi = 0" | "lo \<noteq> 0" "hi \<noteq> 0" by blast
  then have "(lo = 0 \<or> hi = 0 \<longleftrightarrow> card (free_set p) < 2) \<and> (lo \<noteq> 0 \<and> hi \<noteq> 0 \<longrightarrow> aligned 4096 lo \<and> aligned 4096 hi \<and> pmm_inv p2 \<and> unat lo div 4096 \<in> free_set p \<and>
      unat hi div 4096 \<in> free_set p \<and> unat lo div 4096 \<noteq> unat hi div 4096 \<and>
      free_set p2 = free_set p - {unat lo div 4096, unat hi div 4096}) \<and>
    (lo = 0 \<or> hi = 0 \<longrightarrow> hi = 0 \<and> (let q = if lo \<noteq> 0 then pmm_free_frame lo p2 else p2 in pmm_inv q \<and> free_set q = free_set p))"
  proof cases
    case 1
    then have p1: "free_set p = {}" "p1 = p" using pmm.alloc_none [OF inv] a(1) by auto
    then have "hi = 0" "p2 = p" using pmm_alloc_frame_empty [of p] a(2) by auto
    then show ?thesis using 1 p1 inv by simp
  next
    case 2
    note x = pmm.alloc_some [OF inv a(1) 2(1)]
    have p2: "free_set p1 = {}" "p2 = p1" using pmm.alloc_none [of p1 p2] a(2) x 2(2) by auto
    then have "free_set p = {unat lo div 4096}" using x by auto
    moreover have "free_set (pmm_free_frame lo p1) = free_set p \<and> pmm_inv (pmm_free_frame lo p1)"
      by (rule pmm.release_alloc [OF inv a(1) 2(1)])
    ultimately show ?thesis using 2 p2 by simp
  next
    case 3
    note x = pmm.alloc_some [OF inv a(1) 3(1)]
    have inv1: "pmm_inv p1" using x by simp
    note y = pmm.alloc_some [OF inv1 a(2) 3(2)]
    have "{unat lo div 4096, unat hi div 4096} \<subseteq> free_set p" "unat lo div 4096 \<noteq> unat hi div 4096" using x y by auto
    then have "2 \<le> card (free_set p)" using card_mono [OF finite_free_set, of "{unat lo div 4096, unat hi div 4096}" p] by simp
    then show ?thesis using x y 3 by auto
  qed
  then show "lo = 0 \<or> hi = 0 \<longleftrightarrow> card (free_set p) < 2"
    and "lo \<noteq> 0 \<Longrightarrow> hi \<noteq> 0 \<Longrightarrow> aligned 4096 lo \<and> aligned 4096 hi \<and> pmm_inv p2 \<and> unat lo div 4096 \<in> free_set p \<and>
      unat hi div 4096 \<in> free_set p \<and> unat lo div 4096 \<noteq> unat hi div 4096 \<and>
      free_set p2 = free_set p - {unat lo div 4096, unat hi div 4096}"
    and "lo = 0 \<or> hi = 0 \<Longrightarrow> hi = 0 \<and> (let q = if lo \<noteq> 0 then pmm_free_frame lo p2 else p2 in pmm_inv q \<and> free_set q = free_set p)"
    by blast+
qed

text \<open>What a failed creation leaves: the memory and the frames of before, and the lists of the scheduler.\<close>

definition nothing_left :: "u32 \<Rightarrow> nat set \<Rightarrow> u32 list \<Rightarrow> u32 list \<Rightarrow> nat set \<Rightarrow> (u32 \<rightharpoonup> u32) \<Rightarrow> kernel \<Rightarrow> kernel \<Rightarrow> bool" where
  "nothing_left kpd F xs zs frames objects k k' \<longleftrightarrow>
     mem_ok kpd (k_heap k') F (k_ram k') \<and> k_heap k' = k_heap k \<and> pmm_inv (k_pmm k') \<and> free_set (k_pmm k') = frames \<and>
     live (k_heap k') (k_ram k') = objects \<and> heap_bytes (k_heap k') (k_ram k') = heap_bytes (k_heap k) (k_ram k) \<and>
     lists_ok (k_sched k') xs zs \<and> proc_table (k_sched k') = proc_table (k_sched k) \<and>
     current_process (k_sched k') = current_process (k_sched k) \<and> links_only (set xs) (pcbs (k_sched k)) (pcbs (k_sched k'))"

text \<open>What a successful one adds: a control block with its two stack frames, in the queue and in the table.\<close>

definition process_added :: "layout \<Rightarrow> u32 \<Rightarrow> process \<Rightarrow> u32 \<Rightarrow> u32 list \<Rightarrow> u32 list \<Rightarrow> kernel \<Rightarrow> kernel \<Rightarrow> bool" where
  "process_added L proc pcb entry xs zs k k' \<longleftrightarrow>
     (\<exists>lo hi b. unat lo div 4096 \<in> free_set (k_pmm k) \<and> unat hi div 4096 \<in> free_set (k_pmm k) \<and> lo \<noteq> hi \<and>
       unat lo div 4096 \<noteq> unat hi div 4096 \<and> aligned 4096 hi \<and>
       free_set (k_pmm k') = free_set (k_pmm k) - {unat lo div 4096, unat hi div 4096} \<and> pmm_inv (k_pmm k') \<and>
       pcbs (k_sched k') proc = Some b \<and>
       b\<lparr>p_next := 0\<rparr> = pcb\<lparr>p_stack_frame_lo := lo, p_stack_frame_hi := hi, p_kernel_stack_top := hi + PAGE_SIZE,
         p_esp := hi + PAGE_SIZE - 40, p_next := 0\<rparr> \<and>
       k_ram k' = fake_stack (hi + PAGE_SIZE) (a_process_exit L) entry (k_ram k)) \<and>
     k_heap k' = k_heap k \<and> lists_ok (k_sched k') (xs @ [proc]) zs \<and> table_ok (k_sched k') \<and>
     set (proc_table (k_sched k')) - {0} = insert proc (set (proc_table (k_sched k)) - {0}) \<and>
     current_process (k_sched k') = current_process (k_sched k) \<and>
     (\<forall>q. q \<noteq> proc \<longrightarrow> map_option (p_next_update (\<lambda>_. 0)) (pcbs (k_sched k') q) = map_option (p_next_update (\<lambda>_. 0)) (pcbs (k_sched k) q))"

lemma create_stack_no_frames:
  assumes ok: "mem_ok kpd (k_heap k) F (k_ram k)" and inv: "pmm_inv (k_pmm k)"
    and dir: "new_dir (p_cr3 pcb) F p0 (k_ram k)" and p: "live (k_heap k) (k_ram k) proc = Some n"
    and l: "lists_ok (k_sched k) xs zs" and np: "pcbs (k_sched k) proc = None"
    and few: "card (free_set (k_pmm k)) < 2"
  shows "\<exists>k'. create_stack L proc entry pcb k = Inr (0, k') \<and>
    nothing_left kpd F xs zs (insert (unat (p_cr3 pcb) div 4096) (free_set (k_pmm k))) ((live (k_heap k) (k_ram k))(proc := None)) k k'"
proof -
  obtain lo p1 where a1: "pmm_alloc_frame (k_pmm k) = (lo, p1)" by (metis surj_pair)
  obtain hi p2 where a2: "pmm_alloc_frame p1 = (hi, p2)" by (metis surj_pair)
  note tf = two_frames [OF inv a1 a2]
  have z: "lo = 0 \<or> hi = 0" using tf(1) few by simp
  define q where "q = (if lo \<noteq> 0 then pmm_free_frame lo p2 else p2)"
  have hq: "hi = 0" "pmm_inv q" "free_set q = free_set (k_pmm k)" using tf(3) [OF z] by (auto simp: q_def Let_def)
  let ?k = "k\<lparr>k_pmm := q\<rparr>"
  have e: "create_stack L proc entry pcb k = bindR (free_pcb proc (free_pd (p_cr3 pcb) ?k)) (\<lambda>k. Inr (0, k))"
    using a1 a2 z hq(1) by (simp add: create_stack_def q_def free_frame_def)
  obtain k' where k': "free_pcb proc (free_pd (p_cr3 pcb) ?k) = Inr k'" "mem_ok kpd (k_heap k) F (k_ram k')" "k_heap k' = k_heap k"
    "pmm_inv (k_pmm k')" "free_set (k_pmm k') = insert (unat (p_cr3 pcb) div 4096) (free_set (k_pmm k))"
    "live (k_heap k) (k_ram k') = (live (k_heap k) (k_ram k))(proc := None)"
    "heap_bytes (k_heap k) (k_ram k') = heap_bytes (k_heap k) (k_ram k)"
    "k_sched k' = k_sched k\<lparr>pcbs := (pcbs (k_sched k))(proc := None)\<rparr>"
    using give_back [of kpd ?k F proc n "p_cr3 pcb" p0] ok p dir hq by simp (elim exE conjE, rule that)
  have "(pcbs (k_sched k))(proc := None) = pcbs (k_sched k)" using np by (rule fun_upd_idem)
  then have "k_sched k' = k_sched k" using k'(8) by simp
  then show ?thesis using e k' l by (intro exI [of _ k']) (simp add: nothing_left_def)
qed

lemma links_only_pid: "links_only X m m' \<Longrightarrow> map_option p_pid (m' q) = map_option p_pid (m q)"
  using links_only_lookup [of X m m' q] by (cases "m q") force+

text \<open>The state after the new process is on the queue: its frames, its block and its stack.\<close>

definition stacked :: "u32 \<Rightarrow> u32 \<Rightarrow> process \<Rightarrow> process" where
  "stacked lo hi pcb = pcb\<lparr>p_stack_frame_lo := lo, p_stack_frame_hi := hi, p_kernel_stack_top := hi + PAGE_SIZE, p_esp := hi + PAGE_SIZE - 40\<rparr>"

definition on_queue :: "layout \<Rightarrow> u32 \<Rightarrow> process \<Rightarrow> u32 \<Rightarrow> u32 list \<Rightarrow> u32 list \<Rightarrow> kernel \<Rightarrow> u32 \<Rightarrow> u32 \<Rightarrow> kernel \<Rightarrow> bool" where
  "on_queue L proc pcb entry xs zs k lo hi k2 \<longleftrightarrow>
     aligned 4096 lo \<and> aligned 4096 hi \<and> unat lo div 4096 \<in> free_set (k_pmm k) \<and> unat hi div 4096 \<in> free_set (k_pmm k) \<and> lo \<noteq> hi \<and>
     unat lo div 4096 \<noteq> unat hi div 4096 \<and>
     pmm_inv (k_pmm k2) \<and> free_set (k_pmm k2) = free_set (k_pmm k) - {unat lo div 4096, unat hi div 4096} \<and>
     k_heap k2 = k_heap k \<and> k_ram k2 = fake_stack (hi + PAGE_SIZE) (a_process_exit L) entry (k_ram k) \<and>
     lists_ok (k_sched k2) (xs @ [proc]) zs \<and> table_ok (k_sched k2) \<and>
     links_only (insert proc (set xs)) ((pcbs (k_sched k))(proc \<mapsto> stacked lo hi pcb)) (pcbs (k_sched k2)) \<and>
     proc_table (k_sched k2) = proc_table (k_sched k) \<and> current_process (k_sched k2) = current_process (k_sched k) \<and>
     proc \<notin> set xs \<and> proc \<notin> set zs \<and> proc \<notin> set (proc_table (k_sched k))"

lemma create_stack_queued:
  assumes inv: "pmm_inv (k_pmm k)" and p: "proc \<noteq> 0" "pcbs (k_sched k) proc = None"
    and l: "lists_ok (k_sched k) xs zs" "table_ok (k_sched k)"
    and rdy: "p_state pcb = PROCESS_READY" and enough: "2 \<le> card (free_set (k_pmm k))"
  shows "\<exists>lo hi k2. on_queue L proc pcb entry xs zs k lo hi k2 \<and> create_stack L proc entry pcb k =
    (let (added, s) = proc_table_add proc (k_sched k2) in
     if added then Inr (proc, k2\<lparr>k_sched := s\<rparr>)
     else bindR (lift_sched (scheduler_dequeue proc) k2) (\<lambda>k.
       bindR (free_pcb proc (free_pd (p_cr3 pcb) (free_frame hi (free_frame lo k)))) (\<lambda>k. Inr (0, k))))"
proof -
  obtain lo p1 where a1: "pmm_alloc_frame (k_pmm k) = (lo, p1)" by (metis surj_pair)
  obtain hi p2 where a2: "pmm_alloc_frame p1 = (hi, p2)" by (metis surj_pair)
  note tf = two_frames [OF inv a1 a2]
  have nz: "lo \<noteq> 0" "hi \<noteq> 0" using tf(1) enough by auto
  define b where "b = stacked lo hi pcb"
  define s where "s = k_sched k"
  have b: "p_state b = PROCESS_READY" using rdy by (simp add: b_def stacked_def)
  obtain s2 where s2: "scheduler_enqueue proc (s\<lparr>pcbs := (pcbs s)(proc \<mapsto> b)\<rparr>) = Inr s2" "lists_ok s2 (xs @ [proc]) zs" "table_ok s2"
    "queue_step (insert proc (set xs)) (s\<lparr>pcbs := (pcbs s)(proc \<mapsto> b)\<rparr>) s2" "proc \<notin> set xs" "proc \<notin> set zs" "proc \<notin> set (proc_table s)"
    using new_process_queued [OF l p b, folded s_def] by (elim exE conjE) (rule that)
  let ?k2 = "k\<lparr>k_pmm := p2, k_ram := fake_stack (hi + PAGE_SIZE) (a_process_exit L) entry (k_ram k), k_sched := s2\<rparr>"
  have "on_queue L proc pcb entry xs zs k lo hi ?k2"
    using tf(2) [OF nz] s2 by (auto simp: on_queue_def queue_step_def s_def b_def)
  moreover have "create_stack L proc entry pcb k =
    (let (added, s) = proc_table_add proc s2 in
     if added then Inr (proc, ?k2\<lparr>k_sched := s\<rparr>)
     else bindR (lift_sched (scheduler_dequeue proc) ?k2) (\<lambda>k.
       bindR (free_pcb proc (free_pd (p_cr3 pcb) (free_frame hi (free_frame lo k)))) (\<lambda>k. Inr (0, k))))"
    using a1 a2 nz s2(1) by (simp add: create_stack_def b_def stacked_def s_def lift_sched_def Let_def split: prod.splits)
  ultimately show ?thesis by (intro exI [of _ lo] exI [of _ hi] exI [of _ ?k2]) simp
qed

lemma on_queue_table:
  assumes q: "on_queue L proc pcb entry xs zs k lo hi k2" and p: "proc \<noteq> 0"
    and pid: "\<forall>q \<in> set (proc_table (k_sched k)) - {0}. pid_of (k_sched k) q \<noteq> Some (p_pid pcb)"
  shows "fst (proc_table_add proc (k_sched k2)) \<longleftrightarrow> 0 \<in> set (proc_table (k_sched k))"
    and "fst (proc_table_add proc (k_sched k2)) \<Longrightarrow> process_added L proc pcb entry xs zs k (k2\<lparr>k_sched := snd (proc_table_add proc (k_sched k2))\<rparr>)"
proof -
  define s where "s = k_sched k2"
  define s3 where "s3 = snd (proc_table_add proc s)"
  have lk: "links_only (insert proc (set xs)) ((pcbs (k_sched k))(proc \<mapsto> stacked lo hi pcb)) (pcbs s)"
    and st: "proc_table s = proc_table (k_sched k)" "current_process s = current_process (k_sched k)"
    "lists_ok s (xs @ [proc]) zs" "table_ok s" "proc \<notin> set (proc_table (k_sched k))"
    using q by (simp_all add: on_queue_def s_def)
  obtain r where r: "pcbs s proc = Some ((stacked lo hi pcb)\<lparr>p_next := r\<rparr>)"
    using links_only_lookup(2) [OF lk, of proc] by auto
  have "\<forall>q \<in> set (proc_table s) - {0}. pid_of s q \<noteq> Some (p_pid ((stacked lo hi pcb)\<lparr>p_next := r\<rparr>))"
  proof
    fix q assume "q \<in> set (proc_table s) - {0}"
    then show "pid_of s q \<noteq> Some (p_pid ((stacked lo hi pcb)\<lparr>p_next := r\<rparr>))"
      using pid st links_only_pid [OF lk, of q] by (auto simp: pid_of_def stacked_def)
  qed
  note ta = proc_table_add_rep [OF st(4) p _ r this, unfolded st(1), OF st(5)]
  show "fst (proc_table_add proc (k_sched k2)) \<longleftrightarrow> 0 \<in> set (proc_table (k_sched k))" using ta(1) by (simp add: s_def)
  assume "fst (proc_table_add proc (k_sched k2))"
  then have t3: "table_ok s3" "set (proc_table s3) - {0} = insert proc (set (proc_table (k_sched k)) - {0})" "pcbs s3 = pcbs s"
    using ta(3) by (auto simp: s_def s3_def)
  have s3: "lists_ok s3 (xs @ [proc]) zs" "current_process s3 = current_process s"
    using st(3) by (auto simp: s3_def proc_table_add_def lists_ok_def run_queue_def zombies_def split: option.splits)
  have ot: "map_option (p_next_update (\<lambda>_. 0)) (pcbs s3 q) = map_option (p_next_update (\<lambda>_. 0)) (pcbs (k_sched k) q)" if "q \<noteq> proc" for q
    using lk that t3(3) by (simp add: links_only_def)
  have "process_added L proc pcb entry xs zs k (k2\<lparr>k_sched := s3\<rparr>)"
    unfolding process_added_def using q t3 s3 st(2) ot r
    by (intro conjI exI [of _ lo] exI [of _ hi] exI [of _ "(stacked lo hi pcb)\<lparr>p_next := r\<rparr>"]) (simp_all add: on_queue_def stacked_def)
  then show "process_added L proc pcb entry xs zs k (k2\<lparr>k_sched := snd (proc_table_add proc (k_sched k2))\<rparr>)"
    by (simp add: s_def s3_def)
qed

lemma on_queue_undo:
  assumes q: "on_queue L proc pcb entry xs zs k lo hi k2" and p: "proc \<noteq> 0" "pcbs (k_sched k) proc = None"
    and ok: "mem_ok kpd (k_heap k) F (k_ram k)" "free_set (k_pmm k) \<subseteq> F"
    and dir: "new_dir (p_cr3 pcb) F (k_pmm k) (k_ram k)" and lv: "live (k_heap k) (k_ram k) proc = Some n"
  shows "\<exists>k3 k'. lift_sched (scheduler_dequeue proc) k2 = Inr k3 \<and>
    free_pcb proc (free_pd (p_cr3 pcb) (free_frame hi (free_frame lo k3))) = Inr k' \<and>
    nothing_left kpd F xs zs (insert (unat (p_cr3 pcb) div 4096) (free_set (k_pmm k))) ((live (k_heap k) (k_ram k))(proc := None)) k k'"
proof -
  define s where "s = k_sched k2"
  have fr: "aligned 4096 lo" "aligned 4096 hi" "unat lo div 4096 \<in> free_set (k_pmm k)" "unat hi div 4096 \<in> free_set (k_pmm k)"
    "pmm_inv (k_pmm k2)" "free_set (k_pmm k2) = free_set (k_pmm k) - {unat lo div 4096, unat hi div 4096}"
    and hp: "k_heap k2 = k_heap k" "k_ram k2 = fake_stack (hi + PAGE_SIZE) (a_process_exit L) entry (k_ram k)"
    and ls: "run_queue s (xs @ [proc])" "zombies s zs" "set xs \<inter> set zs = {}" "proc \<notin> set xs" "proc \<notin> set zs"
    "links_only (insert proc (set xs)) ((pcbs (k_sched k))(proc \<mapsto> stacked lo hi pcb)) (pcbs s)"
    "proc_table s = proc_table (k_sched k)" "current_process s = current_process (k_sched k)"
    using q by (auto simp: on_queue_def lists_ok_def s_def)
  obtain s3 where s3: "scheduler_dequeue proc s = Inr s3" "run_queue s3 (remove1 proc (xs @ [proc]))" "queue_step (set (xs @ [proc])) s s3"
    using scheduler_dequeue_rep [OF ls(1), of proc] by blast
  have q3: "run_queue s3 xs" using s3(2) ls(4) by (simp add: remove1_append remove1_idem)
  define f where "f = pmm_free_frame hi (pmm_free_frame lo (k_pmm k2))"
  have "\<forall>x \<in> free_set (k_pmm k). 0 < x \<and> x < 32768" using ok by (auto simp: mem_ok_def)
  then have f: "pmm_inv f" "free_set f = free_set (k_pmm k)"
    using pmm.release_list [OF fr(5), of "[lo, hi]"] fr(3,4,6) by (auto simp: f_def insert_absorb)
  let ?k4 = "k2\<lparr>k_sched := s3, k_pmm := f\<rparr>"
  have ag: "agree X (k_ram k2) (k_ram k)" if "X \<inter> page_bytes hi = {}" for X
    unfolding hp(2) by (rule fake_stack_agree [OF fr(2) that])
  have hF: "unat hi div 4096 \<in> F" using fr(4) ok(2) by blast
  note mf = mem_ok_frame [OF ok(1) fr(2) hF ag]
  have "page_bytes (p_cr3 pcb) \<inter> page_bytes hi = {}"
    using dir fr by (intro page_bytes_disjoint) (auto simp: new_dir_def)
  then have dir2: "new_dir (p_cr3 pcb) F (k_pmm k) (k_ram k2)" by (intro new_dir_agree [OF dir] ag)
  obtain k' where k': "free_pcb proc (free_pd (p_cr3 pcb) ?k4) = Inr k'" "mem_ok kpd (k_heap k) F (k_ram k')" "k_heap k' = k_heap k"
    "pmm_inv (k_pmm k')" "free_set (k_pmm k') = insert (unat (p_cr3 pcb) div 4096) (free_set (k_pmm k))"
    "live (k_heap k) (k_ram k') = (live (k_heap k) (k_ram k))(proc := None)"
    "heap_bytes (k_heap k) (k_ram k') = heap_bytes (k_heap k) (k_ram k)"
    "k_sched k' = s3\<lparr>pcbs := (pcbs s3)(proc := None)\<rparr>"
    using give_back [of kpd ?k4 F proc n "p_cr3 pcb" "k_pmm k"] mf lv dir2 f hp(1) by simp (elim exE conjE, rule that)
  have z3: "zombies s3 zs" using zombies_step [OF s3(3)] ls by auto
  have "lists_ok (k_sched k') xs zs" unfolding k'(8) lists_ok_def using q3 z3 ls(3,4,5) by (simp add: zombies_def)
  moreover have "links_only (set xs) (pcbs (k_sched k)) (pcbs (k_sched k'))"
    using ls(6) s3(3) p(2) ls(4) unfolding k'(8) by (simp add: queue_step_def links_only_def)
  moreover have "proc_table (k_sched k') = proc_table (k_sched k)" "current_process (k_sched k') = current_process (k_sched k)"
    using s3(3) ls(7,8) unfolding k'(8) by (simp_all add: queue_step_def)
  moreover have "lift_sched (scheduler_dequeue proc) k2 = Inr (k2\<lparr>k_sched := s3\<rparr>)" using s3(1) by (simp add: lift_sched_def s_def)
  moreover have "free_frame hi (free_frame lo (k2\<lparr>k_sched := s3\<rparr>)) = ?k4" by (simp add: free_frame_def f_def)
  ultimately show ?thesis using k' by (intro exI [of _ "k2\<lparr>k_sched := s3\<rparr>"] exI [of _ k']) (simp add: nothing_left_def)
qed

lemma create_stack_spec:
  assumes ok: "mem_ok kpd (k_heap k) F (k_ram k)" "free_set (k_pmm k) \<subseteq> F" and inv: "pmm_inv (k_pmm k)"
    and dir: "new_dir (p_cr3 pcb) F (k_pmm k) (k_ram k)" and lv: "live (k_heap k) (k_ram k) proc = Some n"
    and p: "proc \<noteq> 0" "pcbs (k_sched k) proc = None" and l: "lists_ok (k_sched k) xs zs" "table_ok (k_sched k)"
    and pid: "\<forall>q \<in> set (proc_table (k_sched k)) - {0}. pid_of (k_sched k) q \<noteq> Some (p_pid pcb)"
    and rdy: "p_state pcb = PROCESS_READY"
  shows "if 2 \<le> card (free_set (k_pmm k)) \<and> 0 \<in> set (proc_table (k_sched k))
    then \<exists>k'. create_stack L proc entry pcb k = Inr (proc, k') \<and> process_added L proc pcb entry xs zs k k'
    else \<exists>k'. create_stack L proc entry pcb k = Inr (0, k') \<and>
      nothing_left kpd F xs zs (insert (unat (p_cr3 pcb) div 4096) (free_set (k_pmm k))) ((live (k_heap k) (k_ram k))(proc := None)) k k'"
proof (cases "2 \<le> card (free_set (k_pmm k))")
  case False
  then show ?thesis using create_stack_no_frames [OF ok(1) inv dir lv l(1) p(2), of L entry] by simp
next
  case True
  obtain lo hi k2 where q: "on_queue L proc pcb entry xs zs k lo hi k2" and e: "create_stack L proc entry pcb k =
    (let (added, s) = proc_table_add proc (k_sched k2) in
     if added then Inr (proc, k2\<lparr>k_sched := s\<rparr>)
     else bindR (lift_sched (scheduler_dequeue proc) k2) (\<lambda>k.
       bindR (free_pcb proc (free_pd (p_cr3 pcb) (free_frame hi (free_frame lo k)))) (\<lambda>k. Inr (0, k))))"
    using create_stack_queued [OF inv p l rdy True, of L entry] by (elim exE conjE) (rule that)
  note t = on_queue_table [OF q p(1) pid]
  show ?thesis
  proof (cases "0 \<in> set (proc_table (k_sched k))")
    case z: True
    then show ?thesis using True t e by (auto simp: split_beta)
  next
    case z: False
    then have "\<not> fst (proc_table_add proc (k_sched k2))" using t(1) by simp
    moreover obtain k3 k' where "lift_sched (scheduler_dequeue proc) k2 = Inr k3"
      "free_pcb proc (free_pd (p_cr3 pcb) (free_frame hi (free_frame lo k3))) = Inr k'"
      "nothing_left kpd F xs zs (insert (unat (p_cr3 pcb) div 4096) (free_set (k_pmm k))) ((live (k_heap k) (k_ram k))(proc := None)) k k'"
      using on_queue_undo [OF q p ok dir lv] by (elim exE conjE) (rule that)
    ultimately show ?thesis using z e by (simp add: split_beta)
  qed
qed

text \<open>
  The state of a running kernel: intact memory, the lists and the table of the scheduler, and every
  control block either an object of the heap or outside of it.
\<close>

definition kernel_ok :: "layout \<Rightarrow> u32 list \<Rightarrow> u32 list \<Rightarrow> kernel \<Rightarrow> bool" where
  "kernel_ok L xs zs k \<longleftrightarrow>
     mem_ok (a_kernel_pd L) (k_heap k) (free_set (k_pmm k)) (k_ram k) \<and> pmm_inv (k_pmm k) \<and>
     lists_ok (k_sched k) xs zs \<and> table_ok (k_sched k) \<and>
     (\<forall>p. pcbs (k_sched k) p \<noteq> None \<longrightarrow> live (k_heap k) (k_ram k) p \<noteq> None \<or> unat p \<notin> heap_bytes (k_heap k) (k_ram k)) \<and>
     (current_process (k_sched k) = 0 \<or> pcbs (k_sched k) (current_process (k_sched k)) \<noteq> None)"

definition fresh_pid :: "sched \<Rightarrow> bool" where
  "fresh_pid s \<longleftrightarrow> (\<forall>q \<in> set (proc_table s) - {0}. pid_of s q \<noteq> Some (next_pid s))"

text \<open>Nothing remains of a creation that failed.\<close>

lemma nothing_left_ok:
  assumes ok: "kernel_ok L xs zs k" and n: "nothing_left (a_kernel_pd L) (free_set (k_pmm k)) xs zs (free_set (k_pmm k)) (live (k_heap k) (k_ram k)) k1 k'"
    and k1: "k_heap k1 = k_heap k" "heap_bytes (k_heap k) (k_ram k1) = heap_bytes (k_heap k) (k_ram k)"
      "proc_table (k_sched k1) = proc_table (k_sched k)" "current_process (k_sched k1) = current_process (k_sched k)" "pcbs (k_sched k1) = pcbs (k_sched k)"
  shows "kernel_ok L xs zs k' \<and> free_set (k_pmm k') = free_set (k_pmm k) \<and> live (k_heap k') (k_ram k') = live (k_heap k) (k_ram k) \<and>
    proc_table (k_sched k') = proc_table (k_sched k) \<and> k_heap k' = k_heap k"
proof -
  have lk: "links_only (set xs) (pcbs (k_sched k)) (pcbs (k_sched k'))" using n k1 by (simp add: nothing_left_def)
  have t: "table_ok (k_sched k')" using table_ok_links [OF _ _ lk] ok n k1 by (simp add: kernel_ok_def nothing_left_def)
  have hp: "k_heap k' = k_heap k" using n k1 by (simp add: nothing_left_def)
  show ?thesis using n k1 ok t links_only_lookup(1) [OF lk] unfolding kernel_ok_def nothing_left_def hp by simp
qed

lemma mem_ok_subset: "mem_ok kpd h F m \<Longrightarrow> G \<subseteq> F \<Longrightarrow> mem_ok kpd h G m"
  by (auto simp: mem_ok_def)

text \<open>The control block up to the stack, and the memory it is created in.\<close>

definition new_pcb :: "u32 \<Rightarrow> u32 \<Rightarrow> u32 \<Rightarrow> u32 \<Rightarrow> cstring \<Rightarrow> process" where
  "new_pcb pd pid parent priority name =
     (let prio = (if priority = 0 then 1 else priority) in
      process_zero\<lparr>p_cr3 := pd, p_pid := pid, p_parent_pid := parent, p_state := PROCESS_READY,
        p_priority := prio, p_ticks_remaining := prio, p_name := kstrncpy name 32\<rparr>)"

text \<open>The first half of \<open>process_create\<close>: the control block and the directory.\<close>

lemma process_create_start:
  assumes ok: "kernel_ok L xs zs k" and m: "kmalloc (k_heap k) sizeof_process (k_ram k) = Inr (proc, m)" "proc \<noteq> 0"
    and ne: "free_set (k_pmm k) \<noteq> {}"
  shows "\<exists>pd p1 m1 n parent. mem_ok (a_kernel_pd L) (k_heap k) (free_set (k_pmm k)) m1 \<and> pmm_inv p1 \<and>
    free_set p1 = free_set (k_pmm k) - {unat pd div 4096} \<and> new_dir pd (free_set (k_pmm k)) p1 m1 \<and>
    live (k_heap k) (k_ram k) proc = None \<and> live (k_heap k) m1 = (live (k_heap k) (k_ram k))(proc \<mapsto> n) \<and>
    heap_bytes (k_heap k) m1 = heap_bytes (k_heap k) (k_ram k) \<and> pcbs (k_sched k) proc = None \<and>
    wf_pd m1 pd \<and> pd_pages m1 pd \<subseteq> insert pd (pd_pages m1 (a_kernel_pd L)) \<and>
    (\<forall>w. translate m1 pd w = (if unat (pd_index w) < 8 then translate (k_ram k) (a_kernel_pd L) w else None)) \<and>
    process_create L name entry priority k =
      create_stack L proc entry (new_pcb pd (next_pid (k_sched k)) parent priority name)
        (k\<lparr>k_pmm := p1, k_ram := m1, k_sched := (k_sched k)\<lparr>next_pid := next_pid (k_sched k) + 1\<rparr>\<rparr>) \<and>
    current_pid k = Inr parent"
proof -
  define F where "F = free_set (k_pmm k)"
  define h where "h = k_heap k"
  let ?kpd = "a_kernel_pd L"
  have k: "mem_ok ?kpd h F (k_ram k)" "pmm_inv (k_pmm k)" using ok by (simp_all add: kernel_ok_def F_def h_def)
  have sz: "0 < sizeof_process" "sizeof_process \<le> 0xFFFFFFFC" by (simp_all add: sizeof_process_def)
  have hok: "heap_ok h (k_ram k)" using k(1) by (simp add: mem_ok_def)
  note a = mem_ok_kmalloc [OF k(1) sz m(1) [folded h_def]]
  obtain n where n: "live h (k_ram k) proc = None" "live h m = (live h (k_ram k))(proc \<mapsto> n)"
    using kmalloc_contract [OF hok sz] m by (auto simp: h_def)
  have np: "pcbs (k_sched k) proc = None"
    using ok n(1) kmalloc_bytes(3) [OF hok sz m(1) [folded h_def] m(2)] by (auto simp: kernel_ok_def h_def)
  have own: "wf_pd m ?kpd" "owned (pd_pages m ?kpd) (k_pmm k)"
    using a(1) mem_ok_owned [OF a(1)] by (simp_all add: mem_ok_def F_def)
  obtain pd p1 m1 where c: "paging_create_user_pd ?kpd (k_pmm k) m = (pd, p1, m1)" "pd \<noteq> 0" "pd \<notin> pd_pages m ?kpd" "aligned 4096 pd"
    "unat pd div 4096 \<in> free_set (k_pmm k)" "free_set p1 = free_set (k_pmm k) - {unat pd div 4096}" "pmm_inv p1" "wf_pd m1 pd"
    "\<forall>w. translate m1 pd w = (if unat (pd_index w) < 8 then translate m ?kpd w else None)"
    "\<forall>i < 1024. pde m1 pd i = (if i < 8 then pde m ?kpd i else 0)" "\<forall>X. X \<inter> page_bytes pd = {} \<longrightarrow> agree X m1 m"
    using created_directory [OF own k(2) ne] by (elim exE conjE) (rule that)
  have ag: "agree X m1 m" if "X \<inter> page_bytes pd = {}" for X using c(11) that by blast
  have pF: "unat pd div 4096 \<in> F" using c(5) by (simp add: F_def)
  note b = mem_ok_frame [OF a(1) c(4) pF ag]
  have nd: "new_dir pd F p1 m1" using c pF by (auto simp: new_dir_def)
  have tb: "pd_pages m1 pd \<subseteq> insert pd (pd_pages m1 ?kpd)"
    using created_pd(2) [OF own(1) c(4,3,10) ag] kernel_after_create(3) [OF own(1) c(4,3,11)] by (auto simp: pd_pages_def)
  obtain parent where par: "current_pid (k\<lparr>k_pmm := p1, k_ram := m1, k_sched := (k_sched k)\<lparr>next_pid := next_pid (k_sched k) + 1\<rparr>\<rparr>) = Inr parent"
  proof (cases "current_process (k_sched k) = 0")
    case True
    then show thesis using that by (simp add: current_pid_def)
  next
    case False
    then obtain y where "pcbs (k_sched k) (current_process (k_sched k)) = Some y" using ok by (auto simp: kernel_ok_def)
    then show thesis using False that by (simp add: current_pid_def pcb_of_def deref_def)
  qed
  have "process_create L name entry priority k =
      create_stack L proc entry (new_pcb pd (next_pid (k_sched k)) parent priority name)
        (k\<lparr>k_pmm := p1, k_ram := m1, k_sched := (k_sched k)\<lparr>next_pid := next_pid (k_sched k) + 1\<rparr>\<rparr>)"
    using m c(1,2) par by (simp add: process_create_def new_pcb_def Let_def)
  moreover have "current_pid k = Inr parent" using par unfolding current_pid_def pcb_of_def deref_def
    by (cases "pcbs (k_sched k) (current_process (k_sched k))") (simp_all split: if_splits)
  ultimately show ?thesis using b nd n np a c tb unfolding F_def h_def
    by (intro exI [of _ pd] exI [of _ p1] exI [of _ m1] exI [of _ n] exI [of _ parent]) simp
qed

text \<open>
  Switching to the process for the first time enters \<open>entry\<close> with cleared registers and interrupts on;
  if that function returns, it returns to \<open>exit_fn\<close>.
\<close>

definition first_run :: "process \<Rightarrow> u32 \<Rightarrow> u32 \<Rightarrow> mem \<Rightarrow> bool" where
  "first_run pcb entry exit_fn m \<longleftrightarrow>
     (\<forall>c. restore_context (p_esp pcb) (c, m) = (c\<lparr>r_edi := 0, r_esi := 0, r_ebp := 0, r_ebx := 0, r_edx := 0, r_ecx := 0,
        r_eax := 0, r_eflags := 0x202, r_eip := entry, r_esp := p_kernel_stack_top pcb - 4\<rparr>, m)) \<and>
     load32 m (p_kernel_stack_top pcb - 4) = exit_fn"

lemma fake_stack_first_run:
  assumes "p_kernel_stack_top pcb = stk" "p_esp pcb = stk - 40"
  shows "first_run pcb entry exit_fn (fake_stack stk exit_fn entry m)"
proof -
  let ?m = "fake_stack stk exit_fn entry m"
  have w: "words_at ?m (stk - 40) ([0, 0, 0, 0, 0, 0, 0, 0x202, entry] @ [exit_fn])" using fake_stack_words [of stk exit_fn entry m] by simp
  then have "words_at ?m (stk - 40) [0, 0, 0, 0, 0, 0, 0, 0x202, entry]" by (simp only: words_at_append)
  note r = restore_context_frame [OF this]
  have "load32 ?m (stk - 4) = exit_fn" using w by (simp only: words_at_append) simp
  then show ?thesis unfolding first_run_def assms using r by simp
qed

lemma process_addedE:
  assumes "process_added L proc pcb entry xs zs k1 k'"
  obtains lo hi b where "unat lo div 4096 \<in> free_set (k_pmm k1)" "unat hi div 4096 \<in> free_set (k_pmm k1)" "lo \<noteq> hi"
    "unat lo div 4096 \<noteq> unat hi div 4096" "aligned 4096 hi"
    "free_set (k_pmm k') = free_set (k_pmm k1) - {unat lo div 4096, unat hi div 4096}" "pmm_inv (k_pmm k')"
    "k_ram k' = fake_stack (hi + PAGE_SIZE) (a_process_exit L) entry (k_ram k1)" "pcbs (k_sched k') proc = Some b"
    "b\<lparr>p_next := 0\<rparr> = pcb\<lparr>p_stack_frame_lo := lo, p_stack_frame_hi := hi, p_kernel_stack_top := hi + PAGE_SIZE,
         p_esp := hi + PAGE_SIZE - 40, p_next := 0\<rparr>"
  using assms unfolding process_added_def by (elim exE conjE) (rule that)

lemma added_ok:
  assumes ok: "kernel_ok L xs zs k" and ad: "process_added L proc pcb entry xs zs k1 k'"
    and k1: "k_heap k1 = k_heap k" "current_process (k_sched k1) = current_process (k_sched k)" "pcbs (k_sched k1) = pcbs (k_sched k)"
      "mem_ok (a_kernel_pd L) (k_heap k) (free_set (k_pmm k)) (k_ram k1)" "free_set (k_pmm k1) \<subseteq> free_set (k_pmm k)"
      "live (k_heap k) (k_ram k1) = (live (k_heap k) (k_ram k))(proc \<mapsto> n)" "heap_bytes (k_heap k) (k_ram k1) = heap_bytes (k_heap k) (k_ram k)"
    and np: "pcbs (k_sched k) proc = None"
  shows "kernel_ok L (xs @ [proc]) zs k' \<and> live (k_heap k') (k_ram k') = (live (k_heap k) (k_ram k))(proc \<mapsto> n) \<and>
    mem_ok (a_kernel_pd L) (k_heap k) (free_set (k_pmm k)) (k_ram k')"
proof -
  obtain lo hi b where "lo \<noteq> hi" and fr: "aligned 4096 hi" "unat hi div 4096 \<in> free_set (k_pmm k1)"
    "free_set (k_pmm k') = free_set (k_pmm k1) - {unat lo div 4096, unat hi div 4096}" "pmm_inv (k_pmm k')"
    "k_ram k' = fake_stack (hi + PAGE_SIZE) (a_process_exit L) entry (k_ram k1)" "pcbs (k_sched k') proc = Some b"
    by (rule process_addedE [OF ad]) (rule that)
  have hF: "unat hi div 4096 \<in> free_set (k_pmm k)" using fr(2) k1(5) by blast
  have ag: "agree X (k_ram k') (k_ram k1)" if "X \<inter> page_bytes hi = {}" for X
    unfolding fr(5) by (rule fake_stack_agree [OF fr(1) that])
  note b = mem_ok_frame [OF k1(4) fr(1) hF ag]
  have sub: "free_set (k_pmm k') \<subseteq> free_set (k_pmm k)" using fr(3) k1(5) by blast
  have hp: "k_heap k' = k_heap k" using ad k1(1) by (simp add: process_added_def)
  have ad': "lists_ok (k_sched k') (xs @ [proc]) zs" "table_ok (k_sched k')" "current_process (k_sched k') = current_process (k_sched k)"
    using ad k1(2) by (simp_all add: process_added_def)
  have dm: "(pcbs (k_sched k') q = None) = (pcbs (k_sched k) q = None)" if "q \<noteq> proc" for q
    using ad that k1(3) unfolding process_added_def by (metis map_option_is_None)
  have lv: "live (k_heap k) (k_ram k') = (live (k_heap k) (k_ram k))(proc \<mapsto> n)" using b(3) k1(6) by simp
  have "pcbs (k_sched k') p \<noteq> None \<longrightarrow> live (k_heap k) (k_ram k') p \<noteq> None \<or> unat p \<notin> heap_bytes (k_heap k) (k_ram k')" for p
    using ok dm [of p] lv b(2) k1(7) by (cases "p = proc") (auto simp: kernel_ok_def)
  moreover have "current_process (k_sched k') = 0 \<or> pcbs (k_sched k') (current_process (k_sched k')) \<noteq> None"
  proof -
    have "current_process (k_sched k) = 0 \<or> pcbs (k_sched k) (current_process (k_sched k)) \<noteq> None" using ok by (simp add: kernel_ok_def)
    then show ?thesis unfolding ad'(3) using dm fr(6) by (metis option.distinct(1))
  qed
  ultimately have "kernel_ok L (xs @ [proc]) zs k'"
    unfolding kernel_ok_def hp using mem_ok_subset [OF b(1) sub] fr(4) ad' by blast
  then show ?thesis using lv b(1) by (simp add: hp)
qed

lemma added_dir:
  assumes ad: "process_added L proc pcb entry xs zs k1 k'" and k1: "mem_ok kpd h F (k_ram k1)" "free_set (k_pmm k1) \<subseteq> F"
    and d: "new_dir pd F (k_pmm k1) (k_ram k1)" "wf_pd (k_ram k1) pd" "pd_pages (k_ram k1) pd \<subseteq> insert pd (pd_pages (k_ram k1) kpd)"
  shows "translate (k_ram k') pd = translate (k_ram k1) pd"
proof -
  obtain hi where fr: "aligned 4096 hi" "unat hi div 4096 \<in> free_set (k_pmm k1)"
    "k_ram k' = fake_stack (hi + PAGE_SIZE) (a_process_exit L) entry (k_ram k1)" by (rule process_addedE [OF ad]) (rule that)
  have "aligned 4096 x" if "x \<in> pd_pages (k_ram k1) pd" for x
    using that d(2) by (auto simp: wf_pd_def pd_pages_def pd_tables_def)
  moreover have "x \<noteq> hi" if "x \<in> pd_pages (k_ram k1) pd" for x
    using that d(1,3) k1 fr(2) by (auto simp: new_dir_def mem_ok_def)
  ultimately have "\<Union> (page_bytes ` pd_pages (k_ram k1) pd) \<inter> page_bytes hi = {}" using page_bytes_disjoint fr(1) by blast
  then have "agree (\<Union> (page_bytes ` pd_pages (k_ram k1) pd)) (k_ram k') (k_ram k1)"
    unfolding fr(3) by (rule fake_stack_agree [OF fr(1)])
  moreover have "aligned 4096 pd" using d(2) by (simp add: wf_pd_def)
  ultimately show ?thesis by (rule pd_agree(2))
qed

lemma process_create_no_object:
  assumes ok: "kernel_ok L xs zs k" and m: "kmalloc (k_heap k) sizeof_process (k_ram k) = Inr (0, m)"
  shows "process_create L name entry priority k = Inr (0, k\<lparr>k_ram := m\<rparr>) \<and> kernel_ok L xs zs (k\<lparr>k_ram := m\<rparr>) \<and>
    live (k_heap k) m = live (k_heap k) (k_ram k)"
proof -
  have sz: "0 < sizeof_process" "sizeof_process \<le> 0xFFFFFFFC" by (simp_all add: sizeof_process_def)
  have k: "mem_ok (a_kernel_pd L) (k_heap k) (free_set (k_pmm k)) (k_ram k)" "heap_ok (k_heap k) (k_ram k)"
    using ok by (simp_all add: kernel_ok_def mem_ok_def)
  note a = mem_ok_kmalloc [OF k(1) sz m]
  have lv: "live (k_heap k) m = live (k_heap k) (k_ram k)" using kmalloc_contract [OF k(2) sz] m by auto
  show ?thesis using ok a lv m by (simp add: process_create_def kernel_ok_def)
qed

lemma process_create_no_frame:
  assumes ok: "kernel_ok L xs zs k" and m: "kmalloc (k_heap k) sizeof_process (k_ram k) = Inr (proc, m)" "proc \<noteq> 0"
    and e: "free_set (k_pmm k) = {}"
  shows "\<exists>k'. process_create L name entry priority k = Inr (0, k') \<and> kernel_ok L xs zs k' \<and>
    free_set (k_pmm k') = {} \<and> live (k_heap k') (k_ram k') = live (k_heap k) (k_ram k) \<and> k_sched k' = k_sched k"
proof -
  have sz: "0 < sizeof_process" "sizeof_process \<le> 0xFFFFFFFC" by (simp_all add: sizeof_process_def)
  have k: "mem_ok (a_kernel_pd L) (k_heap k) (free_set (k_pmm k)) (k_ram k)" "heap_ok (k_heap k) (k_ram k)"
    using ok by (simp_all add: kernel_ok_def mem_ok_def)
  note a = mem_ok_kmalloc [OF k(1) sz m(1)]
  obtain n where n: "live (k_heap k) (k_ram k) proc = None" "live (k_heap k) m = (live (k_heap k) (k_ram k))(proc \<mapsto> n)"
    using kmalloc_contract [OF k(2) sz] m by auto
  have np: "pcbs (k_sched k) proc = None"
    using ok n(1) kmalloc_bytes(3) [OF k(2) sz m] by (auto simp: kernel_ok_def)
  have c: "paging_create_user_pd (a_kernel_pd L) (k_pmm k) m = (0, k_pmm k, m)"
    using pmm_alloc_frame_empty [OF e] by (simp add: paging_create_user_pd_def)
  let ?k1 = "k\<lparr>k_ram := m\<rparr>"
  have "mem_ok (a_kernel_pd L) (k_heap ?k1) (free_set (k_pmm k)) (k_ram ?k1)" "live (k_heap ?k1) (k_ram ?k1) proc = Some n"
    using a(1) n(2) by simp_all
  from free_pcb_spec [OF this] obtain m' where
    f: "free_pcb proc ?k1 = Inr (?k1\<lparr>k_ram := m', k_sched := (k_sched k)\<lparr>pcbs := (pcbs (k_sched k))(proc := None)\<rparr>\<rparr>)"
    "mem_ok (a_kernel_pd L) (k_heap k) (free_set (k_pmm k)) m'" "live (k_heap k) m' = (live (k_heap k) m)(proc := None)"
    "heap_bytes (k_heap k) m' = heap_bytes (k_heap k) m" by auto
  have "(pcbs (k_sched k))(proc := None) = pcbs (k_sched k)" using np by (rule fun_upd_idem)
  moreover have "live (k_heap k) m' = live (k_heap k) (k_ram k)" using f(3) n by (simp add: fun_upd_idem)
  ultimately show ?thesis using ok a m f c by (intro exI [of _ "k\<lparr>k_ram := m'\<rparr>"]) (simp add: process_create_def kernel_ok_def e)
qed

text \<open>What a new process has: its block, its place in the table, its three frames, its address space and its stack.\<close>

definition created :: "layout \<Rightarrow> u32 \<Rightarrow> u32 \<Rightarrow> u32 \<Rightarrow> kernel \<Rightarrow> kernel \<Rightarrow> bool" where
  "created L proc entry priority k k' \<longleftrightarrow>
     pcbs (k_sched k) proc = None \<and> live (k_heap k) (k_ram k) proc = None \<and> (\<exists>n. live (k_heap k') (k_ram k') = (live (k_heap k) (k_ram k))(proc \<mapsto> n)) \<and>
     set (proc_table (k_sched k')) - {0} = insert proc (set (proc_table (k_sched k)) - {0}) \<and>
     (\<exists>pcb. pcbs (k_sched k') proc = Some pcb \<and> p_pid pcb = next_pid (k_sched k) \<and> p_state pcb = PROCESS_READY \<and>
       p_priority pcb = (if priority = 0 then 1 else priority) \<and>
       free_set (k_pmm k) = free_set (k_pmm k') \<union> (\<lambda>f. unat f div 4096) ` {p_cr3 pcb, p_stack_frame_lo pcb, p_stack_frame_hi pcb} \<and>
       card (free_set (k_pmm k)) = card (free_set (k_pmm k')) + 3 \<and>
       new_dir (p_cr3 pcb) (free_set (k_pmm k)) (k_pmm k') (k_ram k') \<and>
       (\<forall>w. translate (k_ram k') (p_cr3 pcb) w = (if unat (pd_index w) < 8 then translate (k_ram k) (a_kernel_pd L) w else None)) \<and>
       first_run pcb entry (a_process_exit L) (k_ram k') \<and> current_pid k = Inr (p_parent_pid pcb)) \<and>
     mem_ok (a_kernel_pd L) (k_heap k) (free_set (k_pmm k)) (k_ram k') \<and>
     k_heap k' = k_heap k \<and> current_process (k_sched k') = current_process (k_sched k) \<and>
     (\<forall>q. q \<noteq> proc \<longrightarrow> map_option (p_next_update (\<lambda>_. 0)) (pcbs (k_sched k') q) = map_option (p_next_update (\<lambda>_. 0)) (pcbs (k_sched k) q))"

lemma added_created:
  assumes ad: "process_added L proc pcb entry xs zs k1 k'"
    and k1: "k_heap k1 = k_heap k" "proc_table (k_sched k1) = proc_table (k_sched k)"
      "current_process (k_sched k1) = current_process (k_sched k)" "pcbs (k_sched k1) = pcbs (k_sched k)"
      "mem_ok (a_kernel_pd L) (k_heap k) (free_set (k_pmm k)) (k_ram k1)" "free_set (k_pmm k1) = free_set (k_pmm k) - {unat (p_cr3 pcb) div 4096}"
    and lv: "pcbs (k_sched k) proc = None" "live (k_heap k) (k_ram k) proc = None"
      "live (k_heap k') (k_ram k') = (live (k_heap k) (k_ram k))(proc \<mapsto> n)" "mem_ok (a_kernel_pd L) (k_heap k) (free_set (k_pmm k)) (k_ram k')"
    and pcb: "p_pid pcb = next_pid (k_sched k)" "p_state pcb = PROCESS_READY" "p_priority pcb = (if priority = 0 then 1 else priority)" "current_pid k = Inr (p_parent_pid pcb)"
    and d: "new_dir (p_cr3 pcb) (free_set (k_pmm k)) (k_pmm k1) (k_ram k1)" "wf_pd (k_ram k1) (p_cr3 pcb)"
      "pd_pages (k_ram k1) (p_cr3 pcb) \<subseteq> insert (p_cr3 pcb) (pd_pages (k_ram k1) (a_kernel_pd L))"
      "\<forall>w. translate (k_ram k1) (p_cr3 pcb) w = (if unat (pd_index w) < 8 then translate (k_ram k) (a_kernel_pd L) w else None)"
  shows "created L proc entry priority k k'"
proof -
  obtain lo hi b where "lo \<noteq> hi" and fr: "unat lo div 4096 \<in> free_set (k_pmm k1)" "unat hi div 4096 \<in> free_set (k_pmm k1)"
    "free_set (k_pmm k') = free_set (k_pmm k1) - {unat lo div 4096, unat hi div 4096}"
    "k_ram k' = fake_stack (hi + PAGE_SIZE) (a_process_exit L) entry (k_ram k1)" "pcbs (k_sched k') proc = Some b"
    "b\<lparr>p_next := 0\<rparr> = pcb\<lparr>p_stack_frame_lo := lo, p_stack_frame_hi := hi, p_kernel_stack_top := hi + PAGE_SIZE,
         p_esp := hi + PAGE_SIZE - 40, p_next := 0\<rparr>" "unat lo div 4096 \<noteq> unat hi div 4096" "aligned 4096 hi"
    by (rule process_addedE [OF ad]) (rule that)
  have b: "p_pid b = p_pid pcb" "p_state b = p_state pcb" "p_priority b = p_priority pcb" "p_cr3 b = p_cr3 pcb"
    "p_stack_frame_lo b = lo" "p_stack_frame_hi b = hi" "p_kernel_stack_top b = hi + PAGE_SIZE" "p_esp b = hi + PAGE_SIZE - 40" "p_parent_pid b = p_parent_pid pcb"
    using arg_cong [OF fr(6), of p_pid] arg_cong [OF fr(6), of p_state] arg_cong [OF fr(6), of p_priority] arg_cong [OF fr(6), of p_cr3]
      arg_cong [OF fr(6), of p_stack_frame_lo] arg_cong [OF fr(6), of p_stack_frame_hi] arg_cong [OF fr(6), of p_kernel_stack_top]
      arg_cong [OF fr(6), of p_esp] arg_cong [OF fr(6), of p_parent_pid] by simp_all
  have pf: "unat (p_cr3 pcb) div 4096 \<in> free_set (k_pmm k)" using d(1) by (simp add: new_dir_def)
  have fs: "free_set (k_pmm k) = free_set (k_pmm k') \<union> (\<lambda>f. unat f div 4096) ` {p_cr3 b, p_stack_frame_lo b, p_stack_frame_hi b}"
    using fr(1,2,3) k1(6) pf b by auto
  have "card (free_set (k_pmm k1)) = card (free_set (k_pmm k')) + 2" unfolding fr(3)
    using fr(1,2,7) card_Diff_subset [of "{unat lo div 4096, unat hi div 4096}" "free_set (k_pmm k1)"]
      card_mono [OF finite_free_set, of "{unat lo div 4096, unat hi div 4096}" "k_pmm k1"] by simp
  moreover have "card (free_set (k_pmm k)) = card (free_set (k_pmm k1)) + 1"
    unfolding k1(6) using card_Suc_Diff1 [OF finite_free_set pf] by simp
  ultimately have cd: "card (free_set (k_pmm k)) = card (free_set (k_pmm k')) + 3" by simp
  have sub: "free_set (k_pmm k1) \<subseteq> free_set (k_pmm k)" using k1(6) by blast
  have tr: "translate (k_ram k') (p_cr3 pcb) = translate (k_ram k1) (p_cr3 pcb)" by (rule added_dir [OF ad k1(5) sub d(1-3)])
  have fst: "first_run b entry (a_process_exit L) (k_ram k')" unfolding fr(4) by (rule fake_stack_first_run) (simp_all add: b)
  have tb: "set (proc_table (k_sched k')) - {0} = insert proc (set (proc_table (k_sched k)) - {0})"
    using ad k1(2) by (simp add: process_added_def)
  have pd: "new_dir (p_cr3 pcb) (free_set (k_pmm k)) (k_pmm k') (k_ram k')"
  proof -
    have al: "aligned 4096 (p_cr3 pcb)" "p_cr3 pcb \<noteq> hi" using d(1) fr(2) by (auto simp: new_dir_def)
    then have "agree (page_bytes (p_cr3 pcb)) (k_ram k') (k_ram k1)"
      unfolding fr(4) using page_bytes_disjoint [OF al(1) fr(8)] by (intro fake_stack_agree [OF fr(8)]) auto
    then have "pde (k_ram k') (p_cr3 pcb) i = pde (k_ram k1) (p_cr3 pcb) i" if "i < 1024" for i
      unfolding pde_def using that al(1) by (intro agree_entry) (auto simp: unat_of_nat_1024)
    then show ?thesis using d(1) fr(3) by (simp add: new_dir_def)
  qed
  have hp: "k_heap k' = k_heap k" "current_process (k_sched k') = current_process (k_sched k)"
    "\<forall>q. q \<noteq> proc \<longrightarrow> map_option (p_next_update (\<lambda>_. 0)) (pcbs (k_sched k') q) = map_option (p_next_update (\<lambda>_. 0)) (pcbs (k_sched k) q)"
    using ad k1 by (simp_all add: process_added_def)
  show ?thesis unfolding created_def using lv tb fr(5) pcb fs cd tr pd hp d(4) fst b(1-4,9)
    by (intro conjI exI [of _ n] exI [of _ b]) simp_all
qed

text \<open>What is left when creation fails.\<close>

definition unchanged :: "layout \<Rightarrow> u32 list \<Rightarrow> u32 list \<Rightarrow> kernel \<Rightarrow> kernel \<Rightarrow> bool" where
  "unchanged L xs zs k k' \<longleftrightarrow> kernel_ok L xs zs k' \<and> free_set (k_pmm k') = free_set (k_pmm k) \<and>
     live (k_heap k') (k_ram k') = live (k_heap k) (k_ram k) \<and> proc_table (k_sched k') = proc_table (k_sched k)"

lemma process_create_rest:
  assumes ok: "kernel_ok L xs zs k" "fresh_pid (k_sched k)"
    and m: "kmalloc (k_heap k) sizeof_process (k_ram k) = Inr (proc, m)" "proc \<noteq> 0" and ne: "free_set (k_pmm k) \<noteq> {}"
  shows "if 3 \<le> card (free_set (k_pmm k)) \<and> 0 \<in> set (proc_table (k_sched k))
    then \<exists>k'. process_create L name entry priority k = Inr (proc, k') \<and> kernel_ok L (xs @ [proc]) zs k' \<and> created L proc entry priority k k'
    else \<exists>k'. process_create L name entry priority k = Inr (0, k') \<and> unchanged L xs zs k k'"
proof -
  obtain pd p1 m1 n parent where st: "mem_ok (a_kernel_pd L) (k_heap k) (free_set (k_pmm k)) m1" "pmm_inv p1"
    "free_set p1 = free_set (k_pmm k) - {unat pd div 4096}" "new_dir pd (free_set (k_pmm k)) p1 m1"
    "live (k_heap k) (k_ram k) proc = None" "live (k_heap k) m1 = (live (k_heap k) (k_ram k))(proc \<mapsto> n)"
    "heap_bytes (k_heap k) m1 = heap_bytes (k_heap k) (k_ram k)" "pcbs (k_sched k) proc = None"
    "wf_pd m1 pd" "pd_pages m1 pd \<subseteq> insert pd (pd_pages m1 (a_kernel_pd L))"
    "\<forall>w. translate m1 pd w = (if unat (pd_index w) < 8 then translate (k_ram k) (a_kernel_pd L) w else None)"
    "process_create L name entry priority k = create_stack L proc entry (new_pcb pd (next_pid (k_sched k)) parent priority name)
        (k\<lparr>k_pmm := p1, k_ram := m1, k_sched := (k_sched k)\<lparr>next_pid := next_pid (k_sched k) + 1\<rparr>\<rparr>)" "current_pid k = Inr parent"
    using process_create_start [OF ok(1) m ne, where name = name and entry = entry and priority = priority] by (elim exE conjE) (rule that)
  define k1 where "k1 = k\<lparr>k_pmm := p1, k_ram := m1, k_sched := (k_sched k)\<lparr>next_pid := next_pid (k_sched k) + 1\<rparr>\<rparr>"
  define pcb where "pcb = new_pcb pd (next_pid (k_sched k)) parent priority name"
  have k1: "k_heap k1 = k_heap k" "k_pmm k1 = p1" "k_ram k1 = m1" "pcbs (k_sched k1) = pcbs (k_sched k)"
    "proc_table (k_sched k1) = proc_table (k_sched k)" "current_process (k_sched k1) = current_process (k_sched k)"
    by (simp_all add: k1_def)
  have pcb: "p_cr3 pcb = pd" "p_pid pcb = next_pid (k_sched k)" "p_state pcb = PROCESS_READY" "p_priority pcb = (if priority = 0 then 1 else priority)"
    "current_pid k = Inr (p_parent_pid pcb)"
    using st(13) by (simp_all add: pcb_def new_pcb_def Let_def)
  have sub: "free_set p1 \<subseteq> free_set (k_pmm k)" using st(3) by blast
  have pf: "unat pd div 4096 \<in> free_set (k_pmm k)" using st(4) by (simp add: new_dir_def)
  have cd: "card (free_set (k_pmm k)) = card (free_set p1) + 1" unfolding st(3) using card_Suc_Diff1 [OF finite_free_set pf] by simp
  have sc: "lists_ok (k_sched k1) xs zs" "table_ok (k_sched k1)"
    using ok(1) by (auto simp: kernel_ok_def k1_def lists_ok_def run_queue_def zombies_def table_ok_def pid_of_def inj_on_def)
  have pid: "\<forall>q \<in> set (proc_table (k_sched k1)) - {0}. pid_of (k_sched k1) q \<noteq> Some (p_pid pcb)"
    using ok(2) k1 pcb by (simp add: fresh_pid_def pid_of_def)
  have lv1: "live (k_heap k) m1 proc = Some n" using st(6) by simp
  note cs = create_stack_spec [of "a_kernel_pd L" k1 "free_set (k_pmm k)" pcb proc n xs zs L entry, unfolded k1 pcb(1),
    OF st(1) sub st(2,4) lv1 m(2) st(8) sc pid [unfolded k1] pcb(3)]
  have e: "process_create L name entry priority k = create_stack L proc entry pcb k1" using st(12) by (simp add: k1_def pcb_def)
  show ?thesis
  proof (cases "3 \<le> card (free_set (k_pmm k)) \<and> 0 \<in> set (proc_table (k_sched k))")
    case True
    then obtain k' where k': "create_stack L proc entry pcb k1 = Inr (proc, k')" "process_added L proc pcb entry xs zs k1 k'"
      using cs cd by auto
    have "kernel_ok L (xs @ [proc]) zs k' \<and> live (k_heap k') (k_ram k') = (live (k_heap k) (k_ram k))(proc \<mapsto> n) \<and>
        mem_ok (a_kernel_pd L) (k_heap k) (free_set (k_pmm k)) (k_ram k')"
      using added_ok [OF ok(1) k'(2) k1(1,6,4), unfolded k1, OF st(1) sub st(6,7,8)] by simp
    moreover from this have "created L proc entry priority k k'"
      using added_created [OF k'(2) k1(1,5,6,4), unfolded k1 pcb(1), OF st(1,3,8,5) _ _ pcb(2,3,4,5) st(4,9,10,11)] by simp
    ultimately show ?thesis using True e k' by auto
  next
    case False
    have "insert (unat pd div 4096) (free_set p1) = free_set (k_pmm k)" using st(3) pf by blast
    moreover have "(live (k_heap k) m1)(proc := None) = live (k_heap k) (k_ram k)" using st(5,6) by (simp add: fun_upd_idem)
    ultimately obtain k' where k': "create_stack L proc entry pcb k1 = Inr (0, k')"
      "nothing_left (a_kernel_pd L) (free_set (k_pmm k)) xs zs (free_set (k_pmm k)) (live (k_heap k) (k_ram k)) k1 k'"
      using cs cd False by auto
    have hb: "heap_bytes (k_heap k) (k_ram k1) = heap_bytes (k_heap k) (k_ram k)" using k1(3) st(7) by simp
    have "unchanged L xs zs k k'"
      unfolding unchanged_def using nothing_left_ok [OF ok(1) k'(2) k1(1) hb k1(5,6,4)] by blast
    then show ?thesis using False e k' by auto
  qed
qed

text \<open>
  C1: \<open>process_create\<close> creates a whole process or nothing. It succeeds exactly when the heap has room
  for the control block, three frames are free and the process table has a free slot. Then the new
  process is at the end of the run queue and in the table, with a fresh id, a directory that maps the kernel part and
  nothing else, and a stack from which the first switch enters its function with interrupts on and
  \<open>process_exit\<close> as return address. Otherwise every frame and every heap object that was taken on the
  way is given back and the lists are as before. In both cases the invariant of the kernel holds.
\<close>

theorem process_create_all_or_nothing:
  assumes ok: "kernel_ok L xs zs k" "fresh_pid (k_sched k)"
    and m: "kmalloc (k_heap k) sizeof_process (k_ram k) = Inr (q, m)"
  shows "if q \<noteq> 0 \<and> 3 \<le> card (free_set (k_pmm k)) \<and> 0 \<in> set (proc_table (k_sched k))
    then \<exists>k'. process_create L name entry priority k = Inr (q, k') \<and> kernel_ok L (xs @ [q]) zs k' \<and> created L q entry priority k k'
    else \<exists>k'. process_create L name entry priority k = Inr (0, k') \<and> unchanged L xs zs k k'"
proof (cases "q = 0")
  case True
  then show ?thesis using process_create_no_object [OF ok(1), of m name entry priority] m by (auto simp: unchanged_def)
next
  case False
  show ?thesis
  proof (cases "free_set (k_pmm k) = {}")
    case True
    then show ?thesis using process_create_no_frame [OF ok(1) m False True, of name entry priority] by (auto simp: unchanged_def)
  next
    case ne: False
    show ?thesis using process_create_rest [OF ok m False ne, of name entry priority] False by simp
  qed
qed

text \<open>A small kernel state: one heap page, three free frames, three processes on the queue.\<close>

definition layout_ex :: layout where
  "layout_ex = \<lparr>a_kernel_end = 0x150000, a_stack_top = 0x140000, a_kernel_pd = 0x200000, a_identity_pts = 0x201000, a_gdt = 0x110000,
     a_tss = 0x110100, a_idt = 0x111000, a_isr = (\<lambda>n. 0x101000 + of_nat n), a_irq = (\<lambda>n. 0x102000 + of_nat n), a_idle_pcb = 0x100,
     a_process_exit = 0x103000, a_user_mode_trampoline = 0x104000, a_test_prog_blob = 0x120000, a_test_prog_blob_size = 400,
     a_synctest_msg = 0x130000, a_fstest_path = 0x130100, a_fstest_buf = 0x130200\<rparr>"

definition kernel_ex :: kernel where
  "kernel_ex = \<lparr>k_vga = blank_screen, k_ram = identity_tables 0x200000 0x201000 (heap_mem_ex 1),
     k_pmm = pmm_free_frame 0x4000 (snd (pmm_alloc_frame pmm_three)), k_heap = heap_ex,
     k_mmu = \<lparr>cr0 = 0x80000001, cr3 = 0x200000, kernel_pd_phys = 0x200000\<rparr>, k_gdt = gdt_state_ex,
     k_idt = \<lparr>idt = [], idtr = \<lparr>ip_limit = 0, ip_base = 0\<rparr>, irq_handlers = replicate 16 None, interrupts_on = True\<rparr>,
     k_kbd = keyboard_zero, k_fs = fs_empty, k_sched = sched_ex, k_cpu = cpu_ex, k_ticks = 0, k_io = []\<rparr>"

lemma kernel_ex_frames: "pmm_inv (k_pmm kernel_ex)" "free_set (k_pmm kernel_ex) = {2, 3, 4}"
proof -
  obtain s where s: "pmm_alloc_frame pmm_three = (0x1000, s)" "free_set s = {2, 3}" "pmm_inv s"
    using pmm_alloc_frame_spec [OF pmm_three_inv] by (auto simp: pmm_three_free PAGE_SIZE_def insert_Diff_if)
  then show "pmm_inv (k_pmm kernel_ex)" "free_set (k_pmm kernel_ex) = {2, 3, 4}"
    using pmm.release_frame [of s "0x4000"] by (auto simp: kernel_ex_def)
qed

lemma kernel_ex_memory:
  "mem_ok 0x200000 heap_ex {2, 3, 4} (k_ram kernel_ex)" "heap_blocks heap_ex (k_ram kernel_ex) = [Blk 0x1000 0xFF0 True]"
  "x \<in> pd_pages (k_ram kernel_ex) 0x200000 \<Longrightarrow> 0x200000 \<le> unat x"
proof -
  let ?m = "k_ram kernel_ex"
  have e: "?m = identity_tables 0x200000 0x201000 (heap_mem_ex 1)" by (simp add: kernel_ex_def)
  have hb: "heap_bytes heap_ex (heap_mem_ex 1) = {0x1000..<0x2000}" by (simp add: heap_bytes_def heap_ex_ok extent_def)
  have pt: "unat (identity_pt 0x201000 t) = 0x201000 + t * 4096" if "t < 8" for t using unat_identity_pt [OF kernel_layout_ex that] by simp
  have ag: "agree {0x1000..<0x2000} ?m (heap_mem_ex 1)" unfolding e
    using pt by (intro identity_tables_agree [OF kernel_layout_ex]) (auto simp: page_bytes_def)
  note h = heap_agree [OF heap_ex_ok(1), of 1, unfolded hb, OF ag]
  show "heap_blocks heap_ex ?m = [Blk 0x1000 0xFF0 True]" using h(2) heap_ex_ok(2) [of 1] by simp
  have z: "pde (heap_mem_ex 1) 0x200000 i = 0" if "i < 1024" for i
  proof -
    have "agree {0x200000..<0x201000} (heap_mem_ex 1) (\<lambda>_. 0)" unfolding heap_mem_ex_def
      by (rule agree_write_block) auto
    then have "pde (heap_mem_ex 1) 0x200000 i = pde (\<lambda>_. 0) 0x200000 i" unfolding pde_def
      using that by (intro agree_entry) (auto simp: aligned_def page_bytes_def unat_of_nat_1024)
    then show ?thesis by (simp add: zero_pde)
  qed
  have w: "wf_pd ?m 0x200000" "pd_tables ?m 0x200000 = identity_pt 0x201000 ` {..<8}"
    unfolding e using identity_tables_wf [OF kernel_layout_ex, of "heap_mem_ex 1"] z by auto
  show "x \<in> pd_pages ?m 0x200000 \<Longrightarrow> 0x200000 \<le> unat x" unfolding pd_pages_def w(2) using pt by auto
  show "mem_ok 0x200000 heap_ex {2, 3, 4} ?m" unfolding mem_ok_def h(4) pd_pages_def w(2) using h(1) w(1) pt
    by (auto simp: page_bytes_def)
qed

lemma sched_ex_table: "table_ok sched_ex" "fresh_pid sched_ex" "0 \<in> set (proc_table sched_ex)"
proof -
  have t: "proc_table sched_ex = [0x100, 0x200, 0x300, 0x400, 0, 0, 0, 0, 0, 0, 0, 0, 0, 0, 0, 0]" by code_simp
  have p: "pcbs sched_ex 0x100 = Some (pcb_ex 0 PROCESS_READY 0 0x200)" "pcbs sched_ex 0x200 = Some (pcb_ex 1 PROCESS_BLOCKED 2 0x300)"
    "pcbs sched_ex 0x300 = Some (pcb_ex 2 PROCESS_READY 0 0)" "pcbs sched_ex 0x400 = Some (pcb_ex 3 PROCESS_ZOMBIE 0 0)"
    "next_pid sched_ex = 5" by (simp_all add: sched_ex_def)
  show "table_ok sched_ex" unfolding table_ok_def t by (auto simp: p inj_on_def pid_of_def pcb_ex_def MAX_PROCESSES_def)
  show "fresh_pid sched_ex" unfolding fresh_pid_def t by (auto simp: p pid_of_def pcb_ex_def)
  show "0 \<in> set (proc_table sched_ex)" unfolding t by simp
qed

lemma kernel_ex_ok: "kernel_ok layout_ex [0x100, 0x200, 0x300] [0x400] kernel_ex"
proof -
  have s: "k_sched kernel_ex = sched_ex" "k_heap kernel_ex = heap_ex" "a_kernel_pd layout_ex = 0x200000"
    by (simp_all add: kernel_ex_def layout_ex_def)
  have "heap_bytes heap_ex (k_ram kernel_ex) = {0x1000..<0x2000}"
    unfolding heap_bytes_def kernel_ex_memory(2) by (simp add: extent_def)
  moreover have "unat p < 0x1000" if "pcbs sched_ex p \<noteq> None" for p
    using that by (auto simp: sched_ex_def split: if_splits)
  moreover have "pcbs sched_ex (current_process sched_ex) \<noteq> None" by (simp add: sched_ex_def)
  ultimately show ?thesis unfolding kernel_ok_def s kernel_ex_frames
    using kernel_ex_memory(1) kernel_ex_frames(1) sched_ex_ok(2) sched_ex_table(1) by fastforce
qed

lemma kernel_ex_kmalloc: "\<exists>m. kmalloc heap_ex sizeof_process (k_ram kernel_ex) = Inr (0x1010, m)"
proof -
  have "heap_inv heap_ex (k_ram kernel_ex) [Blk 0x1000 0xFF0 True]"
    using kernel_ex_memory by (simp add: mem_ok_def heap_ok_def)
  from kmalloc_refines [OF this, of sizeof_process] show ?thesis
    by (auto simp: sizeof_process_def BLOCK_HEADER_SIZE_def)
qed

theorem process_create_all_or_nothing_witness:
  "\<exists>k'. process_create layout_ex (lit ''init'') 0x105000 5 kernel_ex = Inr (0x1010, k') \<and>
     run_queue (k_sched k') [0x100, 0x200, 0x300, 0x1010]"
proof -
  obtain m where m: "kmalloc (k_heap kernel_ex) sizeof_process (k_ram kernel_ex) = Inr (0x1010, m)"
    using kernel_ex_kmalloc by (auto simp: kernel_ex_def)
  have s: "k_sched kernel_ex = sched_ex" by (simp add: kernel_ex_def)
  have "fresh_pid (k_sched kernel_ex)" "3 \<le> card (free_set (k_pmm kernel_ex))" "0 \<in> set (proc_table (k_sched kernel_ex))"
    unfolding s kernel_ex_frames using sched_ex_table by simp_all
  then obtain k' where "process_create layout_ex (lit ''init'') 0x105000 5 kernel_ex = Inr (0x1010, k')"
    "kernel_ok layout_ex ([0x100, 0x200, 0x300] @ [0x1010]) [0x400] k'"
    using process_create_all_or_nothing [OF kernel_ex_ok _ m, of "lit ''init''" "0x105000" 5] by auto
  then show ?thesis by (auto simp: kernel_ok_def lists_ok_def)
qed

end
