(* ===== verification/Syscall.thy ===== *)
theory Syscall
  imports Scheduler
begin

text \<open>
  System calls (\<open>kernel/syscall.c\<close>, \<open>kernel/syscall_wrapper.h\<close>) and the embedded user program
  (\<open>userland/test_prog.c\<close>). Pointers that come from the caller are virtual addresses: they are resolved
  through the page directory in CR3, and an unmapped one is a page fault.
\<close>

section \<open>Model\<close>

definition SYS_WRITE :: u32 where "SYS_WRITE = 0"
definition SYS_EXIT :: u32 where "SYS_EXIT = 1"
definition SYS_YIELD :: u32 where "SYS_YIELD = 2"
definition SYS_OPEN :: u32 where "SYS_OPEN = 3"
definition SYS_READ :: u32 where "SYS_READ = 4"
definition SYS_CLOSE :: u32 where "SYS_CLOSE = 5"
definition SYS_FORK :: u32 where "SYS_FORK = 6"

definition load_virt :: "kernel \<Rightarrow> u32 \<Rightarrow> u8 res" where
  "load_virt k va =
     (case translate (k_ram k) (cr3 (k_mmu k)) va of
        None \<Rightarrow> Inl (PageFault va) | Some a \<Rightarrow> Inr (k_ram k (phys_addr a)))"

definition store_virt :: "u32 \<Rightarrow> u8 \<Rightarrow> kernel \<Rightarrow> kernel res" where
  "store_virt va v k =
     (case translate (k_ram k) (cr3 (k_mmu k)) va of
        None \<Rightarrow> Inl (PageFault va) | Some a \<Rightarrow> Inr (k\<lparr>k_ram := (k_ram k)(phys_addr a := v)\<rparr>))"

fun write_loop :: "nat \<Rightarrow> u32 \<Rightarrow> kernel \<Rightarrow> kernel res" where
  "write_loop 0 buf k = Inr k"
| "write_loop (Suc n) buf k =
     bindR (load_virt k buf) (\<lambda>c. write_loop n (buf + 1) (on_vga (vga_putchar c) k))"

definition sys_write :: "u32 \<Rightarrow> u32 \<Rightarrow> u32 \<Rightarrow> kernel \<Rightarrow> (u32 \<times> kernel) res" where
  "sys_write fd buf len k =
     (if fd \<noteq> 1 \<or> buf = 0 then Inr (-1, k)
      else bindR (write_loop (unat len) buf k) (\<lambda>k. Inr (len, k)))"

definition sys_exit :: "u32 \<Rightarrow> kernel \<Rightarrow> (u32 \<times> kernel) res" where
  "sys_exit code k = bindR (process_exit code k) (\<lambda>k. Inr (0, k))"

definition sys_yield :: "kernel \<Rightarrow> (u32 \<times> kernel) res" where
  "sys_yield k = bindR (scheduler_yield k) (\<lambda>k. Inr (0, k))"

fun alloc_fd_from :: "nat \<Rightarrow> fd_entry list \<Rightarrow> nat option" where
  "alloc_fd_from fd [] = None"
| "alloc_fd_from fd (e # es) = (if \<not> fd_in_use e then Some fd else alloc_fd_from (Suc fd) es)"

definition alloc_fd :: "process \<Rightarrow> nat option" where
  "alloc_fd proc = alloc_fd_from 3 (drop 3 (p_fds proc))"

text \<open>\<open>str_eq\<close> and \<open>ramfs_lookup\<close> with the second string read from the caller's memory.\<close>

fun str_eq_user :: "(u32 \<Rightarrow> u8 res) \<Rightarrow> cstring \<Rightarrow> u32 \<Rightarrow> bool res" where
  "str_eq_user rd [] p = bindR (rd p) (\<lambda>b. Inr (b = 0))"
| "str_eq_user rd (a # as) p =
     bindR (rd p) (\<lambda>b.
       if a \<noteq> 0 \<and> b \<noteq> 0 then (if a \<noteq> b then Inr False else str_eq_user rd as (p + 1)) else Inr (a = b))"

fun lookup_user_from :: "(u32 \<Rightarrow> u8 res) \<Rightarrow> u32 \<Rightarrow> nat \<Rightarrow> ramfs \<Rightarrow> int res" where
  "lookup_user_from rd path i [] = Inr (-1)"
| "lookup_user_from rd path i (f # fs) =
     (if f_in_use f then
        bindR (str_eq_user rd (f_name f) path) (\<lambda>eq. if eq then Inr (int i) else lookup_user_from rd path (Suc i) fs)
      else lookup_user_from rd path (Suc i) fs)"

definition sys_open :: "u32 \<Rightarrow> kernel \<Rightarrow> (u32 \<times> kernel) res" where
  "sys_open path k =
     (if path = 0 then Inr (-1, k)
      else
        bindR (lookup_user_from (load_virt k) path 0 (k_fs k)) (\<lambda>file_idx.
        if file_idx < 0 then Inr (-1, k)
        else
          (let proc = process_current (k_sched k) in
           bindR (pcb_of proc k) (\<lambda>pcb.
           case alloc_fd pcb of
             None \<Rightarrow> Inr (-1, k)
           | Some fd \<Rightarrow>
               bindR (pcb_update proc (\<lambda>p. p\<lparr>p_fds := (p_fds p)[fd :=
                   \<lparr>fd_in_use = True, fd_file_idx = file_idx, fd_offset = 0\<rparr>]\<rparr>) k) (\<lambda>k.
               Inr (of_nat fd, k))))))"

fun read_loop :: "nat \<Rightarrow> u32 \<Rightarrow> u32 \<Rightarrow> kernel \<Rightarrow> kernel res" where
  "read_loop 0 buf src k = Inr k"
| "read_loop (Suc n) buf src k =
     bindR (store_virt buf (k_ram k src) k) (\<lambda>k. read_loop n (buf + 1) (src + 1) k)"

definition bad_fd :: "u32 \<Rightarrow> bool" where
  "bad_fd fd \<longleftrightarrow> sint fd < 3 \<or> sint fd \<ge> int MAX_FDS_PER_PROCESS"

definition sys_read :: "u32 \<Rightarrow> u32 \<Rightarrow> u32 \<Rightarrow> kernel \<Rightarrow> (u32 \<times> kernel) res" where
  "sys_read fd buf len k =
     (if buf = 0 then Inr (-1, k)
      else if bad_fd fd then Inr (-1, k)
      else
        (let proc = process_current (k_sched k) in
         bindR (pcb_of proc k) (\<lambda>pcb.
         let entry = p_fds pcb ! unat fd in
         if \<not> fd_in_use entry then Inr (-1, k)
         else
           (case ramfs_get (fd_file_idx entry) (k_fs k) of
              None \<Rightarrow> Inr (-1, k)
            | Some file \<Rightarrow>
                (let remaining = f_size file - fd_offset entry;
                     to_copy = (if len < remaining then len else remaining)
                 in bindR (read_loop (unat to_copy) buf (f_data file + fd_offset entry) k) (\<lambda>k.
                    bindR (pcb_update proc (\<lambda>p. p\<lparr>p_fds := (p_fds p)[unat fd :=
                        (p_fds p ! unat fd)\<lparr>fd_offset := fd_offset entry + to_copy\<rparr>]\<rparr>) k) (\<lambda>k.
                    Inr (to_copy, k)))))))) "

definition sys_close :: "u32 \<Rightarrow> kernel \<Rightarrow> (u32 \<times> kernel) res" where
  "sys_close fd k =
     (if bad_fd fd then Inr (-1, k)
      else
        (let proc = process_current (k_sched k) in
         bindR (pcb_of proc k) (\<lambda>pcb.
         if \<not> fd_in_use (p_fds pcb ! unat fd) then Inr (-1, k)
         else
           bindR (pcb_update proc (\<lambda>p. p\<lparr>p_fds := (p_fds p)[unat fd :=
               \<lparr>fd_in_use = False, fd_file_idx = -1, fd_offset = 0\<rparr>]\<rparr>) k) (\<lambda>k. Inr (0, k)))))"

definition syscall_handler :: "registers \<Rightarrow> kernel \<Rightarrow> (u32 \<times> kernel) res" where
  "syscall_handler r k =
     (if reg_eax r = SYS_WRITE then sys_write (reg_ebx r) (reg_ecx r) (reg_edx r) k
      else if reg_eax r = SYS_EXIT then sys_exit (reg_ebx r) k
      else if reg_eax r = SYS_YIELD then sys_yield k
      else if reg_eax r = SYS_OPEN then sys_open (reg_ebx r) k
      else if reg_eax r = SYS_READ then sys_read (reg_ebx r) (reg_ecx r) (reg_edx r) k
      else if reg_eax r = SYS_CLOSE then sys_close (reg_ebx r) k
      else
        (let k = on_vga (vga_set_color VGA_COLOR_LIGHT_RED) k;
             k = on_vga (kprint (lit ''[syscall] unknown number: '')) k;
             k = on_vga (kprint_int (reg_eax r)) k;
             k = on_vga (kprint (lit ''\<newline>'')) k;
             k = on_vga (vga_set_color VGA_COLOR_LIGHT_GREY) k
         in Inr (-1, k)))"

subsection \<open>Wrappers\<close>

text \<open>
  The trap itself, from \<open>int 0x80\<close> to \<open>iret\<close>, hands the four registers to the handler and its result to
  the caller; the theory \<open>Cpu\<close> has the stub.
\<close>

definition syscall_regs :: "u32 \<Rightarrow> u32 \<Rightarrow> u32 \<Rightarrow> u32 \<Rightarrow> registers" where
  "syscall_regs num a b c = \<lparr>reg_ds = 0, reg_edi = 0, reg_esi = 0, reg_ebp = 0, reg_esp = 0, reg_ebx = a,
     reg_edx = c, reg_ecx = b, reg_eax = num, reg_int_no = 128, reg_err_code = 0, reg_eip = 0, reg_cs = 0,
     reg_eflags = 0\<rparr>"

definition syscall3 :: "u32 \<Rightarrow> u32 \<Rightarrow> u32 \<Rightarrow> u32 \<Rightarrow> kernel \<Rightarrow> (u32 \<times> kernel) res" where
  "syscall3 num a b c k = syscall_handler (syscall_regs num a b c) k"

definition do_sys_write :: "u32 \<Rightarrow> u32 \<Rightarrow> u32 \<Rightarrow> kernel \<Rightarrow> (u32 \<times> kernel) res" where
  "do_sys_write fd buf len = syscall3 SYS_WRITE fd buf len"
definition do_sys_exit :: "u32 \<Rightarrow> kernel \<Rightarrow> (u32 \<times> kernel) res" where
  "do_sys_exit code = syscall3 SYS_EXIT code 0 0"
definition do_sys_yield :: "kernel \<Rightarrow> (u32 \<times> kernel) res" where
  "do_sys_yield = syscall3 SYS_YIELD 0 0 0"
definition do_sys_open :: "u32 \<Rightarrow> kernel \<Rightarrow> (u32 \<times> kernel) res" where
  "do_sys_open path = syscall3 SYS_OPEN path 0 0"
definition do_sys_read :: "u32 \<Rightarrow> u32 \<Rightarrow> u32 \<Rightarrow> kernel \<Rightarrow> (u32 \<times> kernel) res" where
  "do_sys_read fd buf len = syscall3 SYS_READ fd buf len"
definition do_sys_close :: "u32 \<Rightarrow> kernel \<Rightarrow> (u32 \<times> kernel) res" where
  "do_sys_close fd = syscall3 SYS_CLOSE fd 0 0"

subsection \<open>The embedded user program\<close>

text \<open>
  \<open>_start\<close> of \<open>userland/test_prog.c\<close>. The addresses of its strings and of its buffer are parameters,
  the lengths are those of the literals. The result is the state after \<open>SYS_EXIT\<close>.
\<close>

record test_prog_data =
  tp_msg :: u32
  tp_path :: u32
  tp_buf :: u32
  tp_ok :: u32
  tp_bad :: u32
  tp_fail :: u32

definition write_literal :: "u32 \<Rightarrow> string \<Rightarrow> kernel \<Rightarrow> kernel res" where
  "write_literal addr text k = bindR (syscall3 0 1 addr (of_nat (length text)) k) (\<lambda>(r, k). Inr k)"

definition check_magic :: "test_prog_data \<Rightarrow> u32 \<Rightarrow> kernel \<Rightarrow> bool res" where
  "check_magic d n k =
     (if n \<noteq> 4 then Inr False
      else bindR (load_virt k (tp_buf d)) (\<lambda>b0.
        if b0 \<noteq> 0x7F then Inr False
        else bindR (load_virt k (tp_buf d + 1)) (\<lambda>b1.
        if b1 \<noteq> of_char CHR ''E'' then Inr False
        else bindR (load_virt k (tp_buf d + 2)) (\<lambda>b2.
        if b2 \<noteq> of_char CHR ''L'' then Inr False
        else bindR (load_virt k (tp_buf d + 3)) (\<lambda>b3. Inr (b3 = of_char CHR ''F''))))))"

definition test_prog :: "test_prog_data \<Rightarrow> kernel \<Rightarrow> kernel res" where
  "test_prog d k =
     bindR (write_literal (tp_msg d) ''hello from a real loaded ELF binary\<newline>'' k) (\<lambda>k.
     bindR (syscall3 3 (tp_path d) 0 0 k) (\<lambda>(fd, k).
     bindR
       (if sint fd \<ge> 0 then
          bindR (syscall3 4 fd (tp_buf d) 4 k) (\<lambda>(n, k).
          bindR (check_magic d n k) (\<lambda>ok.
          bindR (if ok then write_literal (tp_ok d) ''ring-3 file read: ELF magic OK\<newline>'' k
                 else write_literal (tp_bad d) ''ring-3 file read: MISMATCH\<newline>'' k) (\<lambda>k.
          bindR (syscall3 5 fd 0 0 k) (\<lambda>(r, k). Inr k))))
        else write_literal (tp_fail d) ''ring-3 file open: FAILED\<newline>'' k) (\<lambda>k.
     bindR (syscall3 1 0 0 0 k) (\<lambda>(r, k). Inr k))))"

section \<open>Memory of the caller\<close>

text \<open>
  \<open>buffer_at k va ps\<close>: the bytes from the virtual address \<open>va\<close> on are mapped, to the distinct physical
  addresses \<open>ps\<close>, which hold no page table of the current address space.
\<close>

definition buffer_at :: "kernel \<Rightarrow> u32 \<Rightarrow> u32 list \<Rightarrow> bool" where
  "buffer_at k va ps \<longleftrightarrow> distinct ps \<and> (\<forall>a \<in> set ps. unat a \<notin> table_bytes (k_ram k) (cr3 (k_mmu k))) \<and>
     (\<forall>i < length ps. map_option phys_addr (translate (k_ram k) (cr3 (k_mmu k)) (va + of_nat i)) = Some (ps ! i))"

lemma buffer_load: "buffer_at k va ps \<Longrightarrow> i < length ps \<Longrightarrow> load_virt k (va + of_nat i) = Inr (k_ram k (ps ! i))"
  by (auto simp: buffer_at_def load_virt_def split: option.splits)

lemma buffer_tail: "buffer_at k va (p # ps) \<Longrightarrow> buffer_at k (va + 1) ps"
  unfolding buffer_at_def by (force simp: add.assoc)

lemma buffer_take: "buffer_at k va ps \<Longrightarrow> buffer_at k va (take n ps)"
  by (auto simp: buffer_at_def dest: in_set_takeD)

text \<open>Writes outside the page tables keep every translation.\<close>

lemma buffer_write:
  assumes pd: "aligned 4096 (cr3 (k_mmu k))" and m: "\<And>a. unat a \<in> table_bytes (k_ram k) (cr3 (k_mmu k)) \<Longrightarrow> m a = k_ram k a"
  shows "translate m (cr3 (k_mmu k)) = translate (k_ram k) (cr3 (k_mmu k))" "pd_pages m (cr3 (k_mmu k)) = pd_pages (k_ram k) (cr3 (k_mmu k))"
proof -
  have "agree (\<Union> (page_bytes ` pd_pages (k_ram k) (cr3 (k_mmu k)))) m (k_ram k)"
    using m by (auto simp: agree_def table_bytes_def)
  from pd_agree [OF this pd]
  show "translate m (cr3 (k_mmu k)) = translate (k_ram k) (cr3 (k_mmu k))" "pd_pages m (cr3 (k_mmu k)) = pd_pages (k_ram k) (cr3 (k_mmu k))"
    by (simp_all add: pd_pages_def)
qed

lemma buffer_ram:
  assumes "aligned 4096 (cr3 (k_mmu k))" "\<And>a. unat a \<in> table_bytes (k_ram k) (cr3 (k_mmu k)) \<Longrightarrow> m a = k_ram k a"
  shows "buffer_at (k\<lparr>k_ram := m\<rparr>) va ps = buffer_at k va ps"
  using buffer_write [OF assms] by (simp_all add: buffer_at_def table_bytes_def)

lemma read_loop_spec:
  assumes "aligned 4096 (cr3 (k_mmu k))" "buffer_at k buf ps" "\<forall>i < length ps. src + of_nat i \<notin> set ps"
  shows "\<exists>m. read_loop (length ps) buf src k = Inr (k\<lparr>k_ram := m\<rparr>) \<and> (\<forall>i < length ps. m (ps ! i) = k_ram k (src + of_nat i)) \<and>
    (\<forall>a. a \<notin> set ps \<longrightarrow> m a = k_ram k a)"
  using assms
proof (induction ps arbitrary: buf src k)
  case Nil
  then show ?case by (intro exI [of _ "k_ram k"]) simp
next
  case (Cons p ps)
  let ?k = "k\<lparr>k_ram := (k_ram k)(p := k_ram k src)\<rparr>"
  have p: "p \<notin> set ps" "unat p \<notin> table_bytes (k_ram k) (cr3 (k_mmu k))" using Cons.prems(2) by (auto simp: buffer_at_def)
  have tr: "map_option phys_addr (translate (k_ram k) (cr3 (k_mmu k)) buf) = Some p"
    using Cons.prems(2) by (force simp: buffer_at_def)
  then have st: "store_virt buf (k_ram k src) k = Inr ?k" by (auto simp: store_virt_def)
  have "buffer_at ?k (buf + 1) ps"
    using buffer_tail [OF Cons.prems(2)] p(2) Cons.prems(1) by (subst buffer_ram) auto
  moreover have sr: "src + 1 + of_nat i \<notin> set (p # ps)" if "i < length ps" for i
    using Cons.prems(3) [rule_format, of "Suc i"] that by (simp add: add.assoc)
  ultimately obtain m where m: "read_loop (length ps) (buf + 1) (src + 1) ?k = Inr (?k\<lparr>k_ram := m\<rparr>)"
    "\<forall>i < length ps. m (ps ! i) = k_ram ?k (src + 1 + of_nat i)" "\<forall>a. a \<notin> set ps \<longrightarrow> m a = k_ram ?k a"
    using Cons.IH [of ?k "buf + 1" "src + 1"] Cons.prems(1) by auto
  have "m ((p # ps) ! i) = k_ram k (src + of_nat i)" if "i < length (p # ps)" for i
  proof (cases i)
    case 0
    then show ?thesis using m(3) p by simp
  next
    case (Suc j)
    then show ?thesis using m(2) that sr [of j] by (auto simp: add.assoc)
  qed
  then show ?case using m st by (intro exI [of _ m]) auto
qed

section \<open>Reading a file\<close>

text \<open>The bytes of a file, and those of a buffer.\<close>

definition contents :: "mem \<Rightarrow> ramfs_file \<Rightarrow> u8 list" where
  "contents m f = map (\<lambda>i. m (f_data f + of_nat i)) [0..<unat (f_size f)]"

fun fetch :: "kernel \<Rightarrow> u32 \<Rightarrow> nat \<Rightarrow> u8 list res" where
  "fetch k va 0 = Inr []"
| "fetch k va (Suc n) = bindR (load_virt k va) (\<lambda>b. bindR (fetch k (va + 1) n) (\<lambda>bs. Inr (b # bs)))"

lemma fetch_buffer: "buffer_at k va ps \<Longrightarrow> fetch k va (length ps) = Inr (map (k_ram k) ps)"
proof (induction ps arbitrary: va)
  case (Cons p ps)
  then show ?case using buffer_load [OF Cons.prems, of 0] Cons.IH [OF buffer_tail [OF Cons.prems]] by simp
qed simp

text \<open>A descriptor of the current process, and the kernel in which it is changed.\<close>

definition fd_is :: "kernel \<Rightarrow> u32 \<Rightarrow> fd_entry \<Rightarrow> bool" where
  "fd_is k fd e \<longleftrightarrow> \<not> bad_fd fd \<and> (\<exists>pcb. pcbs (k_sched k) (current_process (k_sched k)) = Some pcb \<and>
     length (p_fds pcb) = MAX_FDS_PER_PROCESS \<and> p_fds pcb ! unat fd = e)"

definition set_fd :: "u32 \<Rightarrow> fd_entry \<Rightarrow> kernel \<Rightarrow> kernel" where
  "set_fd fd e k = k\<lparr>k_sched := (k_sched k)\<lparr>pcbs := (pcbs (k_sched k))(current_process (k_sched k) :=
     map_option (\<lambda>p. p\<lparr>p_fds := (p_fds p)[unat fd := e]\<rparr>) (pcbs (k_sched k) (current_process (k_sched k))))\<rparr>\<rparr>"

lemma set_fd_simps [simp]:
  "k_ram (set_fd fd e k) = k_ram k" "k_mmu (set_fd fd e k) = k_mmu k" "k_fs (set_fd fd e k) = k_fs k"
  "buffer_at (set_fd fd e k) va ps = buffer_at k va ps"
  "load_virt (set_fd fd e k) va = load_virt k va"
  by (simp_all add: set_fd_def table_bytes_def buffer_at_def load_virt_def split: option.splits)

lemma set_fd_twice: "set_fd fd e (k\<lparr>k_ram := m\<rparr>) = (set_fd fd e k)\<lparr>k_ram := m\<rparr>"
  "set_fd fd e (set_fd fd e' k) = set_fd fd e k"
  by (simp_all add: set_fd_def option.map_comp comp_def)

lemma small_word:
  fixes x :: u32
  assumes "sint x = int j \<or> unat x = j" "j < 8"
  shows "x = of_nat j"
  using assms(1)
proof
  assume "sint x = int j"
  moreover have "of_int (sint x) = x" by simp
  ultimately show ?thesis by simp
qed auto

lemma bad_fd_iff: "\<not> bad_fd fd \<longleftrightarrow> 3 \<le> unat fd \<and> unat fd < 8"
proof
  assume a: "\<not> bad_fd fd"
  define j where "j = nat (sint fd)"
  have j: "sint fd = int j" "3 \<le> j" "j < 8" using a by (auto simp: bad_fd_def MAX_FDS_PER_PROCESS_def j_def)
  have "fd = of_nat j" using j by (intro small_word) auto
  then show "3 \<le> unat fd \<and> unat fd < 8" using j by (simp add: unat_of_nat_u32)
next
  assume a: "3 \<le> unat fd \<and> unat fd < 8"
  then consider "unat fd = 3" | "unat fd = 4" | "unat fd = 5" | "unat fd = 6" | "unat fd = 7" by linarith
  then have "fd = 3 \<or> fd = 4 \<or> fd = 5 \<or> fd = 6 \<or> fd = 7"
    by cases (use small_word [of fd 3] small_word [of fd 4] small_word [of fd 5] small_word [of fd 6] small_word [of fd 7] in auto)
  then show "\<not> bad_fd fd" by (auto simp: bad_fd_def MAX_FDS_PER_PROCESS_def)
qed

lemma fd_is_set: "fd_is k fd e' \<Longrightarrow> fd_is (set_fd fd e k) fd e"
  by (auto simp: fd_is_def set_fd_def MAX_FDS_PER_PROCESS_def bad_fd_iff)

lemma set_fd_same: "fd_is k fd e \<Longrightarrow> set_fd fd e k = k"
proof -
  assume "fd_is k fd e"
  then obtain pcb where p: "pcbs (k_sched k) (current_process (k_sched k)) = Some pcb" "p_fds pcb ! unat fd = e"
    by (auto simp: fd_is_def)
  have "(p_fds pcb)[unat fd := e] = p_fds pcb" unfolding p(2) [symmetric] by (rule list_update_id)
  then have "map_option (\<lambda>p. p\<lparr>p_fds := (p_fds p)[unat fd := e]\<rparr>) (pcbs (k_sched k) (current_process (k_sched k))) =
    pcbs (k_sched k) (current_process (k_sched k))" using p(1) by simp
  then show ?thesis unfolding set_fd_def by simp
qed

lemma fd_is_ram [simp]: "fd_is (k\<lparr>k_ram := m\<rparr>) fd e = fd_is k fd e"
  by (simp add: fd_is_def)

lemma fd_pcb:
  assumes "fd_is k fd e"
  obtains pcb where "pcb_of (current_process (k_sched k)) k = Inr pcb" "p_fds pcb ! unat fd = e" "\<not> bad_fd fd"
    "\<And>m g. g pcb = pcb\<lparr>p_fds := (p_fds pcb)[unat fd := e']\<rparr> \<Longrightarrow>
      pcb_update (current_process (k_sched k)) g (k\<lparr>k_ram := m\<rparr>) = Inr (set_fd fd e' (k\<lparr>k_ram := m\<rparr>))"
proof -
  obtain pcb where p: "pcbs (k_sched k) (current_process (k_sched k)) = Some pcb" "p_fds pcb ! unat fd = e" "\<not> bad_fd fd"
    using assms by (auto simp: fd_is_def)
  show thesis
  proof (rule that [of pcb])
    fix m g assume "g pcb = pcb\<lparr>p_fds := (p_fds pcb)[unat fd := e']\<rparr>"
    then show "pcb_update (current_process (k_sched k)) g (k\<lparr>k_ram := m\<rparr>) = Inr (set_fd fd e' (k\<lparr>k_ram := m\<rparr>))"
      using p by (simp add: pcb_update_def lift_sched_def update_eq set_fd_def)
  qed (use p in \<open>simp_all add: pcb_of_def deref_eq\<close>)
qed

text \<open>One read: as many bytes as are asked for and left, from the offset on, to the start of the buffer.\<close>

lemma sys_read_spec:
  assumes fd: "fd_is k fd \<lparr>fd_in_use = True, fd_file_idx = i, fd_offset = of_nat off\<rparr>"
    and f: "ramfs_get i (k_fs k) = Some f" "off \<le> unat (f_size f)" and pd: "aligned 4096 (cr3 (k_mmu k))"
    and ap: "\<forall>i < unat (f_size f). f_data f + of_nat i \<notin> set ps" and bf: "buffer_at k buf ps" "buf \<noteq> 0"
    and len: "unat len \<le> length ps"
  defines "n \<equiv> min (unat len) (unat (f_size f) - off)"
  shows "\<exists>m. sys_read fd buf len k = Inr (of_nat n, set_fd fd \<lparr>fd_in_use = True, fd_file_idx = i, fd_offset = of_nat (off + n)\<rparr> (k\<lparr>k_ram := m\<rparr>)) \<and>
    map m (take n ps) = take n (drop off (contents (k_ram k) f)) \<and> (\<forall>a. a \<notin> set ps \<longrightarrow> m a = k_ram k a)"
proof -
  let ?o = "of_nat off :: u32"
  obtain pcb where pcb: "pcb_of (current_process (k_sched k)) k = Inr pcb" "\<not> bad_fd fd"
    "p_fds pcb ! unat fd = \<lparr>fd_in_use = True, fd_file_idx = i, fd_offset = ?o\<rparr>"
    and upd: "\<And>m g. g pcb = pcb\<lparr>p_fds := (p_fds pcb)[unat fd := \<lparr>fd_in_use = True, fd_file_idx = i, fd_offset = of_nat (off + n)\<rparr>]\<rparr> \<Longrightarrow>
      pcb_update (current_process (k_sched k)) g (k\<lparr>k_ram := m\<rparr>) = Inr (set_fd fd \<lparr>fd_in_use = True, fd_file_idx = i, fd_offset = of_nat (off + n)\<rparr> (k\<lparr>k_ram := m\<rparr>))"
    by (rule fd_pcb [OF fd]) blast
  have o: "unat ?o = off" using f(2) unat_u32_less [of "f_size f"] by (simp add: unat_of_nat_u32)
  have rem: "unat (f_size f - ?o) = unat (f_size f) - off" using f(2) o by (simp add: unat_sub_nowrap)
  have tc: "(if len < f_size f - ?o then len else f_size f - ?o) = of_nat n"
  proof (cases "len < f_size f - ?o")
    case True
    then show ?thesis using rem by (simp add: n_def word_less_nat_alt min_def)
  next
    case False
    then have "n = unat (f_size f - ?o)" using rem by (simp add: n_def word_less_nat_alt min_def)
    then show ?thesis using False by simp
  qed
  have nn: "unat (of_nat n :: u32) = n" "n \<le> length ps" "off + n \<le> unat (f_size f)"
    using len f(2) unat_u32_less [of len] by (auto simp: n_def unat_of_nat_u32)
  have tk: "length (take n ps) = n" using nn(2) by simp
  have src: "\<forall>i < length (take n ps). f_data f + ?o + of_nat i \<notin> set (take n ps)"
  proof (intro allI impI)
    fix i assume "i < length (take n ps)"
    then have "off + i < unat (f_size f)" using nn(3) tk by simp
    then have "f_data f + of_nat (off + i) \<notin> set ps" using ap by blast
    then show "f_data f + ?o + of_nat i \<notin> set (take n ps)" by (auto simp: add.assoc dest: in_set_takeD)
  qed
  obtain m where m: "read_loop n buf (f_data f + ?o) k = Inr (k\<lparr>k_ram := m\<rparr>)"
    "\<forall>i < n. m (take n ps ! i) = k_ram k (f_data f + ?o + of_nat i)" "\<forall>a. a \<notin> set (take n ps) \<longrightarrow> m a = k_ram k a"
    using read_loop_spec [OF pd buffer_take [OF bf(1)] src] tk by auto
  have "pcb_update (current_process (k_sched k)) (\<lambda>p. p\<lparr>p_fds := (p_fds p)[unat fd := (p_fds p ! unat fd)\<lparr>fd_offset := ?o + of_nat n\<rparr>]\<rparr>) (k\<lparr>k_ram := m\<rparr>) =
    Inr (set_fd fd \<lparr>fd_in_use = True, fd_file_idx = i, fd_offset = of_nat (off + n)\<rparr> (k\<lparr>k_ram := m\<rparr>))"
    by (rule upd) (simp add: pcb(3))
  then have r: "sys_read fd buf len k = Inr (of_nat n, set_fd fd \<lparr>fd_in_use = True, fd_file_idx = i, fd_offset = of_nat (off + n)\<rparr> (k\<lparr>k_ram := m\<rparr>))"
    using pcb bf(2) f(1) tc nn(1) m(1) by (simp add: sys_read_def process_current_def Let_def)
  have "map m (take n ps) = take n (drop off (contents (k_ram k) f))"
  proof (rule nth_equalityI)
    show "length (map m (take n ps)) = length (take n (drop off (contents (k_ram k) f)))" using nn by (simp add: contents_def)
    fix i assume "i < length (map m (take n ps))"
    then show "map m (take n ps) ! i = take n (drop off (contents (k_ram k) f)) ! i"
      using m(2) nn by (simp add: contents_def add.assoc)
  qed
  moreover have "\<forall>a. a \<notin> set ps \<longrightarrow> m a = k_ram k a" using m(3) by (auto dest: in_set_takeD)
  ultimately show ?thesis using r by blast
qed

text \<open>A sequence of reads to the same buffer, and the bytes found there after each of them.\<close>

fun read_all :: "u32 \<Rightarrow> u32 \<Rightarrow> u32 list \<Rightarrow> kernel \<Rightarrow> (u8 list \<times> kernel) res" where
  "read_all fd buf [] k = Inr ([], k)"
| "read_all fd buf (len # lens) k =
     bindR (syscall3 SYS_READ fd buf len k) (\<lambda>(n, k).
     bindR (fetch k buf (unat n)) (\<lambda>bs.
     bindR (read_all fd buf lens k) (\<lambda>(rest, k). Inr (bs @ rest, k))))"

lemma syscall3_simps:
  "syscall3 SYS_WRITE a b c = sys_write a b c" "syscall3 SYS_OPEN a b c = sys_open a" "syscall3 SYS_READ a b c = sys_read a b c"
  "syscall3 SYS_CLOSE a b c = sys_close a"
  by (simp_all add: fun_eq_iff syscall3_def syscall_handler_def syscall_regs_def SYS_WRITE_def SYS_EXIT_def SYS_YIELD_def
      SYS_OPEN_def SYS_READ_def SYS_CLOSE_def)

lemma contents_cong: "(\<And>i. i < unat (f_size f) \<Longrightarrow> m (f_data f + of_nat i) = m' (f_data f + of_nat i)) \<Longrightarrow> contents m f = contents m' f"
  by (simp add: contents_def)

lemma read_all_spec:
  assumes "fd_is k fd \<lparr>fd_in_use = True, fd_file_idx = i, fd_offset = of_nat off\<rparr>"
    "ramfs_get i (k_fs k) = Some f" "off \<le> unat (f_size f)" "aligned 4096 (cr3 (k_mmu k))"
    "\<forall>i < unat (f_size f). f_data f + of_nat i \<notin> set ps" "buffer_at k buf ps" "buf \<noteq> 0" "\<forall>len \<in> set lens. unat len \<le> length ps"
  shows "\<exists>m off'. read_all fd buf lens k = Inr (take (sum_list (map unat lens)) (drop off (contents (k_ram k) f)),
      set_fd fd \<lparr>fd_in_use = True, fd_file_idx = i, fd_offset = of_nat off'\<rparr> (k\<lparr>k_ram := m\<rparr>)) \<and>
    (\<forall>a. a \<notin> set ps \<longrightarrow> m a = k_ram k a)"
  using assms
proof (induction lens arbitrary: k off)
  case Nil
  have "set_fd fd \<lparr>fd_in_use = True, fd_file_idx = i, fd_offset = of_nat off\<rparr> (k\<lparr>k_ram := k_ram k\<rparr>) = k"
    using set_fd_same [OF Nil(1)] by simp
  then show ?case by (intro exI [of _ "k_ram k"] exI [of _ off]) simp
next
  case (Cons len lens)
  define n where "n = min (unat len) (unat (f_size f) - off)"
  let ?e = "\<lambda>off. \<lparr>fd_in_use = True, fd_file_idx = i, fd_offset = of_nat off\<rparr>"
  have len: "unat len \<le> length ps" using Cons.prems(8) by simp
  obtain m where m: "sys_read fd buf len k = Inr (of_nat n, set_fd fd (?e (off + n)) (k\<lparr>k_ram := m\<rparr>))"
    "map m (take n ps) = take n (drop off (contents (k_ram k) f))" "\<forall>a. a \<notin> set ps \<longrightarrow> m a = k_ram k a"
    using sys_read_spec [OF Cons.prems(1-7) len] by (auto simp: n_def)
  let ?k = "set_fd fd (?e (off + n)) (k\<lparr>k_ram := m\<rparr>)"
  have nn: "unat (of_nat n :: u32) = n" "n \<le> length ps" "off + n \<le> unat (f_size f)"
    using len Cons.prems(3) unat_u32_less [of len] by (auto simp: n_def unat_of_nat_u32)
  have bf: "buffer_at (k\<lparr>k_ram := m\<rparr>) buf ps"
    using buffer_ram [of k m buf ps] Cons.prems(4,6) m(3) by (auto simp: buffer_at_def)
  then have "buffer_at ?k buf (take n ps)" using buffer_take by simp
  from fetch_buffer [OF this] have ft: "fetch ?k buf n = Inr (take n (drop off (contents (k_ram k) f)))" using m(2) nn(2) by simp
  have "fd_is ?k fd (?e (off + n))" using Cons.prems(1) by (intro fd_is_set [of _ _ "?e off"]) simp
  then obtain m2 off2 where r: "read_all fd buf lens ?k = Inr (take (sum_list (map unat lens)) (drop (off + n) (contents m f)),
      set_fd fd (?e off2) (?k\<lparr>k_ram := m2\<rparr>))" "\<forall>a. a \<notin> set ps \<longrightarrow> m2 a = m a"
    using Cons.IH [of ?k "off + n"] Cons.prems nn(3) bf by auto
  have c: "contents m f = contents (k_ram k) f" using m(3) Cons.prems(5) by (intro contents_cong) blast
  have "take n (drop off xs) @ take l (drop (off + n) xs) = take (unat len + l) (drop off xs)" if "length xs = unat (f_size f)" for l and xs :: "u8 list"
  proof (cases "unat len \<le> unat (f_size f) - off")
    case True
    then have "n = unat len" by (simp add: n_def)
    then show ?thesis using take_add [of "unat len" l "drop off xs"] by (simp add: add.commute [of "unat len" off])
  next
    case False
    then show ?thesis using that by (simp add: n_def)
  qed
  from this [of "contents (k_ram k) f" "sum_list (map unat lens)"] have "take n (drop off (contents (k_ram k) f)) @ take (sum_list (map unat lens)) (drop (off + n) (contents m f)) =
    take (sum_list (map unat (len # lens))) (drop off (contents (k_ram k) f))" unfolding c by (simp add: contents_def)
  moreover have "set_fd fd (?e off2) (?k\<lparr>k_ram := m2\<rparr>) = set_fd fd (?e off2) (k\<lparr>k_ram := m2\<rparr>)"
    by (simp add: set_fd_twice)
  ultimately have "read_all fd buf (len # lens) k = Inr (take (sum_list (map unat (len # lens))) (drop off (contents (k_ram k) f)),
      set_fd fd (?e off2) (k\<lparr>k_ram := m2\<rparr>))"
    using m(1) ft r(1) nn(1) by (simp add: syscall3_simps)
  then show ?case using r(2) m(3) by (intro exI [of _ m2] exI [of _ off2]) auto
qed

section \<open>Opening and closing\<close>

text \<open>A NUL-terminated string in the memory of the caller.\<close>

definition string_at :: "kernel \<Rightarrow> u32 \<Rightarrow> cstring \<Rightarrow> bool" where
  "string_at k p s \<longleftrightarrow> 0 \<notin> set s \<and> (\<forall>i \<le> length s. load_virt k (p + of_nat i) = Inr (char_at s i))"

lemma str_eq_user_eq:
  "0 \<notin> set s \<Longrightarrow> \<forall>i \<le> length s. rd (p + of_nat i) = Inr (char_at s i) \<Longrightarrow> str_eq_user rd a p = Inr (str_eq a s)"
proof (induction a arbitrary: p s)
  case Nil
  then show ?case using Nil(2) [rule_format, of 0] by (cases s) (auto simp: char_at_def)
next
  case (Cons x a)
  show ?case
  proof (cases s)
    case Nil
    then show ?thesis using Cons.prems(2) [rule_format, of 0] by (simp add: char_at_def)
  next
    case (Cons y t)
    have "rd (p + 1 + of_nat i) = Inr (char_at t i)" if "i \<le> length t" for i
      using Cons.prems(2) [rule_format, of "Suc i"] that Cons by (simp add: char_at_def add.assoc)
    then have "str_eq_user rd a (p + 1) = Inr (str_eq a t)" using Cons.IH [of t "p + 1"] Cons.prems(1) Cons by auto
    then show ?thesis using Cons.prems(2) [rule_format, of 0] Cons.prems(1) Cons by (simp add: char_at_def)
  qed
qed

lemma lookup_user_eq:
  assumes "string_at k p s"
  shows "lookup_user_from (load_virt k) p 0 fs = Inr (ramfs_lookup s fs)"
proof -
  have e: "str_eq_user (load_virt k) a p = Inr (str_eq a s)" for a
    using str_eq_user_eq [of s "load_virt k" p a] assms by (simp add: string_at_def)
  have "lookup_user_from (load_virt k) p i fs =
    Inr (case find_from (\<lambda>f. f_in_use f \<and> str_eq (f_name f) s) i fs of Some j \<Rightarrow> int j | None \<Rightarrow> -1)" for i
    by (induction fs arbitrary: i) (auto simp: e)
  then show ?thesis by (simp add: ramfs_lookup_def)
qed

lemma alloc_fd_from_None: "alloc_fd_from i es = None \<longleftrightarrow> (\<forall>e \<in> set es. fd_in_use e)"
  by (induction es arbitrary: i) auto

lemma alloc_fd_from_Some:
  "alloc_fd_from i es = Some j \<Longrightarrow> i \<le> j \<and> j < i + length es \<and> \<not> fd_in_use (es ! (j - i)) \<and> (\<forall>l < j - i. fd_in_use (es ! l))"
proof (induction es arbitrary: i)
  case (Cons e es)
  show ?case
  proof (cases "fd_in_use e")
    case True
    then have IH: "Suc i \<le> j" "j < Suc i + length es" "\<not> fd_in_use (es ! (j - Suc i))" "\<forall>l < j - Suc i. fd_in_use (es ! l)"
      using Cons.IH [of "Suc i"] Cons.prems by auto
    have "fd_in_use ((e # es) ! l)" if "l < j - i" for l using that True IH(4) by (cases l) auto
    then show ?thesis using IH by (auto simp: nth_Cons')
  next
    case False
    then show ?thesis using Cons.prems by auto
  qed
qed simp

lemma alloc_fd_Some:
  assumes "alloc_fd pcb = Some j" "length (p_fds pcb) = MAX_FDS_PER_PROCESS"
  shows "3 \<le> j" "j < 8" "\<not> fd_in_use (p_fds pcb ! j)" "\<And>l. 3 \<le> l \<Longrightarrow> l < j \<Longrightarrow> fd_in_use (p_fds pcb ! l)"
proof -
  note a = alloc_fd_from_Some [OF assms(1) [unfolded alloc_fd_def]]
  show j: "3 \<le> j" "j < 8" using a assms(2) by (simp_all add: MAX_FDS_PER_PROCESS_def)
  then obtain d where d: "j = 3 + d" using le_Suc_ex by blast
  show "\<not> fd_in_use (p_fds pcb ! j)" using a assms(2) unfolding d by (simp add: MAX_FDS_PER_PROCESS_def)
  fix l assume l: "3 \<le> l" "l < j"
  then obtain e where "l = 3 + e" using le_Suc_ex by blast
  then show "fd_in_use (p_fds pcb ! l)" using a assms(2) l unfolding d by (simp add: MAX_FDS_PER_PROCESS_def)
qed

definition closed_fd :: fd_entry where "closed_fd = \<lparr>fd_in_use = False, fd_file_idx = -1, fd_offset = 0\<rparr>"

lemma sys_open_spec:
  assumes pcb: "pcbs (k_sched k) (current_process (k_sched k)) = Some pcb" "length (p_fds pcb) = MAX_FDS_PER_PROCESS"
    and path: "path \<noteq> 0" "string_at k path name" and fl: "0 \<le> ramfs_lookup name (k_fs k)"
    and free: "alloc_fd pcb = Some j"
  shows "sys_open path k = Inr (of_nat j, set_fd (of_nat j) \<lparr>fd_in_use = True, fd_file_idx = ramfs_lookup name (k_fs k), fd_offset = of_nat 0\<rparr> k)"
    and "fd_is k (of_nat j) (p_fds pcb ! j)"
proof -
  note j = alloc_fd_Some [OF free pcb(2)]
  have u: "unat (of_nat j :: u32) = j" using j(2) by (simp add: unat_of_nat_u32)
  show "sys_open path k = Inr (of_nat j, set_fd (of_nat j) \<lparr>fd_in_use = True, fd_file_idx = ramfs_lookup name (k_fs k), fd_offset = of_nat 0\<rparr> k)"
    using path(1) fl free pcb lookup_user_eq [OF path(2)] u
    by (simp add: sys_open_def process_current_def Let_def pcb_of_def deref_eq pcb_update_def lift_sched_def update_eq set_fd_def)
  show "fd_is k (of_nat j) (p_fds pcb ! j)" using pcb j u by (simp add: fd_is_def bad_fd_iff)
qed

lemma sys_close_spec:
  assumes "fd_is k fd e" "fd_in_use e"
  shows "sys_close fd k = Inr (0, set_fd fd closed_fd k)"
proof -
  obtain pcb where pcb: "pcb_of (current_process (k_sched k)) k = Inr pcb" "p_fds pcb ! unat fd = e" "\<not> bad_fd fd"
    and upd: "\<And>m g. g pcb = pcb\<lparr>p_fds := (p_fds pcb)[unat fd := closed_fd]\<rparr> \<Longrightarrow>
      pcb_update (current_process (k_sched k)) g (k\<lparr>k_ram := m\<rparr>) = Inr (set_fd fd closed_fd (k\<lparr>k_ram := m\<rparr>))"
    by (rule fd_pcb [OF assms(1)]) blast
  have "pcb_update (current_process (k_sched k)) (\<lambda>p. p\<lparr>p_fds := (p_fds p)[unat fd :=
      \<lparr>fd_in_use = False, fd_file_idx = -1, fd_offset = 0\<rparr>]\<rparr>) (k\<lparr>k_ram := k_ram k\<rparr>) = Inr (set_fd fd closed_fd (k\<lparr>k_ram := k_ram k\<rparr>))"
    by (rule upd) (simp add: closed_fd_def)
  then show ?thesis using pcb assms(2) by (simp add: sys_close_def process_current_def Let_def)
qed

lemma sys_fd_errors:
  assumes "bad_fd fd \<or> (\<exists>e. fd_is k fd e \<and> \<not> fd_in_use e)"
  shows "sys_close fd k = Inr (-1, k)" "sys_read fd buf len k = Inr (-1, k)"
proof -
  have "sys_close fd k = Inr (-1, k) \<and> sys_read fd buf len k = Inr (-1, k)"
  proof (cases "bad_fd fd")
    case True
    then show ?thesis by (simp add: sys_close_def sys_read_def)
  next
    case False
    then obtain e where e: "fd_is k fd e" "\<not> fd_in_use e" using assms by blast
    obtain pcb where "pcb_of (current_process (k_sched k)) k = Inr pcb" "p_fds pcb ! unat fd = e" by (rule fd_pcb [OF e(1)]) blast
    then show ?thesis using e(2) False by (simp add: sys_close_def sys_read_def process_current_def Let_def)
  qed
  then show "sys_close fd k = Inr (-1, k)" "sys_read fd buf len k = Inr (-1, k)" by simp_all
qed

lemma sys_open_error:
  assumes pcb: "pcbs (k_sched k) (current_process (k_sched k)) = Some pcb" "length (p_fds pcb) = MAX_FDS_PER_PROCESS"
    and path: "path = 0 \<or> string_at k path name"
  shows "(sys_open path k = Inr (-1, k)) =
    (path = 0 \<or> ramfs_lookup name (k_fs k) < 0 \<or> (\<forall>e \<in> set (drop 3 (p_fds pcb)). fd_in_use e))" (is "?l = ?r")
proof
  assume ?r
  show ?l
  proof (cases "path = 0")
    case False
    then have "lookup_user_from (load_virt k) path 0 (k_fs k) = Inr (ramfs_lookup name (k_fs k))"
      using path lookup_user_eq by blast
    moreover have "alloc_fd pcb = None" if "\<forall>e \<in> set (drop 3 (p_fds pcb)). fd_in_use e"
      using that by (simp add: alloc_fd_def alloc_fd_from_None)
    ultimately show ?thesis using \<open>?r\<close> False pcb
      by (auto simp: sys_open_def process_current_def pcb_of_def deref_eq Let_def)
  qed (simp add: sys_open_def)
next
  assume ?l
  show ?r
  proof (rule ccontr)
    assume n: "\<not> ?r"
    then obtain j where j: "alloc_fd pcb = Some j" by (cases "alloc_fd pcb") (auto simp: alloc_fd_def alloc_fd_from_None)
    have "unat (of_nat j :: u32) \<noteq> unat (-1 :: u32)" using alloc_fd_Some(2) [OF j pcb(2)]
      by (simp add: unat_of_nat_u32 unsigned_minus_1_eq_mask mask_eq_exp_minus_1)
    then have "(of_nat j :: u32) \<noteq> -1" by metis
    moreover have "path \<noteq> 0" "string_at k path name" "0 \<le> ramfs_lookup name (k_fs k)" using n path by auto
    ultimately show False using sys_open_spec(1) [OF pcb _ _ _ j] \<open>?l\<close> by auto
  qed
qed

section \<open>Properties\<close>

text \<open>
  C20: A session with a file through the system call interface. If the path names a registered file and a
  descriptor is free, \<open>SYS_OPEN\<close> returns the lowest free one; any sequence of \<open>SYS_READ\<close> calls then delivers
  the file from its first byte on, in order and without gaps, as far as bytes were asked for and exist;
  \<open>SYS_CLOSE\<close> frees the descriptor, and reading it again is an error. No memory outside the buffer changes.
\<close>

theorem file_session:
  assumes pcb: "pcbs (k_sched k) (current_process (k_sched k)) = Some pcb" "length (p_fds pcb) = MAX_FDS_PER_PROCESS"
    and path: "path \<noteq> 0" "string_at k path name" and fl: "0 \<le> ramfs_lookup name (k_fs k)"
    "ramfs_get (ramfs_lookup name (k_fs k)) (k_fs k) = Some f"
    and free: "\<exists>e \<in> set (drop 3 (p_fds pcb)). \<not> fd_in_use e"
    and pd: "aligned 4096 (cr3 (k_mmu k))" and ap: "\<forall>i < unat (f_size f). f_data f + of_nat i \<notin> set ps"
    and bf: "buffer_at k buf ps" "buf \<noteq> 0" and lens: "\<forall>len \<in> set lens. unat len \<le> length ps"
  shows "\<exists>fd k1 k2 k3. syscall3 SYS_OPEN path 0 0 k = Inr (fd, k1) \<and> 3 \<le> unat fd \<and> unat fd < MAX_FDS_PER_PROCESS \<and>
    \<not> fd_in_use (p_fds pcb ! unat fd) \<and> (\<forall>l. 3 \<le> l \<and> l < unat fd \<longrightarrow> fd_in_use (p_fds pcb ! l)) \<and>
    read_all fd buf lens k1 = Inr (take (sum_list (map unat lens)) (contents (k_ram k) f), k2) \<and>
    syscall3 SYS_CLOSE fd 0 0 k2 = Inr (0, k3) \<and> syscall3 SYS_READ fd buf 1 k3 = Inr (-1, k3) \<and>
    (\<forall>a. a \<notin> set ps \<longrightarrow> k_ram k3 a = k_ram k a) \<and> k3 = set_fd fd closed_fd (k\<lparr>k_ram := k_ram k3\<rparr>)"
proof -
  obtain j where j: "alloc_fd pcb = Some j" using free by (cases "alloc_fd pcb") (auto simp: alloc_fd_def alloc_fd_from_None)
  define fd :: u32 where "fd = of_nat j"
  define i where "i = ramfs_lookup name (k_fs k)"
  let ?e = "\<lambda>off. \<lparr>fd_in_use = True, fd_file_idx = i, fd_offset = of_nat off\<rparr>"
  note jj = alloc_fd_Some [OF j pcb(2)]
  note o = sys_open_spec [OF pcb path fl(1) j, folded fd_def i_def]
  let ?k1 = "set_fd fd (?e 0) k"
  have u: "unat fd = j" using jj(2) by (simp add: fd_def unat_of_nat_u32)
  have "fd_is ?k1 fd (?e 0)" by (rule fd_is_set [OF o(2)])
  moreover have "ramfs_get i (k_fs ?k1) = Some f" using fl(2) by (simp add: i_def)
  ultimately obtain m off' where r: "read_all fd buf lens ?k1 = Inr (take (sum_list (map unat lens)) (contents (k_ram k) f),
      set_fd fd (?e off') (?k1\<lparr>k_ram := m\<rparr>))" "\<forall>a. a \<notin> set ps \<longrightarrow> m a = k_ram k a"
    using read_all_spec [of ?k1 fd i 0 f ps buf lens] pd ap bf lens by auto
  let ?k2 = "set_fd fd (?e off') (?k1\<lparr>k_ram := m\<rparr>)"
  have f2: "fd_is ?k2 fd (?e off')" using fd_is_set [OF o(2)] by (intro fd_is_set [of _ _ "?e 0"]) simp
  have "sys_close fd ?k2 = Inr (0, set_fd fd closed_fd ?k2)" by (rule sys_close_spec [OF f2]) simp
  moreover have "sys_read fd buf 1 (set_fd fd closed_fd ?k2) = Inr (-1, set_fd fd closed_fd ?k2)"
    using fd_is_set [OF f2, of closed_fd] by (intro sys_fd_errors(2)) (auto simp: closed_fd_def)
  moreover have "set_fd fd closed_fd ?k2 = set_fd fd closed_fd (k\<lparr>k_ram := m\<rparr>)" by (simp add: set_fd_twice)
  ultimately show ?thesis using o(1) r jj u
    by (intro exI [of _ fd] exI [of _ ?k1] exI [of _ ?k2] exI [of _ "set_fd fd closed_fd ?k2"])
      (auto simp: syscall3_simps MAX_FDS_PER_PROCESS_def)
qed

text \<open>
  C21: The errors of the system calls. Opening fails exactly for a null path, an unknown name or a full
  descriptor table; reading and closing fail for a descriptor that is reserved, out of range or not open,
  reading also for a null buffer; writing fails for any other descriptor than 1 and for a null buffer. Each
  failure yields -1 and leaves the kernel as it was. An unknown call number, such as that of \<open>SYS_FORK\<close>,
  yields -1 too and changes nothing but the screen.
\<close>

theorem syscall_errors:
  assumes pcb: "pcbs (k_sched k) (current_process (k_sched k)) = Some pcb" "length (p_fds pcb) = MAX_FDS_PER_PROCESS"
    and path: "path = 0 \<or> string_at k path name"
  shows "(syscall3 SYS_OPEN path b c k = Inr (-1, k)) =
      (path = 0 \<or> ramfs_lookup name (k_fs k) < 0 \<or> (\<forall>e \<in> set (drop 3 (p_fds pcb)). fd_in_use e)) \<and>
    (syscall3 SYS_CLOSE fd b c k = Inr (-1, k)) = (unat fd < 3 \<or> 8 \<le> unat fd \<or> \<not> fd_in_use (p_fds pcb ! unat fd)) \<and>
    (buf = 0 \<or> unat fd < 3 \<or> 8 \<le> unat fd \<or> \<not> fd_in_use (p_fds pcb ! unat fd) \<longrightarrow> syscall3 SYS_READ fd buf len k = Inr (-1, k)) \<and>
    (fd \<noteq> 1 \<or> buf = 0 \<longrightarrow> syscall3 SYS_WRITE fd buf len k = Inr (-1, k)) \<and>
    (6 \<le> num \<longrightarrow> (\<exists>v. syscall3 num fd buf len k = Inr (-1, k\<lparr>k_vga := v\<rparr>)))"
proof (intro conjI impI)
  show "(syscall3 SYS_OPEN path b c k = Inr (-1, k)) =
      (path = 0 \<or> ramfs_lookup name (k_fs k) < 0 \<or> (\<forall>e \<in> set (drop 3 (p_fds pcb)). fd_in_use e))"
    unfolding syscall3_simps by (rule sys_open_error [OF pcb path])
  have bad: "bad_fd fd \<or> (\<exists>e. fd_is k fd e \<and> \<not> fd_in_use e)" if "unat fd < 3 \<or> 8 \<le> unat fd \<or> \<not> fd_in_use (p_fds pcb ! unat fd)"
    using that pcb bad_fd_iff [of fd] by (auto simp: fd_is_def)
  have "sys_close fd k \<noteq> Inr (-1, k)" if "\<not> (unat fd < 3 \<or> 8 \<le> unat fd \<or> \<not> fd_in_use (p_fds pcb ! unat fd))"
    using that pcb bad_fd_iff [of fd] sys_close_spec [of k fd "p_fds pcb ! unat fd"] by (auto simp: fd_is_def)
  then show "(syscall3 SYS_CLOSE fd b c k = Inr (-1, k)) = (unat fd < 3 \<or> 8 \<le> unat fd \<or> \<not> fd_in_use (p_fds pcb ! unat fd))"
    using sys_fd_errors(1) [OF bad] unfolding syscall3_simps by blast
  show "syscall3 SYS_READ fd buf len k = Inr (-1, k)" if "buf = 0 \<or> unat fd < 3 \<or> 8 \<le> unat fd \<or> \<not> fd_in_use (p_fds pcb ! unat fd)"
    using that
  proof
    assume "buf = 0"
    then show ?thesis by (simp add: syscall3_simps sys_read_def)
  next
    assume "unat fd < 3 \<or> 8 \<le> unat fd \<or> \<not> fd_in_use (p_fds pcb ! unat fd)"
    then show ?thesis using sys_fd_errors(2) [OF bad] unfolding syscall3_simps by blast
  qed
  show "syscall3 SYS_WRITE fd buf len k = Inr (-1, k)" if "fd \<noteq> 1 \<or> buf = 0" using that by (auto simp: syscall3_simps sys_write_def)
  assume "6 \<le> num"
  then have "num \<noteq> 0" "num \<noteq> 1" "num \<noteq> 2" "num \<noteq> 3" "num \<noteq> 4" "num \<noteq> 5" by (auto simp: word_le_nat_alt)
  then show "\<exists>v. syscall3 num fd buf len k = Inr (-1, k\<lparr>k_vga := v\<rparr>)"
    by (simp add: syscall3_def syscall_handler_def syscall_regs_def SYS_WRITE_def SYS_EXIT_def SYS_YIELD_def
      SYS_OPEN_def SYS_READ_def SYS_CLOSE_def Let_def on_vga_def) blast
qed

text \<open>A kernel with a file of six bytes, and a string and a buffer in identity-mapped memory.\<close>

definition file_mem_ex :: mem where
  "file_mem_ex a = (if a = 0x310000 then 0x61 else if 0x300000 \<le> a \<and> a < 0x300006 then ucast a + 1 else 0)"

definition file_kernel_ex :: kernel where
  "file_kernel_ex = kernel_ex\<lparr>k_ram := identity_tables 0x200000 0x201000 file_mem_ex,
     k_fs := fs_empty[0 := \<lparr>f_name = lit ''a'' @ replicate 31 0, f_data = 0x300000, f_size = 6, f_in_use = True\<rparr>]\<rparr>"

lemma file_kernel_ex_memory:
  "0x300000 \<le> unat a \<Longrightarrow> unat a < 0x400000 \<Longrightarrow> k_ram file_kernel_ex a = file_mem_ex a"
  "unat a < 0x2000000 \<Longrightarrow> map_option phys_addr (translate (k_ram file_kernel_ex) (cr3 (k_mmu file_kernel_ex)) a) = Some a"
  "table_bytes (k_ram file_kernel_ex) (cr3 (k_mmu file_kernel_ex)) \<subseteq> {0x200000..<0x209000}"
proof -
  have c: "cr3 (k_mmu file_kernel_ex) = 0x200000" "k_ram file_kernel_ex = identity_tables 0x200000 0x201000 file_mem_ex"
    by (simp_all add: file_kernel_ex_def kernel_ex_def)
  have "file_mem_ex a = 0" if "0x200000 \<le> unat a" "unat a < 0x201000" for a
    using that by (auto simp: file_mem_ex_def word_le_nat_alt)
  note e = identity_example [OF this]
  show "0x300000 \<le> unat a \<Longrightarrow> unat a < 0x400000 \<Longrightarrow> k_ram file_kernel_ex a = file_mem_ex a"
    unfolding c using e(3) by (simp add: agree_def)
  show "unat a < 0x2000000 \<Longrightarrow> map_option phys_addr (translate (k_ram file_kernel_ex) (cr3 (k_mmu file_kernel_ex)) a) = Some a"
    unfolding c using e(4) by simp
  show "table_bytes (k_ram file_kernel_ex) (cr3 (k_mmu file_kernel_ex)) \<subseteq> {0x200000..<0x209000}" unfolding c by (rule e(2))
qed

lemma file_kernel_ex_load:
  "0x300000 \<le> unat a \<Longrightarrow> unat a < 0x400000 \<Longrightarrow> load_virt file_kernel_ex a = Inr (file_mem_ex a)"
  using file_kernel_ex_memory(1,2) [of a] by (auto simp: load_virt_def split: option.splits)

lemma file_kernel_ex_ok:
  "pcbs (k_sched file_kernel_ex) (current_process (k_sched file_kernel_ex)) = Some (pcb_ex 0 PROCESS_READY 0 0x200)"
  "string_at file_kernel_ex 0x310000 (lit ''a'')"
  "ramfs_lookup (lit ''a'') (k_fs file_kernel_ex) = 0"
  "ramfs_get 0 (k_fs file_kernel_ex) = Some \<lparr>f_name = lit ''a'' @ replicate 31 0, f_data = 0x300000, f_size = 6, f_in_use = True\<rparr>"
proof -
  show "pcbs (k_sched file_kernel_ex) (current_process (k_sched file_kernel_ex)) = Some (pcb_ex 0 PROCESS_READY 0 0x200)"
    by (simp add: file_kernel_ex_def kernel_ex_def sched_ex_def)
  show "string_at file_kernel_ex 0x310000 (lit ''a'')"
    using file_kernel_ex_load [of "0x310000"] file_kernel_ex_load [of "0x310001"]
    by (auto simp: string_at_def lit_def char_at_def file_mem_ex_def le_Suc_eq)
  have "find_from (\<lambda>f. f_in_use f \<and> str_eq (f_name f) (lit ''a'')) 0 (k_fs file_kernel_ex) = Some (0 + 0)"
    by (rule find_from_unique) (simp_all add: file_kernel_ex_def fs_empty_def RAMFS_MAX_FILES_def str_eq_iff cname_def lit_def)
  then show "ramfs_lookup (lit ''a'') (k_fs file_kernel_ex) = 0" by (simp add: ramfs_lookup_def)
  show "ramfs_get 0 (k_fs file_kernel_ex) = Some \<lparr>f_name = lit ''a'' @ replicate 31 0, f_data = 0x300000, f_size = 6, f_in_use = True\<rparr>"
    by (simp add: file_kernel_ex_def fs_empty_def RAMFS_MAX_FILES_def ramfs_get_def)
qed

theorem file_session_witness:
  "\<exists>fd k1 k2. syscall3 SYS_OPEN 0x310000 0 0 file_kernel_ex = Inr (fd, k1) \<and> read_all fd 0x320000 [4, 4] k1 = Inr ([1, 2, 3, 4, 5, 6], k2)"
proof -
  let ?ps = "map (\<lambda>i. 0x320000 + of_nat i) [0..<4] :: u32 list"
  let ?f = "\<lparr>f_name = lit ''a'' @ replicate 31 0, f_data = 0x300000, f_size = 6, f_in_use = True\<rparr>"
  note ok = file_kernel_ex_ok
  have ps: "?ps = [0x320000, 0x320001, 0x320002, 0x320003]" by (simp add: upt_rec)
  have b: "buffer_at file_kernel_ex 0x320000 ?ps"
    unfolding buffer_at_def
  proof (intro conjI ballI allI impI)
    show "distinct ?ps" unfolding ps by simp
    show "unat a \<notin> table_bytes (k_ram file_kernel_ex) (cr3 (k_mmu file_kernel_ex))" if "a \<in> set ?ps" for a
    proof -
      have "0x320000 \<le> unat a" using that unfolding ps by auto
      then show ?thesis using file_kernel_ex_memory(3) by force
    qed
    fix i assume "i < length ?ps"
    then have "unat (0x320000 + of_nat i :: u32) < 0x2000000" "?ps ! i = 0x320000 + of_nat i"
      by (simp_all add: unat_add_nowrap unat_of_nat_u32)
    then show "map_option phys_addr (translate (k_ram file_kernel_ex) (cr3 (k_mmu file_kernel_ex)) (0x320000 + of_nat i)) = Some (?ps ! i)"
      using file_kernel_ex_memory(2) by presburger
  qed
  have c: "contents (k_ram file_kernel_ex) ?f = [1, 2, 3, 4, 5, 6]"
    using file_kernel_ex_memory(1) by (simp add: contents_def upt_rec file_mem_ex_def)
  have a: "\<forall>i < unat (f_size ?f). f_data ?f + of_nat i \<notin> set ?ps"
  proof (intro allI impI)
    fix i assume i: "i < unat (f_size ?f)"
    then have "unat (f_data ?f + of_nat i) = 0x300000 + i" by (simp add: unat_add_nowrap unat_of_nat_u32)
    then have "unat (f_data ?f + of_nat i) < 0x320000" using i by simp
    moreover have "\<forall>a \<in> set ?ps. 0x320000 \<le> unat a" unfolding ps by simp
    ultimately show "f_data ?f + of_nat i \<notin> set ?ps" by force
  qed
  have pd: "aligned 4096 (cr3 (k_mmu file_kernel_ex))" by (simp add: file_kernel_ex_def kernel_ex_def aligned_def)
  have fr: "\<exists>e \<in> set (drop 3 (p_fds (pcb_ex 0 PROCESS_READY 0 0x200))). \<not> fd_in_use e" "length (p_fds (pcb_ex 0 PROCESS_READY 0 0x200)) = MAX_FDS_PER_PROCESS"
    by (simp_all add: pcb_ex_def process_zero_def MAX_FDS_PER_PROCESS_def)
  show ?thesis
    using file_session [OF ok(1) fr(2) _ ok(2) _ _ fr(1) pd a b, of "[4, 4]"] ok(3,4) c by auto
qed

theorem syscall_errors_witness:
  "syscall3 SYS_OPEN 0 0 0 file_kernel_ex = Inr (-1, file_kernel_ex) \<and> syscall3 SYS_CLOSE 3 0 0 file_kernel_ex = Inr (-1, file_kernel_ex) \<and>
   syscall3 SYS_READ 3 0x320000 4 file_kernel_ex = Inr (-1, file_kernel_ex) \<and>
   (\<exists>v. syscall3 SYS_FORK 0 0 0 file_kernel_ex = Inr (-1, file_kernel_ex\<lparr>k_vga := v\<rparr>))"
proof -
  have fr: "length (p_fds (pcb_ex 0 PROCESS_READY 0 0x200)) = MAX_FDS_PER_PROCESS"
    and n: "\<not> fd_in_use (p_fds (pcb_ex 0 PROCESS_READY 0 0x200) ! unat (3 :: u32))"
    by (simp_all add: pcb_ex_def process_zero_def MAX_FDS_PER_PROCESS_def)
  note e = syscall_errors [OF file_kernel_ex_ok(1) fr disjI1 [OF refl], where b = 0 and c = 0 and num = 6]
  show ?thesis using e [where fd = 3 and buf = "0x320000" and len = 4] e [where fd = 0 and buf = 0 and len = 0] n by (simp add: SYS_FORK_def)
qed

end
