(* ===== verification/Trap.thy ===== *)
theory Trap
imports Syscall
begin

unbundle bit_operations_syntax

text \<open>
  The paths of system calls, hardware interrupts and exceptions through the stubs of \<open>boot/isr.asm\<close> into
  the C handlers and back: the theories \<open>Cpu\<close> (the instructions of the stubs), \<open>Scheduler\<close> (interrupt
  handlers) and \<open>Syscall\<close> composed on the state of the kernel. It shows that \<open>syscall3\<close> is what a caller
  of \<open>int 0x80\<close> sees, and what an interrupt leaves of the state of the code it interrupts.
\<close>

section \<open>Model\<close>

definition on_machine :: "(machine \<Rightarrow> machine) \<Rightarrow> kernel \<Rightarrow> kernel" where
  "on_machine f k = (let (c, m) = f (k_cpu k, k_ram k) in k\<lparr>k_cpu := c, k_ram := m\<rparr>)"

text \<open>The structure behind the pointer that a stub pushed last.\<close>

definition frame_of :: "kernel \<Rightarrow> registers" where
  "frame_of k = registers_at (k_ram k) (load32 (k_ram k) (r_esp (k_cpu k)))"

text \<open>
  The common stubs. When the handler has switched to another process, the state is the one in which that
  process continues, and the rest of the stub is run by the interrupted process once it is switched back to.
  \<open>isr_handler\<close> does not return; \<open>cr2\<close> is the faulting address the processor reports.
\<close>

definition resume :: "(machine \<Rightarrow> machine) \<Rightarrow> u32 \<Rightarrow> kernel \<Rightarrow> kernel" where
  "resume ret cur k = (if current_process (k_sched k) = cur then on_machine ret k else k)"

definition isr_common_stub :: "u32 \<Rightarrow> kernel \<Rightarrow> kernel" where
  "isr_common_stub cr2 k = (let k = on_machine common_stub k in on_vga (isr_handler (frame_of k) cr2) k)"

definition irq_common_stub :: "u8 \<Rightarrow> kernel \<Rightarrow> kernel res" where
  "irq_common_stub sc k =
     (let k = on_machine common_stub k; cur = current_process (k_sched k) in
      bindR (run_irq (frame_of k) sc k) (\<lambda>k. Inr (resume stub_return cur k)))"

definition syscall_common_stub :: "kernel \<Rightarrow> kernel res" where
  "syscall_common_stub k =
     (let k = on_machine common_stub k; cur = current_process (k_sched k) in
      bindR (syscall_handler (frame_of k) k) (\<lambda>(retval, k). Inr (resume (syscall_return retval) cur k)))"

text \<open>The entry points named in the gates.\<close>

definition irq_entry :: "nat \<Rightarrow> u8 \<Rightarrow> kernel \<Rightarrow> kernel res" where
  "irq_entry n sc k = irq_common_stub sc (on_machine (push (of_nat (32 + n))) (on_machine (push 0) k))"

definition isr128 :: "kernel \<Rightarrow> kernel res" where
  "isr128 k = syscall_common_stub (on_machine (push 128) (on_machine (push 0) k))"

text \<open>The processor's part: through the gate of the vector to the entry point.\<close>

definition through_gate :: "nat \<Rightarrow> kernel \<Rightarrow> kernel" where
  "through_gate n k = on_machine (int_entry (tss (k_gdt k)) (gate_offset (idt (k_idt k) ! n))) k"

definition int80 :: "kernel \<Rightarrow> kernel res" where
  "int80 k = isr128 (through_gate 128 k)"

definition hardware_irq :: "nat \<Rightarrow> u8 \<Rightarrow> kernel \<Rightarrow> kernel res" where
  "hardware_irq n sc k = irq_entry n sc (through_gate (32 + n) k)"

section \<open>The memory a trap uses\<close>

text \<open>\<open>pushed b n m cm\<close>: \<open>n\<close> words were pushed below \<open>b\<close>, the rest of the memory is as in \<open>m\<close>.\<close>

definition pushed :: "u32 \<Rightarrow> nat \<Rightarrow> mem \<Rightarrow> machine \<Rightarrow> bool" where
  "pushed b n m cm \<longleftrightarrow> r_esp (fst cm) = b - 4 * of_nat n \<and> (\<forall>x. 4 * n \<le> unat (b - 1 - x) \<longrightarrow> snd cm x = m x)"

lemma below_unat:
  fixes b x :: u32
  assumes "x = b - 4 * of_nat (Suc n) + i" "unat i < 4" "n < 2 ^ 29"
  shows "unat (b - 1 - x) < 4 * Suc n"
proof -
  have "b - 1 - x = of_nat (4 * n + 3 - unat i)"
    using assms(1,2) by (simp add: of_nat_diff algebra_simps)
  moreover have "4 * n + 3 - unat i < 2 ^ 32" using assms(3) by simp
  ultimately have "unat (b - 1 - x) = 4 * n + 3 - unat i" by (simp only: unat_of_nat_u32)
  then show ?thesis by simp
qed

lemma pushed_push: "pushed b n m cm \<Longrightarrow> n < 2 ^ 29 \<Longrightarrow> pushed b (Suc n) m (push v cm)"
proof -
  assume p: "pushed b n m cm" and n: "n < 2 ^ 29"
  obtain c m0 where cm: "cm = (c, m0)" by (cases cm)
  let ?a = "b - 4 * of_nat (Suc n) :: u32"
  have e: "r_esp c - 4 = ?a" using p cm by (simp add: pushed_def algebra_simps)
  have "store32 ?a v m0 x = m x" if x: "4 * Suc n \<le> unat (b - 1 - x)" for x
  proof -
    have "x \<noteq> ?a + i" if "unat i < 4" for i using below_unat [OF _ that n, of x b] x by force
    from this [of 0] this [of 1] this [of 2] this [of 3] have "store32 ?a v m0 x = m0 x" by (simp add: store32_def)
    then show ?thesis using p cm x by (simp add: pushed_def)
  qed
  then show ?thesis unfolding cm pushed_def push_def by (simp add: e del: of_nat_Suc)
qed

lemma pushed_fst: "pushed b n m cm \<Longrightarrow> r_esp c = r_esp (fst cm) \<Longrightarrow> pushed b n m (c, snd cm)"
  by (simp add: pushed_def)

lemma pushed_push_reg: "pushed b n m cm \<Longrightarrow> n < 2 ^ 29 \<Longrightarrow> pushed b (Suc n) m (push_reg r cm)"
  by (simp add: push_reg_def pushed_push)

lemma pushed_pusha: "pushed b n m cm \<Longrightarrow> n < 100 \<Longrightarrow> pushed b (n + 8) m (pusha cm)"
proof -
  assume p: "pushed b n m cm" and n: "n < 100"
  have "pushed b (Suc (Suc (Suc (Suc (Suc (Suc (Suc (Suc n)))))))) m (pusha cm)"
    unfolding pusha_def Let_def using p n by (intro pushed_push_reg pushed_push) simp_all
  then show ?thesis by (simp add: eval_nat_numeral)
qed

lemma pushed_common_stub: "pushed b n m cm \<Longrightarrow> n < 90 \<Longrightarrow> pushed b (n + 10) m (common_stub cm)"
proof -
  assume p: "pushed b n m cm" and n: "n < 90"
  obtain c1 m1 where a: "pusha cm = (c1, m1)" by (cases "pusha cm")
  let ?c1 = "c1\<lparr>r_eax := (r_eax c1 AND 0xFFFF0000) OR ucast (r_ds c1)\<rparr>"
  have "pushed b (n + 8) m (?c1, m1)" using pushed_fst [OF pushed_pusha [OF p], of ?c1] n a by simp
  then have q: "pushed b (Suc (n + 8)) m (push_reg r_eax (?c1, m1))" using n by (intro pushed_push_reg) simp_all
  obtain c2 m2 where b: "push_reg r_eax (?c1, m1) = (c2, m2)" by (cases "push_reg r_eax (?c1, m1)")
  let ?c2 = "c2\<lparr>r_eax := (r_eax c2 AND 0xFFFF0000) OR 0x10, r_ds := 0x10, r_es := 0x10, r_fs := 0x10, r_gs := 0x10\<rparr>"
  have "pushed b (Suc (n + 8)) m (?c2, m2)" using pushed_fst [OF q, of ?c2] b by simp
  then have "pushed b (Suc (Suc (n + 8))) m (push_reg r_esp (?c2, m2))" using n by (intro pushed_push_reg) simp_all
  then show ?thesis by (simp add: common_stub_def a b add.commute)
qed

lemma pushed_int_entry: "pushed (trap_base t c) (length (trap_words c)) m (int_entry t h (c, m))"
proof -
  let ?b = "trap_base t c"
  have "\<exists>d m'. (if r_cs c AND 3 = 0 then (c, m) else push (r_esp c) (push (ucast (r_ss c)) (c\<lparr>r_esp := ts_esp0 t, r_ss := ucast (ts_ss0 t)\<rparr>, m))) = (d, m') \<and>
    pushed ?b (length (trap_words c) - 3) m (d, m')"
  proof (cases "r_cs c AND 3 = 0")
    case True then show ?thesis by (simp add: pushed_def trap_base_def trap_words_def)
  next
    case False
    let ?c = "c\<lparr>r_esp := ts_esp0 t, r_ss := ucast (ts_ss0 t)\<rparr>"
    have "pushed ?b 0 m (?c, m)" using False by (simp add: pushed_def trap_base_def)
    then have "pushed ?b (Suc (Suc 0)) m (push (r_esp c) (push (ucast (r_ss c)) (?c, m)))" by (intro pushed_push) simp_all
    then show ?thesis using False by (cases "push (r_esp c) (push (ucast (r_ss c)) (?c, m))") (simp add: trap_words_def eval_nat_numeral)
  qed
  then obtain d m' where d: "(if r_cs c AND 3 = 0 then (c, m) else push (r_esp c) (push (ucast (r_ss c)) (c\<lparr>r_esp := ts_esp0 t, r_ss := ucast (ts_ss0 t)\<rparr>, m))) = (d, m')"
    "pushed ?b (length (trap_words c) - 3) m (d, m')" by blast
  have l: "Suc (Suc (Suc (length (trap_words c) - 3))) = length (trap_words c)" "length (trap_words c) \<le> 5" by (simp_all add: trap_words_def)
  have "pushed ?b (Suc (Suc (Suc (length (trap_words c) - 3)))) m (push (r_eip c) (push (ucast (r_cs c)) (push (r_eflags c) (d, m'))))"
    using d(2) l(2) by (intro pushed_push) simp_all
  then show ?thesis using pushed_fst unfolding l(1) by (auto simp: int_entry_def d(1) Let_def split: prod.splits)
qed

section \<open>The kernel when the handler is called\<close>

definition trapped :: "nat \<Rightarrow> kernel \<Rightarrow> kernel" where
  "trapped n k = on_machine (\<lambda>cm. common_stub (push (of_nat n) (push 0 (int_entry (tss (k_gdt k)) (gate_offset (idt (k_idt k) ! n)) cm)))) k"

text \<open>The bytes of the kernel stack that hold the frame and the handler's argument.\<close>

definition in_frame :: "kernel \<Rightarrow> u32 \<Rightarrow> bool" where
  "in_frame k x \<longleftrightarrow> unat (trap_base (tss (k_gdt k)) (k_cpu k) - 1 - x) < 48 + 4 * length (trap_words (k_cpu k))"

lemma on_machine_on_machine: "on_machine f (on_machine g k) = on_machine (\<lambda>cm. f (g cm)) k"
  by (simp add: on_machine_def split: prod.splits)

lemma on_machine_simps [simp]:
  "k_sched (on_machine f k) = k_sched k" "k_idt (on_machine f k) = k_idt k" "k_gdt (on_machine f k) = k_gdt k"
  "k_kbd (on_machine f k) = k_kbd k" "k_io (on_machine f k) = k_io k"
  "k_cpu (on_machine f k) = fst (f (k_cpu k, k_ram k))" "k_ram (on_machine f k) = snd (f (k_cpu k, k_ram k))"
  by (simp_all add: on_machine_def split: prod.splits)

lemma on_machine_eq: "on_machine f k = k\<lparr>k_cpu := fst (f (k_cpu k, k_ram k)), k_ram := snd (f (k_cpu k, k_ram k))\<rparr>"
  by (simp add: on_machine_def split: prod.splits)

lemma trapped_same: "\<exists>c m. trapped n k = k\<lparr>k_cpu := c, k_ram := m\<rparr> \<and> (\<forall>x. \<not> in_frame k x \<longrightarrow> m x = k_ram k x)"
proof -
  let ?c = "k_cpu k" and ?t = "tss (k_gdt k)" and ?n = "length (trap_words (k_cpu k))"
  have l: "?n \<le> 5" by (simp add: trap_words_def)
  have "pushed (trap_base ?t ?c) (Suc (Suc ?n)) (k_ram k)
      (push (of_nat n) (push 0 (int_entry ?t (gate_offset (idt (k_idt k) ! n)) (?c, k_ram k))))"
    using l by (intro pushed_push pushed_int_entry) simp_all
  then have "pushed (trap_base ?t ?c) (?n + 12) (k_ram k) (k_cpu (trapped n k), k_ram (trapped n k))"
    using pushed_common_stub [of _ "Suc (Suc ?n)"] l by (fastforce simp: trapped_def add.commute)
  then show ?thesis
    by (intro exI [of _ "k_cpu (trapped n k)"] exI [of _ "k_ram (trapped n k)"])
      (auto simp: pushed_def in_frame_def trapped_def on_machine_eq not_less algebra_simps)
qed

lemma trapped_state [simp]:
  "k_sched (trapped n k) = k_sched k" "k_idt (trapped n k) = k_idt k" "k_gdt (trapped n k) = k_gdt k"
  "k_kbd (trapped n k) = k_kbd k" "k_io (trapped n k) = k_io k"
  by (simp_all add: trapped_def)

lemma trapped_machine:
  "common_stub (push (of_nat n) (push 0 (int_entry (tss (k_gdt k)) (gate_offset (idt (k_idt k) ! n)) (k_cpu k, k_ram k)))) =
     (k_cpu (trapped n k), k_ram (trapped n k))"
  by (simp add: trapped_def)

lemma frame_of_trapped:
  "reg_eax (frame_of (trapped n k)) = r_eax (k_cpu k)" "reg_ebx (frame_of (trapped n k)) = r_ebx (k_cpu k)"
  "reg_ecx (frame_of (trapped n k)) = r_ecx (k_cpu k)" "reg_edx (frame_of (trapped n k)) = r_edx (k_cpu k)"
  "reg_int_no (frame_of (trapped n k)) = of_nat n"
  using trap_frame(1) [OF trapped_machine, of n k] by (simp_all add: frame_of_def registers_at_def stub_words_def)

lemma in_frame_saved:
  assumes "unat (x - (r_esp (k_cpu (trapped n k)) + 4)) < 44 + 4 * length (trap_words (k_cpu k))"
  shows "in_frame k x"
proof -
  let ?b = "trap_base (tss (k_gdt k)) (k_cpu k)" and ?l = "length (trap_words (k_cpu k))"
  let ?y = "x - (r_esp (k_cpu (trapped n k)) + 4)"
  have l: "?l \<le> 5" by (simp add: trap_words_def)
  have "r_esp (k_cpu (trapped n k)) = ?b - 4 * of_nat ?l - 48" by (rule trap_frame(2) [OF trapped_machine])
  then have "?b - 1 - x = of_nat (43 + 4 * ?l - unat ?y)" using assms by (simp add: of_nat_diff algebra_simps)
  moreover have "43 + 4 * ?l - unat ?y < 2 ^ 32" using l by simp
  ultimately have "unat (?b - 1 - x) = 43 + 4 * ?l - unat ?y" by (simp only: unat_of_nat_u32)
  then show ?thesis by (simp add: in_frame_def)
qed

text \<open>Once the handler returns with the frame intact, the caller goes on.\<close>

lemma iret_ram [simp]: "snd (iret cm) = snd cm"
  by (simp add: iret_def Let_def split: prod.splits)

lemma stub_return_ram [simp]: "snd (stub_return cm) = snd cm"
  by (simp add: stub_return_def popa_def add_esp_def pop_def Let_def split: prod.splits)

lemma syscall_return_ram:
  "snd (syscall_return rv (d, m)) = store32 (r_esp d + 36) rv m"
  by (simp add: syscall_return_def popa_def add_esp_def pop_def Let_def add.assoc)

lemma resume_irq:
  assumes "current_process (k_sched k2) = current_process (k_sched k)" "k_cpu k2 = k_cpu (trapped n k)" "k_ram k2 = k_ram (trapped n k)"
  shows "resume stub_return (current_process (k_sched k)) k2 = k2\<lparr>k_cpu := segs_from_ds (k_cpu k)\<rparr>"
proof -
  have "fst (stub_return (k_cpu k2, k_ram k2)) = segs_from_ds (k_cpu k)"
    using trap_transparent [OF trapped_machine [of n k], of "k_cpu k2" "k_ram k2"] assms by simp
  then show ?thesis using assms(1) by (simp add: resume_def on_machine_eq)
qed

lemma resume_syscall:
  assumes c: "current_process (k_sched k2) = current_process (k_sched k)" "k_cpu k2 = k_cpu (trapped n k)"
    and f: "\<forall>x. in_frame k x \<longrightarrow> k_ram k2 x = k_ram (trapped n k) x"
  shows "\<exists>m. resume (syscall_return rv) (current_process (k_sched k)) k2 = k2\<lparr>k_cpu := (segs_from_ds (k_cpu k))\<lparr>r_eax := rv\<rparr>, k_ram := m\<rparr> \<and>
    (\<forall>x. \<not> in_frame k x \<longrightarrow> m x = k_ram k2 x)"
proof -
  let ?m = "snd (syscall_return rv (k_cpu k2, k_ram k2))" and ?e = "r_esp (k_cpu (trapped n k))"
  have "fst (syscall_return rv (k_cpu k2, k_ram k2)) = (segs_from_ds (k_cpu k))\<lparr>r_eax := rv\<rparr>"
    by (rule syscall_frame_transparent [OF trapped_machine [of n k]]) (use c f in_frame_saved [of _ n k] in auto)
  moreover have "?m x = k_ram k2 x" if "\<not> in_frame k x" for x
  proof -
    have "x \<noteq> ?e + 36 + i" if "unat i < 4" for i
    proof
      assume "x = ?e + 36 + i"
      then have y: "x - (?e + 4) = 32 + i" by simp
      have "unat (32 + i) = 32 + unat i" using that by (simp add: unat_add_nowrap)
      then have "in_frame k x" using that by (intro in_frame_saved [of x n k]) (simp only: y)
      then show False using \<open>\<not> in_frame k x\<close> by simp
    qed
    from this [of 0] this [of 1] this [of 2] this [of 3] show ?thesis
      by (simp add: syscall_return_ram c(2) store32_def add.assoc)
  qed
  ultimately show ?thesis using c(1) by (intro exI [of _ ?m]) (simp add: resume_def on_machine_eq)
qed

lemma int80_eq:
  "int80 k = bindR (syscall3 (r_eax (k_cpu k)) (r_ebx (k_cpu k)) (r_ecx (k_cpu k)) (r_edx (k_cpu k)) (trapped 128 k))
     (\<lambda>(rv, k2). Inr (resume (syscall_return rv) (current_process (k_sched k)) k2))"
proof -
  have "syscall_handler (frame_of (trapped 128 k)) (trapped 128 k) =
      syscall3 (r_eax (k_cpu k)) (r_ebx (k_cpu k)) (r_ecx (k_cpu k)) (r_edx (k_cpu k)) (trapped 128 k)"
    by (simp add: syscall3_def syscall_handler_def frame_of_trapped syscall_regs_def)
  moreover have "int80 k = bindR (syscall_handler (frame_of (trapped 128 k)) (trapped 128 k))
      (\<lambda>(rv, k2). Inr (resume (syscall_return rv) (current_process (k_sched k)) k2))"
    by (simp add: int80_def isr128_def syscall_common_stub_def through_gate_def on_machine_on_machine trapped_def Let_def)
  ultimately show ?thesis by simp
qed

lemma hardware_irq_eq:
  "hardware_irq n sc k = bindR (run_irq (frame_of (trapped (32 + n) k)) sc (trapped (32 + n) k))
     (\<lambda>k2. Inr (resume stub_return (current_process (k_sched k)) k2))"
  by (simp add: hardware_irq_def irq_entry_def irq_common_stub_def through_gate_def on_machine_on_machine trapped_def Let_def)

section \<open>System calls and interrupts as the caller sees them\<close>

lemma write_loop_keeps: "write_loop n buf k = Inr k' \<Longrightarrow> k_cpu k' = k_cpu k \<and> k_ram k' = k_ram k \<and> k_sched k' = k_sched k"
proof (induction n arbitrary: buf k)
  case (Suc n)
  then show ?case by (cases "load_virt k buf") (auto simp: on_vga_def bindR_simps dest!: Suc.IH)
qed simp

lemma read_loop_keeps: "read_loop n buf src k = Inr k' \<Longrightarrow> k_cpu k' = k_cpu k \<and> k_sched k' = k_sched k"
proof (induction n arbitrary: buf src k)
  case (Suc n)
  then show ?case
    by (cases "store_virt buf (k_ram k src) k") (auto simp: store_virt_def bindR_simps split: option.splits dest!: Suc.IH)
qed simp

lemma pcb_update_keeps:
  "pcb_update p f k = Inr k' \<Longrightarrow> k_cpu k' = k_cpu k \<and> k_ram k' = k_ram k \<and> current_process (k_sched k') = current_process (k_sched k)"
  by (auto simp: pcb_update_def lift_sched_def update_def bindR_simps split: option.splits sum.splits)

lemma sys_calls_keep:
  "sys_write fd buf len k = Inr (rv, k') \<Longrightarrow> k_cpu k' = k_cpu k \<and> k_ram k' = k_ram k \<and> current_process (k_sched k') = current_process (k_sched k)"
  "sys_open path k = Inr (rv, k') \<Longrightarrow> k_cpu k' = k_cpu k \<and> k_ram k' = k_ram k \<and> current_process (k_sched k') = current_process (k_sched k)"
  "sys_close fd k = Inr (rv, k') \<Longrightarrow> k_cpu k' = k_cpu k \<and> k_ram k' = k_ram k \<and> current_process (k_sched k') = current_process (k_sched k)"
  "sys_read fd buf len k = Inr (rv, k') \<Longrightarrow> k_cpu k' = k_cpu k \<and> current_process (k_sched k') = current_process (k_sched k)"
  by (auto simp: sys_write_def sys_open_def sys_close_def sys_read_def Let_def bindR_Inr_iff split: if_splits option.splits
      dest!: write_loop_keeps read_loop_keeps pcb_update_keeps)

lemma syscall3_keeps:
  assumes "syscall3 num a b c k = Inr (rv, k')" "num \<noteq> SYS_EXIT" "num \<noteq> SYS_YIELD"
  shows "k_cpu k' = k_cpu k" "current_process (k_sched k') = current_process (k_sched k)" "num \<noteq> SYS_READ \<Longrightarrow> k_ram k' = k_ram k"
proof -
  have "k_cpu k' = k_cpu k \<and> current_process (k_sched k') = current_process (k_sched k) \<and> (num \<noteq> SYS_READ \<longrightarrow> k_ram k' = k_ram k)"
    using assms by (auto simp: syscall3_def syscall_handler_def syscall_regs_def on_vga_def Let_def split: if_splits dest!: sys_calls_keep)
  then show "k_cpu k' = k_cpu k" "current_process (k_sched k') = current_process (k_sched k)" "num \<noteq> SYS_READ \<Longrightarrow> k_ram k' = k_ram k"
    by simp_all
qed

text \<open>
  C14: A system call behaves to its caller as the C function \<open>syscall3\<close> called with the registers. A caller of
  \<open>int 0x80\<close>, in user or kernel mode, continues after the instruction with the call's result in \<open>eax\<close>, in the kernel
  state the call leaves; of the memory only the bytes of the trap frame on the kernel stack differ besides. Its other
  registers, flags, \<open>cs\<close>, \<open>ss\<close>, \<open>ds\<close> and its stack pointer are as they were; \<open>es\<close>, \<open>fs\<close> and \<open>gs\<close>, which the
  stub does not save, are copies of \<open>ds\<close>. An error of the call, such as a page fault on a buffer, is one of the
  trap. This holds for every call that does not give up the processor, and for a read if its buffer lies apart from
  that frame.
\<close>

theorem syscall_trap:
  fixes k :: kernel
  defines "call \<equiv> syscall3 (r_eax (k_cpu k)) (r_ebx (k_cpu k)) (r_ecx (k_cpu k)) (r_edx (k_cpu k)) (trapped 128 k)"
  assumes num: "r_eax (k_cpu k) \<notin> {SYS_EXIT, SYS_YIELD}"
    and read: "\<forall>rv k2. r_eax (k_cpu k) = SYS_READ \<and> call = Inr (rv, k2) \<longrightarrow> (\<forall>x. in_frame k x \<longrightarrow> k_ram k2 x = k_ram (trapped 128 k) x)"
  shows "(\<forall>e. call = Inl e \<longrightarrow> int80 k = Inl e) \<and>
    (\<forall>rv k2. call = Inr (rv, k2) \<longrightarrow> (\<exists>m. int80 k = Inr (k2\<lparr>k_cpu := (segs_from_ds (k_cpu k))\<lparr>r_eax := rv\<rparr>, k_ram := m\<rparr>) \<and>
      (\<forall>x. \<not> in_frame k x \<longrightarrow> m x = k_ram k2 x))) \<and>
    (\<exists>c m. trapped 128 k = k\<lparr>k_cpu := c, k_ram := m\<rparr> \<and> (\<forall>x. \<not> in_frame k x \<longrightarrow> m x = k_ram k x))"
proof (intro conjI allI impI)
  note eq = int80_eq [of k, folded call_def]
  show "int80 k = Inl e" if "call = Inl e" for e using eq that by simp
  fix rv k2 assume c: "call = Inr (rv, k2)"
  note s = syscall3_keeps [OF c [unfolded call_def]]
  have "\<exists>m. resume (syscall_return rv) (current_process (k_sched k)) k2 = k2\<lparr>k_cpu := (segs_from_ds (k_cpu k))\<lparr>r_eax := rv\<rparr>, k_ram := m\<rparr> \<and>
      (\<forall>x. \<not> in_frame k x \<longrightarrow> m x = k_ram k2 x)"
    using s num read c by (intro resume_syscall [where n = 128]) auto
  then show "\<exists>m. int80 k = Inr (k2\<lparr>k_cpu := (segs_from_ds (k_cpu k))\<lparr>r_eax := rv\<rparr>, k_ram := m\<rparr>) \<and> (\<forall>x. \<not> in_frame k x \<longrightarrow> m x = k_ram k2 x)"
    using eq c by simp
qed (rule trapped_same)

text \<open>
  C19: An interrupt other than the timer's gives the interrupted code its registers back, except that \<open>es\<close>, \<open>fs\<close>
  and \<open>gs\<close>, which the stub does not save, become copies of \<open>ds\<close>. Of the memory only the stack below the
  interrupted code (or the kernel stack of the process) is written, and the kernel state changes just by the
  end-of-interrupt commands and what the keyboard handler does, when it is the one registered.
\<close>

theorem irq_restores:
  assumes "n < 16" "irq_handlers (k_idt k) ! n \<noteq> Some Pit_handler"
  shows "\<exists>m. hardware_irq n sc k = Inr (k\<lparr>k_cpu := segs_from_ds (k_cpu k), k_ram := m,
      k_io := k_io k @ (if 8 \<le> n then [OutB PIC2_CMD 0x20] else []) @ [OutB PIC1_CMD 0x20],
      k_kbd := (if irq_handlers (k_idt k) ! n = None then k_kbd k else keyboard_handler sc (k_kbd k))\<rparr>) \<and>
    (\<forall>x. \<not> in_frame k x \<longrightarrow> m x = k_ram k x)"
proof -
  let ?k = "trapped (32 + n) k"
  let ?io = "(if 8 \<le> n then [OutB PIC2_CMD 0x20] else []) @ [OutB PIC1_CMD 0x20]"
  let ?kb = "if irq_handlers (k_idt k) ! n = None then k_kbd k else keyboard_handler sc (k_kbd k)"
  let ?k2 = "?k\<lparr>k_io := k_io k @ ?io, k_kbd := ?kb\<rparr>"
  have w: "reg_int_no (frame_of ?k) = of_nat (32 + n)" by (rule frame_of_trapped)
  have "unat (of_nat (32 + n) :: u32) = 32 + n" using assms(1) by (intro unat_of_nat_u32) simp
  then have g: "(40 \<le> reg_int_no (frame_of ?k)) = (8 \<le> n)" unfolding w word_le_nat_alt by simp
  have i: "ucast (reg_int_no (frame_of ?k) - 32) = (of_nat n :: u8)" "unat (of_nat n :: u8) = n" "(of_nat n :: u8) < 16"
    using assms(1) unfolding w by (simp_all add: unsigned_of_nat take_bit_nat_eq_self word_less_nat_alt)
  have "irq_handler (frame_of ?k) (k_idt k) = (?io, irq_handlers (k_idt k) ! n)" using g i by (simp add: irq_handler_def)
  then have r: "run_irq (frame_of ?k) sc ?k = Inr ?k2"
    using assms(2) by (auto simp: run_irq_def Let_def split: option.splits irq_fn.splits)
  obtain c m where t: "?k = k\<lparr>k_cpu := c, k_ram := m\<rparr>" "\<forall>x. \<not> in_frame k x \<longrightarrow> m x = k_ram k x" using trapped_same by blast
  have "resume stub_return (current_process (k_sched k)) ?k2 = ?k2\<lparr>k_cpu := segs_from_ds (k_cpu k)\<rparr>" by (rule resume_irq) simp_all
  then have "hardware_irq n sc k = Inr (?k2\<lparr>k_cpu := segs_from_ds (k_cpu k)\<rparr>)" using r by (simp add: hardware_irq_eq)
  then show ?thesis using t by (intro exI [of _ m]) simp
qed

text \<open>An exception is reported with its vector, the processor's error code and the address of the instruction.\<close>

lemma exception_reported:
  fixes k :: kernel and n :: nat and err :: u32
  defines "k0 \<equiv> on_machine (exception_entry (tss (k_gdt k)) (gate_offset (idt (k_idt k) ! n)) n err) k"
  defines "k1 \<equiv> (if has_error_code n then k0 else on_machine (push 0) k0)"
  shows "\<exists>r. k_vga (isr_common_stub cr2 (on_machine (push (of_nat n)) k1)) = isr_handler r cr2 (k_vga k) \<and>
    reg_int_no r = of_nat n \<and> reg_err_code r = (if has_error_code n then err else 0) \<and> reg_eip r = r_eip (k_cpu k)"
proof -
  let ?e = "if has_error_code n then err else 0"
  let ?f = "\<lambda>cm. common_stub (push (of_nat n) (push ?e (int_entry (tss (k_gdt k)) (gate_offset (idt (k_idt k) ! n)) cm)))"
  have e: "on_machine common_stub (on_machine (push (of_nat n)) k1) = on_machine ?f k"
    by (simp add: k0_def k1_def on_machine_on_machine exception_entry_def Let_def)
  have "?f (k_cpu k, k_ram k) = (k_cpu (on_machine ?f k), k_ram (on_machine ?f k))" by simp
  from trap_frame(1) [OF this] have "reg_int_no (frame_of (on_machine ?f k)) = of_nat n \<and>
      reg_err_code (frame_of (on_machine ?f k)) = ?e \<and> reg_eip (frame_of (on_machine ?f k)) = r_eip (k_cpu k)"
    by (simp add: frame_of_def registers_at_def stub_words_def trap_words_def del: on_machine_simps)
  moreover have "k_vga (on_machine ?f k) = k_vga k" by (simp add: on_machine_eq)
  ultimately show ?thesis unfolding isr_common_stub_def e Let_def
    by (intro exI [of _ "frame_of (on_machine ?f k)"]) (simp add: on_vga_def del: on_machine_simps)
qed

definition kernel_in_user :: kernel where
  "kernel_in_user = kernel_ex\<lparr>k_cpu := cpu_ex\<lparr>r_cs := 0x1B, r_ss := 0x23, r_ds := 0x23, r_es := 0x23, r_fs := 0x23, r_gs := 0x23, r_eax := SYS_OPEN, r_ebx := 0\<rparr>,
     k_idt := (k_idt kernel_ex)\<lparr>irq_handlers := [Some Pit_handler, Some Keyboard_handler] @ replicate 14 None\<rparr>\<rparr>"

text \<open>A user program opens a null path.\<close>

theorem syscall_trap_witness:
  "\<exists>m. int80 kernel_in_user = Inr (kernel_in_user\<lparr>k_cpu := (segs_from_ds (k_cpu kernel_in_user))\<lparr>r_eax := -1\<rparr>, k_ram := m\<rparr>) \<and>
    (\<forall>x. \<not> in_frame kernel_in_user x \<longrightarrow> m x = k_ram kernel_in_user x)"
proof -
  have r: "r_eax (k_cpu kernel_in_user) = SYS_OPEN" "r_ebx (k_cpu kernel_in_user) = 0" by (simp_all add: kernel_in_user_def)
  have n: "SYS_OPEN \<notin> {SYS_EXIT, SYS_YIELD}" "SYS_OPEN \<noteq> SYS_READ" by (simp_all add: SYS_OPEN_def SYS_EXIT_def SYS_YIELD_def SYS_READ_def)
  have c: "syscall3 SYS_OPEN 0 b d k = Inr (-1, k)" for b d k by (simp add: syscall3_simps sys_open_def)
  note s = syscall_trap [of kernel_in_user, unfolded r c]
  obtain m where m: "int80 kernel_in_user = Inr ((trapped 128 kernel_in_user)\<lparr>k_cpu := (segs_from_ds (k_cpu kernel_in_user))\<lparr>r_eax := -1\<rparr>, k_ram := m\<rparr>)"
    "\<forall>x. \<not> in_frame kernel_in_user x \<longrightarrow> m x = k_ram (trapped 128 kernel_in_user) x" using s n by auto
  obtain c m' where t: "trapped 128 kernel_in_user = kernel_in_user\<lparr>k_cpu := c, k_ram := m'\<rparr>"
    "\<forall>x. \<not> in_frame kernel_in_user x \<longrightarrow> m' x = k_ram kernel_in_user x" using s n by auto
  show ?thesis using m t(2) unfolding t(1) by (intro exI [of _ m]) simp
qed

text \<open>The key \<open>a\<close> is pressed while a user program runs.\<close>

theorem irq_restores_witness:
  "\<exists>m. hardware_irq 1 0x1E kernel_in_user = Inr (kernel_in_user\<lparr>k_cpu := segs_from_ds (k_cpu kernel_in_user), k_ram := m,
     k_io := k_io kernel_in_user @ [OutB PIC1_CMD 0x20], k_kbd := keyboard_handler 0x1E (k_kbd kernel_in_user)\<rparr>)"
proof -
  have h: "irq_handlers (k_idt kernel_in_user) ! 1 = Some Keyboard_handler" by (simp add: kernel_in_user_def)
  show ?thesis using irq_restores [of 1 kernel_in_user "0x1E"] unfolding h by auto
qed

end
