(* ===== verification/Shell.thy ===== *)
theory Shell
  imports Syscall
begin

text \<open>
  The interactive shell (\<open>shell/\<close>): number parsing, the command line, the commands and the input loop.
  Arguments are lists of C strings. \<open>hlt\<close> is what happens while the processor waits for an
  interrupt; it is a parameter of the commands that wait.
\<close>

section \<open>Model\<close>

subsection \<open>Numbers\<close>

definition digit_of :: "u8 \<Rightarrow> u32 option" where
  "digit_of c =
     (if of_char CHR ''0'' \<le> c \<and> c \<le> of_char CHR ''9'' then Some (ucast c - 48)
      else if of_char CHR ''a'' \<le> c \<and> c \<le> of_char CHR ''f'' then Some (ucast c - 97 + 10)
      else if of_char CHR ''A'' \<le> c \<and> c \<le> of_char CHR ''F'' then Some (ucast c - 65 + 10)
      else None)"

fun strtoul_loop :: "u32 \<Rightarrow> u32 \<Rightarrow> cstring \<Rightarrow> u32" where
  "strtoul_loop base result [] = result"
| "strtoul_loop base result (c # cs) =
     (if c = 0 then result
      else case digit_of c of
        None \<Rightarrow> result
      | Some digit \<Rightarrow>
          (let max_before_mul = 0xFFFFFFFF div base in
           if result > max_before_mul \<or> result * base > 0xFFFFFFFF - digit
           then strtoul_loop base 0xFFFFFFFF cs
           else strtoul_loop base (result * base + digit) cs))"

definition sh_strtoul :: "cstring \<Rightarrow> u32 \<Rightarrow> u32" where
  "sh_strtoul s base =
     (let s = (if base = 16 \<and> char_at s 0 = of_char CHR ''0'' \<and>
                  (char_at s 1 = of_char CHR ''x'' \<or> char_at s 1 = of_char CHR ''X'')
               then drop 2 s else s)
      in strtoul_loop base 0 s)"

subsection \<open>The command line\<close>

definition INPUT_MAX :: nat where "INPUT_MAX = 256"
definition ARGV_MAX :: nat where "ARGV_MAX = 16"

text \<open>The sign of the C result is all the code looks at: zero means equal.\<close>

fun sh_strcmp :: "cstring \<Rightarrow> cstring \<Rightarrow> int" where
  "sh_strcmp (a # as) (b # bs) =
     (if a \<noteq> 0 \<and> b \<noteq> 0 \<and> a = b then sh_strcmp as bs else uint a - uint b)"
| "sh_strcmp (a # as) [] = uint a"
| "sh_strcmp [] (b # bs) = - uint b"
| "sh_strcmp [] [] = 0"

definition is_blank :: "u8 \<Rightarrow> bool" where
  "is_blank c \<longleftrightarrow> c = of_char CHR '' '' \<or> c = of_char CHR 0x09"

text \<open>A line is given up to its NUL.\<close>

function parse :: "cstring \<Rightarrow> nat \<Rightarrow> cstring list" where
  "parse p left =
     (if p \<noteq> [] \<and> left > 0 then
        (let p = dropWhile is_blank p in
         if p = [] then []
         else takeWhile (\<lambda>c. \<not> is_blank c) p # parse (drop 1 (dropWhile (\<lambda>c. \<not> is_blank c) p)) (left - 1))
      else [])"
  by pat_completeness auto
termination by (relation "measure snd") auto

declare parse.simps [simp del]

subsection \<open>Commands\<close>

definition say :: "string \<Rightarrow> kernel \<Rightarrow> kernel" where "say t = on_vga (kprint (lit t))"
definition say_str :: "cstring \<Rightarrow> kernel \<Rightarrow> kernel" where "say_str t = on_vga (kprint t)"
definition say_int :: "u32 \<Rightarrow> kernel \<Rightarrow> kernel" where "say_int n = on_vga (kprint_int n)"
definition say_hex :: "u32 \<Rightarrow> kernel \<Rightarrow> kernel" where "say_hex n = on_vga (kprint_hex n)"
definition color :: "u8 \<Rightarrow> kernel \<Rightarrow> kernel" where "color c = on_vga (vga_set_color c)"
definition put :: "u8 \<Rightarrow> kernel \<Rightarrow> kernel" where "put c = on_vga (vga_putchar c)"

datatype command =
  Cmd_help | Cmd_clear | Cmd_echo | Cmd_meminfo | Cmd_memtest | Cmd_hexdump | Cmd_heapinfo | Cmd_heaptest
| Cmd_ps | Cmd_sleep | Cmd_uptime | Cmd_vminfo | Cmd_synctest | Cmd_elftest | Cmd_fstest | Cmd_ls | Cmd_run
| Cmd_shutdown

definition commands :: "(string \<times> string \<times> command) list" where
  "commands =
     [(''help'', ''list available commands'', Cmd_help),
      (''clear'', ''clear the screen'', Cmd_clear),
      (''echo'', ''print arguments to screen'', Cmd_echo),
      (''meminfo'', ''show PMM memory statistics'', Cmd_meminfo),
      (''memtest'', ''alloc/free N frames (default 8)'', Cmd_memtest),
      (''hexdump'', ''dump memory: hexdump <addr> <len>'', Cmd_hexdump),
      (''heapinfo'', ''show kmalloc heap statistics'', Cmd_heapinfo),
      (''heaptest'', ''alloc/free/read-back heap chunks'', Cmd_heaptest),
      (''ps'', ''list processes'', Cmd_ps),
      (''sleep'', ''sleep <ticks> (100 ticks = 1 second)'', Cmd_sleep),
      (''uptime'', ''show ticks and seconds since boot'', Cmd_uptime),
      (''vminfo'', ''show virtual memory info'', Cmd_vminfo),
      (''synctest'', ''exercise int 0x80 syscall gate'', Cmd_synctest),
      (''elftest'', ''load and run the embedded test ELF binary'', Cmd_elftest),
      (''fstest'', ''exercise SYS_OPEN/READ/CLOSE against ramfs'', Cmd_fstest),
      (''ls'', ''list files in ramfs'', Cmd_ls),
      (''run'', ''run <filename> - load and execute an ELF from ramfs'', Cmd_run),
      (''shutdown'', ''shut down the system'', Cmd_shutdown)]"

definition pad :: "nat \<Rightarrow> nat \<Rightarrow> kernel \<Rightarrow> kernel" where
  "pad len width k = fold (\<lambda>_. say '' '') [len..<width] k"

subsubsection \<open>Core commands\<close>

definition help_row :: "string \<times> string \<times> command \<Rightarrow> kernel \<Rightarrow> kernel" where
  "help_row row k =
     (case row of (name, help, fn) \<Rightarrow>
       let k = color VGA_COLOR_WHITE k;
           k = say ''  '' k;
           k = say name k;
           k = pad (length name) 10 k;
           k = color VGA_COLOR_LIGHT_GREY k;
           k = say ''- '' k;
           k = say help k
       in say ''\<newline>'' k)"

definition cmd_help :: "kernel \<Rightarrow> kernel" where
  "cmd_help k = fold help_row commands (say ''StakOS commands:\<newline>'' (color VGA_COLOR_LIGHT_CYAN k))"

definition cmd_clear :: "kernel \<Rightarrow> kernel" where "cmd_clear k = on_vga vga_init k"

fun echo_args :: "cstring list \<Rightarrow> kernel \<Rightarrow> kernel" where
  "echo_args [] k = k"
| "echo_args [a] k = say_str a k"
| "echo_args (a # as) k = echo_args as (say '' '' (say_str a k))"

definition cmd_echo :: "cstring list \<Rightarrow> kernel \<Rightarrow> kernel" where
  "cmd_echo argv k = say ''\<newline>'' (echo_args (drop 1 argv) k)"

text \<open>The state in which \<open>cmd_shutdown\<close> halts the processor, if the machine is still on.\<close>

definition cmd_shutdown :: "kernel \<Rightarrow> kernel" where
  "cmd_shutdown k =
     (let k = color VGA_COLOR_LIGHT_RED k;
          k = say ''Shutting down StakOS...\<newline>'' k;
          k = k\<lparr>k_io := k_io k @ [OutW 0x604 0x2000, OutW 0x4004 0x3400, OutW 0xB004 0x2000]\<rparr>;
          k = color VGA_COLOR_LIGHT_GREY k;
          k = say ''Shutdown failed. It is now safe to turn off your computer.\<newline>'' k
      in k\<lparr>k_idt := (k_idt k)\<lparr>interrupts_on := False\<rparr>\<rparr>)"

subsubsection \<open>Memory commands\<close>

definition cmd_meminfo :: "kernel \<Rightarrow> kernel" where
  "cmd_meminfo k = on_vga (pmm_print_stats (k_pmm k)) k"

definition MEMTEST_MAX_FRAMES :: u32 where "MEMTEST_MAX_FRAMES = 64"

text \<open>The allocation loop: the frames obtained, and whether all were.\<close>

fun memtest_alloc :: "nat \<Rightarrow> u32 \<Rightarrow> kernel \<Rightarrow> u32 list \<times> bool \<times> kernel" where
  "memtest_alloc 0 i k = ([], True, k)"
| "memtest_alloc (Suc n) i k =
     (let (f, p) = pmm_alloc_frame (k_pmm k); k = k\<lparr>k_pmm := p\<rparr> in
      if f = 0 then
        ([], False, say ''\<newline>'' (say_int i (say ''  [FAIL] alloc returned 0 at i='' (color VGA_COLOR_LIGHT_RED k))))
      else
        (let k = say ''  alloc['' k; k = say_int i k; k = say ''] = '' k; k = say_hex f k; k = say ''\<newline>'' k;
             (fs, ok, k) = memtest_alloc n (i + 1) k
         in (f # fs, ok, k)))"

definition cmd_memtest :: "cstring list \<Rightarrow> kernel \<Rightarrow> kernel" where
  "cmd_memtest argv k =
     (let n = (if length argv \<ge> 2 then sh_strtoul (argv ! 1) 10 else 8) in
      if n = 0 \<or> n > MEMTEST_MAX_FRAMES then
        color VGA_COLOR_LIGHT_GREY (say ''memtest: n must be 1-64\<newline>'' (color VGA_COLOR_LIGHT_RED k))
      else
        (let k = color VGA_COLOR_LIGHT_CYAN k;
             k = say ''memtest: allocating '' k;
             k = say_int n k;
             k = say '' frames\<newline>'' k;
             k = color VGA_COLOR_LIGHT_GREY k;
             (fs, ok, k) = memtest_alloc (unat n) 0 k;
             k = (if ok then color VGA_COLOR_LIGHT_GREY (say ''  all allocs OK\<newline>'' (color VGA_COLOR_LIGHT_GREEN k)) else k);
             k = fold free_frame fs k;
             k = color VGA_COLOR_LIGHT_GREEN k;
             k = say ''  freed '' k;
             k = say_int (of_nat (length fs)) k;
             k = say '' frames - PMM recovered\<newline>'' k
         in color VGA_COLOR_LIGHT_GREY k))"

definition hex_char :: "u8 \<Rightarrow> u8" where
  "hex_char n = (if n < 10 then of_char CHR ''0'' + n else of_char CHR ''a'' + n - 10)"

definition dump_hex :: "u32 \<Rightarrow> u32 \<Rightarrow> u32 \<Rightarrow> nat \<Rightarrow> kernel \<Rightarrow> kernel" where
  "dump_hex addr len offset i k =
     (let k = (if offset + of_nat i < len then
                 (let b = k_ram k (addr + (offset + of_nat i)) in
                  put (hex_char (b AND 0xF)) (put (hex_char (drop_bit 4 b AND 0xF)) k))
               else say ''  '' k);
          k = put (of_char CHR '' '') k
      in if i = 7 then put (of_char CHR '' '') k else k)"

definition dump_ascii :: "u32 \<Rightarrow> u32 \<Rightarrow> u32 \<Rightarrow> nat \<Rightarrow> kernel \<Rightarrow> kernel" where
  "dump_ascii addr len offset i k =
     (if offset + of_nat i < len then
        (let b = k_ram k (addr + (offset + of_nat i)) in
         put (if b \<ge> 32 \<and> b < 127 then b else of_char CHR ''.'') k)
      else k)"

definition dump_row :: "u32 \<Rightarrow> u32 \<Rightarrow> u32 \<Rightarrow> kernel \<Rightarrow> kernel" where
  "dump_row addr len offset k =
     (let k = color VGA_COLOR_LIGHT_GREY k;
          k = say_hex (addr + offset) k;
          k = say ''  '' k;
          k = color VGA_COLOR_WHITE k;
          k = fold (dump_hex addr len offset) [0..<16] k;
          k = color VGA_COLOR_LIGHT_CYAN k;
          k = say '' |'' k;
          k = fold (dump_ascii addr len offset) [0..<16] k
      in say ''|\<newline>'' k)"

text \<open>Rows start at the multiples of 16 below \<open>len\<close>.\<close>

definition cmd_hexdump :: "cstring list \<Rightarrow> kernel \<Rightarrow> kernel" where
  "cmd_hexdump argv k =
     (if length argv < 3 then
        color VGA_COLOR_LIGHT_GREY (say ''usage: hexdump <addr> <len>\<newline>'' (color VGA_COLOR_LIGHT_RED k))
      else
        (let addr = sh_strtoul (argv ! 1) 16;
             len = sh_strtoul (argv ! 2) 10;
             max_mapped = of_nat (IDENTITY_PT_COUNT * PT_ENTRIES * 4096)
         in if addr > max_mapped \<or> len > max_mapped - addr then
              (let k = color VGA_COLOR_LIGHT_RED k;
                   k = say ''hexdump: address range outside mapped memory (0x0-'' k;
                   k = say_hex max_mapped k;
                   k = say '')\<newline>'' k
               in color VGA_COLOR_LIGHT_GREY k)
            else if len = 0 \<or> len > 512 then
              color VGA_COLOR_LIGHT_GREY (say ''hexdump: len must be 1-512\<newline>'' (color VGA_COLOR_LIGHT_RED k))
            else
              color VGA_COLOR_LIGHT_GREY
                (fold (\<lambda>r. dump_row addr len (of_nat (16 * r))) [0..<(unat len + 15) div 16] k)))"

definition cmd_heapinfo :: "kernel \<Rightarrow> kernel res" where
  "cmd_heapinfo k = bindR (kmalloc_print_stats (k_heap k) (k_ram k) (k_vga k)) (\<lambda>v. Inr (k\<lparr>k_vga := v\<rparr>))"

definition k_kmalloc :: "u32 \<Rightarrow> kernel \<Rightarrow> (u32 \<times> kernel) res" where
  "k_kmalloc n k = bindR (kmalloc (k_heap k) n (k_ram k)) (\<lambda>(p, m). Inr (p, k\<lparr>k_ram := m\<rparr>))"

definition k_kfree :: "u32 \<Rightarrow> kernel \<Rightarrow> kernel res" where
  "k_kfree p k = bindR (kfree (k_heap k) p (k_ram k)) (\<lambda>m. Inr (k\<lparr>k_ram := m\<rparr>))"

definition k_store8 :: "u32 \<Rightarrow> u8 \<Rightarrow> kernel \<Rightarrow> kernel" where
  "k_store8 a v k = k\<lparr>k_ram := (k_ram k)(a := v)\<rparr>"

definition heaptest_report :: "u32 \<Rightarrow> u32 \<Rightarrow> u32 \<Rightarrow> u32 \<Rightarrow> kernel \<Rightarrow> kernel" where
  "heaptest_report a b c d k =
     (let k = say ''  kmalloc(32)  = '' k; k = say_hex a k; k = say ''\<newline>'' k;
          k = say ''  kmalloc(128) = '' k; k = say_hex b k; k = say ''\<newline>'' k;
          k = say ''  kmalloc(64)  = '' k; k = say_hex c k; k = say ''\<newline>'' k;
          k = say ''  kmalloc(256) = '' k; k = say_hex d k
      in say ''\<newline>'' k)"

definition heaptest_readback :: "u32 \<Rightarrow> u32 \<Rightarrow> u32 \<Rightarrow> u32 \<Rightarrow> kernel \<Rightarrow> kernel" where
  "heaptest_readback a b c d k =
     (let k = (if a \<noteq> 0 then k_store8 (a + 31) 0xCD (k_store8 a 0xAB k) else k);
          k = (if b \<noteq> 0 then k_store8 (b + 127) 0x34 (k_store8 b 0x12 k) else k);
          ok = (a \<noteq> 0 \<and> b \<noteq> 0 \<and> c \<noteq> 0 \<and> d \<noteq> 0 \<and> k_ram k a = 0xAB \<and> k_ram k (a + 31) = 0xCD \<and>
                k_ram k b = 0x12 \<and> k_ram k (b + 127) = 0x34)
      in if ok then say ''  read-back OK\<newline>'' (color VGA_COLOR_LIGHT_GREEN k)
         else say ''  [FAIL] read-back mismatch!\<newline>'' (color VGA_COLOR_LIGHT_RED k))"

definition cmd_heaptest :: "kernel \<Rightarrow> kernel res" where
  "cmd_heaptest k =
     (let k = color VGA_COLOR_LIGHT_CYAN k;
          k = say ''heaptest: allocating chunks\<newline>'' k;
          k = color VGA_COLOR_LIGHT_GREY k
      in bindR (k_kmalloc 32 k) (\<lambda>(a, k).
         bindR (k_kmalloc 128 k) (\<lambda>(b, k).
         bindR (k_kmalloc 64 k) (\<lambda>(c, k).
         bindR (k_kmalloc 256 k) (\<lambda>(d, k).
         let k = heaptest_report a b c d k;
             k = heaptest_readback a b c d k;
             k = color VGA_COLOR_LIGHT_GREY k;
             k = say ''heaptest: freeing (check coalesce)\<newline>'' k
         in bindR (k_kfree a k) (\<lambda>k.
            bindR (k_kfree b k) (\<lambda>k.
            bindR (k_kfree c k) (\<lambda>k.
            bindR (k_kfree d k) (\<lambda>k.
            let k = color VGA_COLOR_LIGHT_GREEN k;
                k = say ''  freed - run heapinfo to confirm coalesced\<newline>'' k
            in Inr (color VGA_COLOR_LIGHT_GREY k))))))))))"

section \<open>Numbers\<close>


definition numeral_value :: "nat \<Rightarrow> nat \<Rightarrow> nat list \<Rightarrow> nat" where
  "numeral_value b v ds = foldl (\<lambda>v d. v * b + d) v ds"

lemma digit_of_0 [simp]: "digit_of 0 = None"
  by (simp add: digit_of_def)

lemma numeral_value_mono: "1 \<le> b \<Longrightarrow> v \<le> numeral_value b v ds"
proof (induction ds arbitrary: v)
  case Nil
  then show ?case by (simp add: numeral_value_def)
next
  case (Cons d ds)
  have "v \<le> v * b + d" using Cons.prems by (metis mult.right_neutral mult_le_mono2 trans_le_add1)
  then show ?case using Cons.IH [of "v * b + d"] Cons.prems by (simp add: numeral_value_def)
qed



section \<open>Words\<close>

text \<open>Splitting a line character by character, as a reference.\<close>

fun words_of :: "cstring \<Rightarrow> cstring list" where
  "words_of [] = []"
| "words_of (c # cs) =
     (if is_blank c then words_of cs
      else if cs = [] \<or> is_blank (hd cs) then [c] # words_of cs
      else (case words_of cs of [] \<Rightarrow> [[c]] | w # ws \<Rightarrow> (c # w) # ws))"

lemma words_of_skip: "words_of (dropWhile is_blank p) = words_of p"
  by (induction p) auto

lemma words_of_word:
  "p \<noteq> [] \<Longrightarrow> \<not> is_blank (hd p) \<Longrightarrow>
     words_of p = takeWhile (\<lambda>c. \<not> is_blank c) p # words_of (dropWhile (\<lambda>c. \<not> is_blank c) p)"
proof (induction p)
  case Nil
  then show ?case by simp
next
  case (Cons c cs)
  then show ?case by (cases cs) auto
qed

lemma words_of_drop1: "p = [] \<or> is_blank (hd p) \<Longrightarrow> words_of (drop 1 p) = words_of p"
  by (cases p) auto

section \<open>Properties\<close>



text \<open>
  C37: the arguments of a command are the words of the line, the maximal runs of characters that are neither
  blanks nor tabs, up to the given number of them.
\<close>

theorem parse_splits_words: "parse p n = take n (words_of p)"
proof (induction p n rule: parse.induct)
  case (1 p n)
  let ?q = "dropWhile is_blank p"
  show ?case
  proof (cases "p \<noteq> [] \<and> n > 0 \<and> ?q \<noteq> []")
    case True
    have w: "words_of p = takeWhile (\<lambda>c. \<not> is_blank c) ?q # words_of (drop 1 (dropWhile (\<lambda>c. \<not> is_blank c) ?q))"
      using words_of_skip [of p] words_of_word [of ?q] True hd_dropWhile [of is_blank p]
        words_of_drop1 [of "dropWhile (\<lambda>c. \<not> is_blank c) ?q"] hd_dropWhile [of "\<lambda>c. \<not> is_blank c" ?q] by metis
    show ?thesis using True 1 by (subst parse.simps) (simp add: w Let_def take_Cons')
  next
    case False
    then have "n = 0 \<or> words_of p = []" using words_of_skip [of p] by (metis words_of.simps(1) gr0I)
    then show ?thesis using False by (subst parse.simps) auto
  qed
qed

text \<open>Printing does not touch the rest of the kernel.\<close>

lemma say_pmm [simp]:
  "k_pmm (say t k) = k_pmm k" "k_pmm (say_str u k) = k_pmm k" "k_pmm (say_int n k) = k_pmm k"
  "k_pmm (say_hex n k) = k_pmm k" "k_pmm (color c k) = k_pmm k" "k_pmm (put d k) = k_pmm k"
  by (simp_all add: say_def say_str_def say_int_def say_hex_def color_def put_def on_vga_def)

lemma memtest_alloc_spec:
  "pmm_inv (k_pmm k) \<Longrightarrow> memtest_alloc n i k = (fs, ok, k') \<Longrightarrow>
     pmm_inv (k_pmm k') \<and> (\<lambda>p. unat p div 4096) ` set fs \<union> free_set (k_pmm k') = free_set (k_pmm k) \<and>
     (ok \<longrightarrow> length fs = n) \<and> length fs \<le> n"
proof (induction n i k arbitrary: fs ok k' rule: memtest_alloc.induct)
  case (1 i k)
  then show ?case by simp
next
  case (2 n i k)
  obtain f p where al: "pmm_alloc_frame (k_pmm k) = (f, p)" by (metis surj_pair)
  show ?case
  proof (cases "f = 0")
    case True
    then show ?thesis using 2(2,3) al pmm.alloc_none [OF 2(2)] by auto
  next
    case False
    note a = pmm.alloc_some [OF 2(2) al False]
    define k1 where "k1 = say ''\<newline>'' (say_hex f (say ''] = '' (say_int i (say ''  alloc['' (k\<lparr>k_pmm := p\<rparr>)))))"
    obtain fs1 ok1 k2 where r: "memtest_alloc n (i + 1) k1 = (fs1, ok1, k2)" by (metis prod_cases3)
    have k1: "k_pmm k1 = p" by (simp add: k1_def)
    have eq: "fs = f # fs1" "ok = ok1" "k' = k2" using 2(3) al False r by (simp_all add: k1_def Let_def)
    have "pmm_inv (k_pmm k2) \<and> (\<lambda>p. unat p div 4096) ` set fs1 \<union> free_set (k_pmm k2) = free_set p \<and> (ok1 \<longrightarrow> length fs1 = n) \<and> length fs1 \<le> n"
      using 2(1) [OF al [symmetric] refl refl False refl refl refl refl refl, folded k1_def, of fs1 ok1 k2] r a k1 by (simp add: k1_def)
    then show ?thesis using a unfolding eq by auto
  qed
qed

lemma fold_free_frame: "k_pmm (fold free_frame fs k) = fold pmm_free_frame fs (k_pmm k)"
  by (induction fs arbitrary: k) (simp_all add: free_frame_def)

text \<open>
  \<open>memtest\<close> gives back what it takes: whatever its argument, and also when memory runs out on
  the way, exactly the frames that were free before are free after it.
\<close>

theorem memtest_restores_frames:
  assumes "pmm_inv (k_pmm k)"
  shows "free_set (k_pmm (cmd_memtest argv k)) = free_set (k_pmm k) \<and> pmm_inv (k_pmm (cmd_memtest argv k))"
proof -
  define n where "n = (if length argv \<ge> 2 then sh_strtoul (argv ! 1) 10 else 8)"
  define k1 where "k1 = color VGA_COLOR_LIGHT_GREY (say '' frames\<newline>'' (say_int n (say ''memtest: allocating '' (color VGA_COLOR_LIGHT_CYAN k))))"
  obtain fs ok k2 where r: "memtest_alloc (unat n) 0 k1 = (fs, ok, k2)" by (metis prod_cases3)
  have k1: "k_pmm k1 = k_pmm k" by (simp add: k1_def)
  have m: "pmm_inv (k_pmm k2)" "(\<lambda>p. unat p div 4096) ` set fs \<union> free_set (k_pmm k2) = free_set (k_pmm k)"
    using memtest_alloc_spec [OF _ r] assms k1 by auto
  have "\<forall>p \<in> set fs. 0 < unat p div 4096 \<and> unat p div 4096 < 32768"
    using pmm.frames_range [OF assms] m(2) by blast
  note rl = pmm.release_list [OF m(1) this]
  show ?thesis
  proof (cases "n = 0 \<or> n > MEMTEST_MAX_FRAMES")
    case True
    then show ?thesis using assms by (simp add: cmd_memtest_def n_def [symmetric])
  next
    case False
    then have "k_pmm (cmd_memtest argv k) = fold pmm_free_frame fs (k_pmm k2)"
      unfolding cmd_memtest_def n_def [symmetric] Let_def k1_def [symmetric] r
      by (simp add: fold_free_frame)
    then show ?thesis using rl m(2) by simp
  qed
qed

theorem memtest_restores_frames_witness:
  "free_set (k_pmm (cmd_memtest [lit ''memtest'', lit ''64''] kernel_ex)) = {2, 3, 4}"
  using memtest_restores_frames [OF kernel_ex_frames(1), of "[lit ''memtest'', lit ''64'']"] by (simp add: kernel_ex_frames)

end
