(* ===== verification/Lifecycle.thy ===== *)
theory Lifecycle
  imports Scheduler
begin

text \<open>
  The end of a process: what it owns, and how \<open>scheduler_reap_zombies\<close> (\<open>kernel/scheduler.c\<close>) and
  \<open>process_free\<close> (\<open>kernel/process.c\<close>) give it back; and the timer tick as a whole.
\<close>

text \<open>Only the memory, the frame allocator and the scheduler differ.\<close>

definition rest_same :: "kernel \<Rightarrow> kernel \<Rightarrow> bool" where
  "rest_same k k' \<longleftrightarrow> k' = k\<lparr>k_ram := k_ram k', k_pmm := k_pmm k', k_sched := k_sched k'\<rparr>"

lemma rest_same_update [simp]: "rest_same k (k\<lparr>k_ram := m, k_pmm := p, k_sched := s\<rparr>)"
  by (simp add: rest_same_def)

lemma rest_sameE:
  assumes "rest_same k k'"
  obtains m p s where "k' = k\<lparr>k_ram := m, k_pmm := p, k_sched := s\<rparr>"
  using assms unfolding rest_same_def by (rule that)

lemma rest_same_refl [simp]: "rest_same k k"
  by (simp add: rest_same_def)

lemma rest_same_trans: "rest_same k k1 \<Longrightarrow> rest_same k1 k2 \<Longrightarrow> rest_same k k2"
  by (elim rest_sameE) simp

text \<open>Changes of the control blocks that leave links and process ids alone.\<close>

definition same_links :: "sched \<Rightarrow> sched \<Rightarrow> bool" where
  "same_links s s' \<longleftrightarrow> (\<forall>p. map_option (\<lambda>b. (p_next b, p_pid b)) (pcbs s' p) = map_option (\<lambda>b. (p_next b, p_pid b)) (pcbs s p)) \<and>
     proc_table s' = proc_table s \<and> queue_head s' = queue_head s \<and> queue_tail s' = queue_tail s \<and> queue_size s' = queue_size s \<and>
     zombie_head s' = zombie_head s"

lemma same_links_refl [simp]: "same_links s s"
  by (simp add: same_links_def)

lemma same_links_trans: "same_links s s' \<Longrightarrow> same_links s' s'' \<Longrightarrow> same_links s s''"
  by (simp add: same_links_def)

lemma same_links_upd:
  "pcbs s p = Some b \<Longrightarrow> p_next (f b) = p_next b \<Longrightarrow> p_pid (f b) = p_pid b \<Longrightarrow> same_links s (s\<lparr>pcbs := (pcbs s)(p \<mapsto> f b)\<rparr>)"
  by (simp add: same_links_def)

lemma same_links_current [simp]: "same_links s (s'\<lparr>current_process := c\<rparr>) = same_links s s'"
  by (simp add: same_links_def)

lemma same_links_lists:
  assumes "same_links s s'"
  shows "lists_ok s' xs zs = lists_ok s xs zs" "table_ok s' = table_ok s" "(pcbs s' p = None) = (pcbs s p = None)"
proof -
  have e: "map_option (\<lambda>b. (p_next b, p_pid b)) (pcbs s' q) = map_option (\<lambda>b. (p_next b, p_pid b)) (pcbs s q)" for q
    using assms by (simp add: same_links_def)
  have n: "map_option p_next (pcbs s' q) = map_option p_next (pcbs s q)" "pid_of s' q = pid_of s q" for q
    using arg_cong [OF e [of q], of "map_option fst"] arg_cong [OF e [of q], of "map_option snd"]
    by (simp_all add: option.map_comp comp_def pid_of_def)
  have d: "(pcbs s' q = None) = (pcbs s q = None)" for q using arg_cong [OF e [of q], of "\<lambda>x. x = None"] by simp
  have "seg (pcbs s') q ys r = seg (pcbs s) q ys r" for q ys r by (rule seg_cong) (simp add: n)
  then show "lists_ok s' xs zs = lists_ok s xs zs" using assms by (simp add: lists_ok_def run_queue_def zombies_def same_links_def)
  have "pid_of s' = pid_of s" using n(2) by blast
  then show "table_ok s' = table_ok s" using assms d by (simp add: table_ok_def same_links_def)
  show "(pcbs s' p = None) = (pcbs s p = None)" by (rule d)
qed

lemma kernel_ok_same_links:
  assumes ok: "kernel_ok L xs zs k" and s: "same_links (k_sched k) (k_sched k')" and h: "k_heap k' = k_heap k" "k_ram k' = k_ram k" "k_pmm k' = k_pmm k"
    and c: "current_process (k_sched k') = 0 \<or> pcbs (k_sched k') (current_process (k_sched k')) \<noteq> None"
  shows "kernel_ok L xs zs k'"
  using ok c unfolding kernel_ok_def h same_links_lists(1,2) [OF s] same_links_lists(3) [OF s] by blast

section \<open>What a process owns\<close>

text \<open>The two frames of its kernel stack and what \<open>paging_free_pd\<close> releases of its address space.\<close>

definition proc_frames :: "mem \<Rightarrow> process \<Rightarrow> nat set" where
  "proc_frames m b = {unat (p_stack_frame_lo b) div 4096, unat (p_stack_frame_hi b) div 4096} \<union> pd_frames m (p_cr3 b)"

text \<open>
  The process at \<open>p\<close> has its control block on the heap; its frames are in use and hold neither heap nor
  kernel page tables.
\<close>

definition owns :: "layout \<Rightarrow> kernel \<Rightarrow> u32 \<Rightarrow> process \<Rightarrow> bool" where
  "owns L k p b \<longleftrightarrow> p \<noteq> 0 \<and> pcbs (k_sched k) p = Some b \<and> live (k_heap k) (k_ram k) p \<noteq> None \<and>
     p_cr3 b \<noteq> 0 \<and> aligned 4096 (p_cr3 b) \<and>
     proc_frames (k_ram k) b \<subseteq> {1..<32768} - free_set (k_pmm k) \<and>
     (\<forall>t \<in> pd_pages (k_ram k) (a_kernel_pd L). unat t div 4096 \<notin> proc_frames (k_ram k) b) \<and>
     (\<forall>x \<in> heap_bytes (k_heap k) (k_ram k). x div 4096 \<notin> proc_frames (k_ram k) b)"

definition all_own :: "layout \<Rightarrow> kernel \<Rightarrow> u32 set \<Rightarrow> bool" where
  "all_own L k P \<longleftrightarrow> (\<forall>p \<in> P. \<exists>b. owns L k p b) \<and>
     (\<forall>p \<in> P. \<forall>q \<in> P. \<forall>b c. p \<noteq> q \<longrightarrow> pcbs (k_sched k) p = Some b \<longrightarrow> pcbs (k_sched k) q = Some c \<longrightarrow>
       proc_frames (k_ram k) b \<inter> proc_frames (k_ram k) c = {})"

lemma all_ownD: "all_own L k P \<Longrightarrow> p \<in> P \<Longrightarrow> \<exists>b. owns L k p b"
  by (simp add: all_own_def)

lemma pd_frames_agree:
  assumes pd: "aligned 4096 pd" and ag: "agree {x. x div 4096 \<in> pd_frames m pd} m' m"
  shows "pd_frames m' pd = pd_frames m pd"
proof -
  have sub: "page_bytes t \<subseteq> {x. x div 4096 \<in> pd_frames m pd}" if "aligned 4096 t" "unat t div 4096 \<in> pd_frames m pd" for t
    using that page_bytes_frame by auto
  have p: "pde m' pd i = pde m pd i" if "i < 1024" for i
    unfolding pde_def using that by (intro agree_entry [OF ag pd _ sub [OF pd]]) (auto simp: unat_of_nat_1024 pd_frames_def)
  have t: "pt_frames m' (table_of (pde m pd i)) = pt_frames m (table_of (pde m pd i))" if i: "8 \<le> i" "i < 1024" "present (pde m pd i)" for i
  proof -
    let ?t = "table_of (pde m pd i)"
    have "?t \<in> user_tables m pd" using i unfolding user_tables_def by blast
    then have "unat ?t div 4096 \<in> pd_frames m pd" unfolding pd_frames_def by blast
    then have "load32 m' (entry_at ?t (of_nat j)) = load32 m (entry_at ?t (of_nat j))" if "j < 1024" for j
      using that by (intro agree_entry [OF ag _ _ sub]) (auto simp: unat_of_nat_1024)
    then show ?thesis unfolding pt_frames_def by (intro image_cong) auto
  qed
  have s: "{i. 8 \<le> i \<and> i < 1024 \<and> present (pde m' pd i)} = {i. 8 \<le> i \<and> i < 1024 \<and> present (pde m pd i)}" using p by auto
  have "user_tables m' pd = user_tables m pd" unfolding user_tables_def s using p by (intro image_cong) auto
  moreover have "user_pages m' pd = user_pages m pd" unfolding user_pages_alt s using p t by (intro SUP_cong) auto
  ultimately show ?thesis by (simp add: pd_frames_def)
qed

text \<open>Ownership after a step that leaves the memory of the frames, the kernel's tables and the heap's extent alone.\<close>

lemma owns_step:
  assumes o: "owns L k p b" and ag: "agree {x. x div 4096 \<in> proc_frames (k_ram k) b} (k_ram k') (k_ram k)"
    and b': "pcbs (k_sched k') p = Some b'" "p_cr3 b' = p_cr3 b" "p_stack_frame_lo b' = p_stack_frame_lo b" "p_stack_frame_hi b' = p_stack_frame_hi b"
    and lv: "live (k_heap k') (k_ram k') p \<noteq> None" and fr: "free_set (k_pmm k') \<inter> proc_frames (k_ram k) b = {}"
    and kp: "pd_pages (k_ram k') (a_kernel_pd L) = pd_pages (k_ram k) (a_kernel_pd L)"
    and hb: "heap_bytes (k_heap k') (k_ram k') = heap_bytes (k_heap k) (k_ram k)"
  shows "owns L k' p b'" "proc_frames (k_ram k') b' = proc_frames (k_ram k) b"
proof -
  have "agree {x. x div 4096 \<in> pd_frames (k_ram k) (p_cr3 b)} (k_ram k') (k_ram k)"
    by (rule agree_subset [OF ag]) (auto simp: proc_frames_def)
  then have "pd_frames (k_ram k') (p_cr3 b) = pd_frames (k_ram k) (p_cr3 b)" using o by (intro pd_frames_agree) (auto simp: owns_def)
  then show e: "proc_frames (k_ram k') b' = proc_frames (k_ram k) b" by (simp add: proc_frames_def b')
  show "owns L k' p b'" unfolding owns_def e kp hb using o b' lv fr by (auto simp: owns_def)
qed

section \<open>Release\<close>

lemma release_two:
  assumes "pmm_inv p" "unat lo div 4096 \<in> {1..<32768}" "unat hi div 4096 \<in> {1..<32768}"
  shows "free_set (pmm_free_frame hi (pmm_free_frame lo p)) = {unat lo div 4096, unat hi div 4096} \<union> free_set p"
    "pmm_inv (pmm_free_frame hi (pmm_free_frame lo p))"
  using pmm.release_list [OF assms(1), of "[lo, hi]"] assms(2,3) by auto

text \<open>The scheduler after \<open>process_free\<close>.\<close>

definition forget :: "u32 \<Rightarrow> sched \<Rightarrow> sched" where
  "forget p s = (proc_table_remove p s)\<lparr>pcbs := (pcbs s)(p := None)\<rparr>"

lemma forget_simps [simp]:
  "pcbs (forget p s) = (pcbs s)(p := None)" "current_process (forget p s) = current_process s"
  "zombie_head (forget p s) = zombie_head s" "queue_head (forget p s) = queue_head s" "next_pid (forget p s) = next_pid s"
  by (simp_all add: forget_def proc_table_remove_def)

lemma forget_lists: "p \<notin> set xs \<Longrightarrow> p \<notin> set zs \<Longrightarrow> lists_ok (forget p s) xs zs = lists_ok s xs zs"
  by (simp add: lists_ok_def run_queue_def zombies_def forget_def proc_table_remove_def)

lemma forget_table:
  assumes "table_ok s" "p \<noteq> 0"
  shows "table_ok (forget p s)" "set (proc_table (forget p s)) - {0} = set (proc_table s) - {0} - {p}"
proof -
  note r = proc_table_remove_rep [OF assms]
  let ?r = "proc_table_remove p s"
  have e: "proc_table (forget p s) = proc_table ?r" "pcbs ?r = pcbs s" by (simp_all add: forget_def proc_table_remove_def)
  show t: "set (proc_table (forget p s)) - {0} = set (proc_table s) - {0} - {p}" using r(2) e by simp
  have q: "pid_of (forget p s) q = pid_of ?r q" "pcbs (forget p s) q = pcbs ?r q" if "q \<in> set (proc_table ?r) - {0}" for q
    using that r(2) e by (auto simp: pid_of_def)
  have "inj_on (pid_of (forget p s)) (set (proc_table ?r) - {0})"
    using r(1) q(1) unfolding table_ok_def by (auto simp: inj_on_def)
  then show "table_ok (forget p s)" using r(1) q(2) unfolding table_ok_def e(1) by (metis DiffI empty_iff insert_iff)
qed

lemma process_free_spec:
  assumes ok: "kernel_ok L xs zs k" and own: "all_own L k (insert p P)" "p \<notin> P" and b: "pcbs (k_sched k) p = Some b"
    and np: "p \<notin> set xs" "p \<notin> set zs" "current_process (k_sched k) \<noteq> p"
  shows "\<exists>k'. process_free p k = Inr k' \<and> kernel_ok L xs zs k' \<and> all_own L k' P \<and>
    k_sched k' = forget p (k_sched k) \<and> free_set (k_pmm k') = proc_frames (k_ram k) b \<union> free_set (k_pmm k) \<and>
    k_heap k' = k_heap k \<and> live (k_heap k') (k_ram k') = (live (k_heap k) (k_ram k))(p := None) \<and>
    (\<forall>q \<in> P. \<forall>c. pcbs (k_sched k) q = Some c \<longrightarrow> proc_frames (k_ram k') c = proc_frames (k_ram k) c) \<and>
    rest_same k k' \<and> heap_bytes (k_heap k) (k_ram k') = heap_bytes (k_heap k) (k_ram k) \<and>
    agree (- heap_bytes (k_heap k) (k_ram k)) (k_ram k') (k_ram k)"
proof -
  let ?kpd = "a_kernel_pd L" and ?h = "k_heap k" and ?m = "k_ram k" and ?F = "proc_frames (k_ram k) b \<union> free_set (k_pmm k)"
  have o: "owns L k p b" using own(1) b by (auto simp: all_own_def owns_def)
  have p0: "p \<noteq> 0" using o by (simp add: owns_def)
  have k: "mem_ok ?kpd ?h (free_set (k_pmm k)) ?m" "pmm_inv (k_pmm k)" "lists_ok (k_sched k) xs zs" "table_ok (k_sched k)"
    using ok by (simp_all add: kernel_ok_def)
  have fr: "proc_frames ?m b \<subseteq> {1..<32768}" using o by (auto simp: owns_def)
  define q where "q = paging_free_pd (p_cr3 b) ?m (pmm_free_frame (p_stack_frame_hi b) (pmm_free_frame (p_stack_frame_lo b) (k_pmm k)))"
  note r2 = release_two [OF k(2), of "p_stack_frame_lo b" "p_stack_frame_hi b"]
  have q: "free_set q = ?F" "pmm_inv q"
    using paging_free_pd_spec [OF r2(2), of "p_cr3 b" ?m] r2(1) fr o by (auto simp: q_def proc_frames_def owns_def)
  have mF: "mem_ok ?kpd ?h ?F ?m" using k(1) o fr by (auto simp: mem_ok_def owns_def)
  obtain n where n: "live ?h ?m p = Some n" using o by (auto simp: owns_def)
  obtain m' where m': "kfree ?h p ?m = Inr m'" "mem_ok ?kpd ?h ?F m'" "live ?h m' = (live ?h ?m)(p := None)"
    "heap_bytes ?h m' = heap_bytes ?h ?m" "agree (- heap_bytes ?h ?m) m' ?m"
    using mem_ok_kfree [OF mF n] by (elim exE conjE) (rule that)
  let ?k' = "k\<lparr>k_ram := m', k_pmm := q, k_sched := forget p (k_sched k)\<rparr>"
  have e: "process_free p k = Inr ?k'"
    using p0 b m'(1) by (simp add: process_free_def pcb_of_def deref_eq proc_table_remove_def free_frame_def free_pd_def free_pcb_def q_def forget_def)
  have kp: "pd_pages m' ?kpd = pd_pages ?m ?kpd"
  proof -
    have "agree (\<Union> (page_bytes ` pd_pages ?m ?kpd)) m' ?m"
      by (rule agree_subset [OF m'(5)]) (use k(1) in \<open>auto simp: mem_ok_def\<close>)
    then show ?thesis by (rule mem_ok_pd_agree(2) [OF k(1)])
  qed
  have cur: "current_process (k_sched k) = 0 \<or> pcbs (k_sched k) (current_process (k_sched k)) \<noteq> None" using ok by (simp add: kernel_ok_def)
  have dom: "\<forall>r. pcbs (k_sched k) r \<noteq> None \<longrightarrow> live ?h ?m r \<noteq> None \<or> unat r \<notin> heap_bytes ?h ?m" using ok by (simp add: kernel_ok_def)
  have ok': "kernel_ok L xs zs ?k'"
    unfolding kernel_ok_def using m'(2,3,4) q k(3,4) forget_table(1) [OF k(4) p0] np cur dom by (auto simp: forget_lists)
  have st: "\<exists>c. owns L ?k' r c \<and> pcbs (k_sched k) r = Some c \<and> proc_frames m' c = proc_frames ?m c" if r: "r \<in> P" for r
  proof -
    obtain c where c: "owns L k r c" using own(1) r by (auto simp: all_own_def)
    then have rc: "pcbs (k_sched k) r = Some c" by (simp add: owns_def)
    have ne: "r \<noteq> p" using r own(2) by auto
    have ag: "agree {x. x div 4096 \<in> proc_frames ?m c} m' ?m"
      by (rule agree_subset [OF m'(5)]) (use c in \<open>auto simp: owns_def\<close>)
    have dj: "proc_frames ?m b \<inter> proc_frames ?m c = {}" using own(1) r b rc ne by (auto simp: all_own_def)
    have "free_set (k_pmm ?k') \<inter> proc_frames ?m c = {}" using q(1) dj c by (auto simp: owns_def)
    moreover have "pcbs (k_sched ?k') r = Some c" "live (k_heap ?k') (k_ram ?k') r \<noteq> None" using rc ne c m'(3) by (auto simp: owns_def)
    ultimately have "owns L ?k' r c \<and> proc_frames (k_ram ?k') c = proc_frames ?m c"
      using owns_step [OF c, of ?k' c] ag m'(4) kp by simp
    then show ?thesis using rc by auto
  qed
  have "all_own L ?k' P"
    unfolding all_own_def
  proof (intro conjI ballI allI impI)
    show "\<exists>c. owns L ?k' r c" if "r \<in> P" for r using st [OF that] by blast
    fix r s c d assume a: "r \<in> P" "s \<in> P" "r \<noteq> s" "pcbs (k_sched ?k') r = Some c" "pcbs (k_sched ?k') s = Some d"
    have cd: "pcbs (k_sched k) r = Some c" "pcbs (k_sched k) s = Some d" using a by (auto split: if_splits)
    then have "proc_frames m' c = proc_frames ?m c" "proc_frames m' d = proc_frames ?m d" using st [OF a(1)] st [OF a(2)] by auto
    then show "proc_frames (k_ram ?k') c \<inter> proc_frames (k_ram ?k') d = {}" using own(1) a(1,2,3) cd by (simp add: all_own_def)
  qed
  moreover have "\<forall>r \<in> P. \<forall>c. pcbs (k_sched k) r = Some c \<longrightarrow> proc_frames (k_ram ?k') c = proc_frames ?m c" using st by fastforce
  ultimately show ?thesis using e ok' q m' by (intro exI [of _ ?k']) simp
qed

section \<open>Reaping\<close>

text \<open>\<open>is_pid_alive\<close> as a predicate, and the parent of a process.\<close>

definition alive :: "sched \<Rightarrow> u32 \<Rightarrow> bool" where
  "alive s pid \<longleftrightarrow> pid \<noteq> 0 \<and> (\<exists>p b. p \<in> set (proc_table s) \<and> p \<noteq> 0 \<and> pcbs s p = Some b \<and> p_pid b = pid \<and>
     p_state b \<noteq> PROCESS_ZOMBIE \<and> p_state b \<noteq> PROCESS_DEAD)"

definition orphan :: "sched \<Rightarrow> u32 \<Rightarrow> bool" where
  "orphan s z \<longleftrightarrow> (\<exists>b. pcbs s z = Some b \<and> \<not> alive s (p_parent_pid b))"

definition is_zombie :: "sched \<Rightarrow> u32 \<Rightarrow> bool" where
  "is_zombie s z \<longleftrightarrow> (\<exists>b. pcbs s z = Some b \<and> p_state b = PROCESS_ZOMBIE)"

definition frames_of :: "kernel \<Rightarrow> u32 \<Rightarrow> nat set" where
  "frames_of k p = (case pcbs (k_sched k) p of None \<Rightarrow> {} | Some b \<Rightarrow> proc_frames (k_ram k) b)"

text \<open>The processes \<open>R\<close> are gone from the state, with their frames, their control blocks and their places in the table.\<close>

definition released :: "u32 set \<Rightarrow> u32 set \<Rightarrow> kernel \<Rightarrow> kernel \<Rightarrow> bool" where
  "released P R k k' \<longleftrightarrow> free_set (k_pmm k') = (\<Union>p \<in> R. frames_of k p) \<union> free_set (k_pmm k) \<and>
     live (k_heap k') (k_ram k') = live (k_heap k) (k_ram k) |` (- R) \<and>
     set (proc_table (k_sched k')) - {0} = set (proc_table (k_sched k)) - {0} - R \<and>
     (\<forall>q. map_option (p_next_update (\<lambda>_. 0)) (pcbs (k_sched k') q) =
       (if q \<in> R then None else map_option (p_next_update (\<lambda>_. 0)) (pcbs (k_sched k) q))) \<and>
     rest_same k k' \<and> current_process (k_sched k') = current_process (k_sched k) \<and>
     heap_bytes (k_heap k') (k_ram k') = heap_bytes (k_heap k) (k_ram k) \<and>
     agree (- heap_bytes (k_heap k) (k_ram k)) (k_ram k') (k_ram k) \<and>
     (\<forall>q \<in> P - R. frames_of k' q = frames_of k q)"

lemma unlinked_field:
  assumes "map_option (p_next_update (\<lambda>_. 0)) x = map_option (p_next_update (\<lambda>_. 0)) y" "\<And>b. f (b\<lparr>p_next := 0\<rparr>) = f b"
  shows "map_option f x = map_option f y"
  using arg_cong [OF assms(1), of "map_option f"] assms(2) by (simp add: option.map_comp comp_def)

lemma links_only_field:
  assumes "links_only X m m'" "\<And>b. f (b\<lparr>p_next := 0\<rparr>) = f b"
  shows "map_option f (m' x) = map_option f (m x)"
  by (rule unlinked_field) (use assms in \<open>simp_all add: links_only_def\<close>)

lemma unlinked_eq:
  assumes "map_option (p_next_update (\<lambda>_. 0)) x = map_option (p_next_update (\<lambda>_. 0)) y"
  shows "(x = None) = (y = None)" "map_option p_pid x = map_option p_pid y" "map_option p_state x = map_option p_state y"
    "map_option p_parent_pid x = map_option p_parent_pid y" "map_option (proc_frames m) x = map_option (proc_frames m) y"
proof -
  show "(x = None) = (y = None)" using assms by (metis map_option_is_None)
  show "map_option p_pid x = map_option p_pid y" "map_option p_state x = map_option p_state y"
    "map_option p_parent_pid x = map_option p_parent_pid y" "map_option (proc_frames m) x = map_option (proc_frames m) y"
    by (rule unlinked_field [OF assms]; simp add: proc_frames_def)+
qed

lemma alive_released:
  assumes r: "released P R k k'" and z: "\<forall>z \<in> R. is_zombie (k_sched k) z"
  shows "alive (k_sched k') = alive (k_sched k)"
proof
  fix pid
  let ?s = "k_sched k" and ?s' = "k_sched k'"
  have pt: "p \<in> set (proc_table ?s') \<and> p \<noteq> 0 \<longleftrightarrow> p \<in> set (proc_table ?s) \<and> p \<noteq> 0 \<and> p \<notin> R" for p
    using r unfolding released_def by blast
  have e: "map_option (p_next_update (\<lambda>_. 0)) (pcbs ?s' p) = map_option (p_next_update (\<lambda>_. 0)) (pcbs ?s p)" if "p \<notin> R" for p
    using r that by (simp add: released_def)
  have al: "alive t pid \<longleftrightarrow> pid \<noteq> 0 \<and> (\<exists>p st. (p \<in> set (proc_table t) \<and> p \<noteq> 0) \<and> map_option p_pid (pcbs t p) = Some pid \<and>
      map_option p_state (pcbs t p) = Some st \<and> st \<noteq> PROCESS_ZOMBIE \<and> st \<noteq> PROCESS_DEAD)" for t
    unfolding alive_def by auto
  have nz: "p \<notin> R" if "map_option p_state (pcbs ?s p) = Some st" "st \<noteq> PROCESS_ZOMBIE" for p st
    using z that by (auto simp: is_zombie_def)
  have eq: "map_option p_pid (pcbs ?s' p) = map_option p_pid (pcbs ?s p)" "map_option p_state (pcbs ?s' p) = map_option p_state (pcbs ?s p)"
    if "p \<notin> R" for p using unlinked_eq(2,3) [OF e [OF that]] by simp_all
  have "((p \<in> set (proc_table ?s) \<and> p \<noteq> 0 \<and> p \<notin> R) \<and> map_option p_pid (pcbs ?s' p) = Some pid \<and>
      map_option p_state (pcbs ?s' p) = Some st \<and> st \<noteq> PROCESS_ZOMBIE \<and> st \<noteq> PROCESS_DEAD) =
    ((p \<in> set (proc_table ?s) \<and> p \<noteq> 0) \<and> map_option p_pid (pcbs ?s p) = Some pid \<and>
      map_option p_state (pcbs ?s p) = Some st \<and> st \<noteq> PROCESS_ZOMBIE \<and> st \<noteq> PROCESS_DEAD)" for p st
  proof (cases "p \<in> R")
    case True
    then show ?thesis using nz [of p st] by blast
  next
    case False
    then show ?thesis unfolding eq [OF False] by blast
  qed
  then show "alive ?s' pid = alive ?s pid" unfolding al pt by (simp only:)
qed

lemma released_refl: "released P {} k k"
  by (simp add: released_def restrict_map_def)

lemma released_trans:
  assumes a: "released P R k k1" and b: "released (P - R) Q k1 k2" and d: "Q \<subseteq> P - R"
  shows "released P (R \<union> Q) k k2"
proof -
  have f: "(\<Union>p \<in> Q. frames_of k1 p) = (\<Union>p \<in> Q. frames_of k p)" using a d by (intro SUP_cong) (auto simp: released_def subset_iff)
  have e: "rest_same k k2" using a b rest_same_trans by (auto simp: released_def)
  have ag: "agree (- heap_bytes (k_heap k) (k_ram k)) (k_ram k2) (k_ram k)" using a b by (simp add: released_def agree_def)
  have l: "live (k_heap k2) (k_ram k2) = live (k_heap k) (k_ram k) |` (- (R \<union> Q))"
    using a b unfolding released_def by (simp add: Int_commute)
  have "free_set (k_pmm k2) = (\<Union>p \<in> R \<union> Q. frames_of k p) \<union> free_set (k_pmm k)" using a b f by (auto simp: released_def)
  moreover have "set (proc_table (k_sched k2)) - {0} = set (proc_table (k_sched k)) - {0} - (R \<union> Q)"
  proof -
    have "set (proc_table (k_sched k1)) - {0} = set (proc_table (k_sched k)) - {0} - R"
      "set (proc_table (k_sched k2)) - {0} = set (proc_table (k_sched k1)) - {0} - Q" using a b by (simp_all add: released_def)
    then show ?thesis by auto
  qed
  ultimately show ?thesis using a b l e ag unfolding released_def by simp
qed

text \<open>Taking a block out of the zombie list, after the blocks \<open>us\<close> that stay.\<close>

definition unlink_zombie :: "u32 list \<Rightarrow> u32 \<Rightarrow> sched \<Rightarrow> sched" where
  "unlink_zombie us nxt s =
     (if us = [] then s\<lparr>zombie_head := nxt\<rparr>
      else s\<lparr>pcbs := (pcbs s)(last us := map_option (\<lambda>b. b\<lparr>p_next := nxt\<rparr>) (pcbs s (last us)))\<rparr>)"

lemma unlink_zombie_links: "links_only (set us) (pcbs s) (pcbs (unlink_zombie us nxt s))"
  by (auto simp: links_only_def unlink_zombie_def option.map_comp comp_def)

lemma unlink_zombie_simps [simp]:
  "proc_table (unlink_zombie us nxt s) = proc_table s" "current_process (unlink_zombie us nxt s) = current_process s"
  "next_pid (unlink_zombie us nxt s) = next_pid s"
  by (simp_all add: unlink_zombie_def)

lemma unlink_zombie_lists:
  assumes ok: "lists_ok s xs (us @ c # vs)" and b: "pcbs s c = Some b"
  shows "lists_ok (unlink_zombie us (p_next b) s) xs (us @ vs)"
proof -
  have q: "run_queue s xs" and d: "distinct (us @ c # vs)" "set xs \<inter> set (us @ c # vs) = {}"
    and z: "seg (pcbs s) (zombie_head s) (us @ c # vs) 0" using ok by (auto simp: lists_ok_def zombies_def)
  have "run_queue (unlink_zombie us (p_next b) s) xs"
  proof (cases "us = []")
    case False
    then have "last us \<notin> set xs" using d(2) last_in_set by fastforce
    then show ?thesis using q False by (simp add: unlink_zombie_def)
  qed (use q in \<open>simp add: unlink_zombie_def\<close>)
  moreover have "seg (pcbs (unlink_zombie us (p_next b) s)) (zombie_head (unlink_zombie us (p_next b) s)) (us @ vs) 0"
  proof (cases us rule: rev_cases)
    case Nil
    then show ?thesis using z b by (simp add: unlink_zombie_def)
  next
    case (snoc ws w)
    obtain e where e: "pcbs s w = Some e" using seg_dom [OF z, of w] snoc by auto
    have s1: "seg (pcbs s) (zombie_head s) (ws @ [w]) c" and s2: "seg (pcbs s) (p_next b) vs 0"
      using z b snoc by (auto simp: seg_append split: option.splits)
    have m: "pcbs (unlink_zombie us (p_next b) s) = (pcbs s)(w \<mapsto> e\<lparr>p_next := p_next b\<rparr>)" "zombie_head (unlink_zombie us (p_next b) s) = zombie_head s"
      using e snoc by (simp_all add: unlink_zombie_def)
    have "seg ((pcbs s)(w \<mapsto> e\<lparr>p_next := p_next b\<rparr>)) (zombie_head s) (ws @ [w]) (p_next b)"
      using s1 d(1) e snoc by (intro seg_snoc_link) auto
    moreover have "seg ((pcbs s)(w \<mapsto> e\<lparr>p_next := p_next b\<rparr>)) (p_next b) vs 0" using s2 d(1) snoc by simp
    ultimately show ?thesis unfolding m using snoc by (auto simp: seg_append)
  qed
  ultimately show ?thesis using d by (auto simp: lists_ok_def zombies_def)
qed

text \<open>Links do not matter for ownership, for the table and for what is alive.\<close>

lemma links_kernel:
  assumes ok: "kernel_ok L xs zs k" and l: "lists_ok s xs' zs'" and lk: "links_only X (pcbs (k_sched k)) (pcbs s)"
    and t: "proc_table s = proc_table (k_sched k)" "current_process s = current_process (k_sched k)"
  shows "kernel_ok L xs' zs' (k\<lparr>k_sched := s\<rparr>)" "released P {} k (k\<lparr>k_sched := s\<rparr>)"
    "all_own L k P \<Longrightarrow> all_own L (k\<lparr>k_sched := s\<rparr>) P"
proof -
  let ?k = "k\<lparr>k_sched := s\<rparr>"
  have e: "map_option (p_next_update (\<lambda>_. 0)) (pcbs s q) = map_option (p_next_update (\<lambda>_. 0)) (pcbs (k_sched k) q)" for q
    using lk by (simp add: links_only_def)
  note u = unlinked_eq [OF e]
  have tb: "table_ok s" using table_ok_links [OF _ t(1) lk] ok by (simp add: kernel_ok_def)
  show "kernel_ok L xs' zs' ?k" using ok l tb u(1) t(2) by (simp add: kernel_ok_def)
  have f: "frames_of ?k q = frames_of k q" for q
    using u(5) [of "k_ram k" q] by (cases "pcbs s q"; cases "pcbs (k_sched k) q") (simp_all add: frames_of_def)
  show "released P {} k ?k" unfolding released_def using e t f by (simp add: rest_same_def restrict_map_def)
  assume own: "all_own L k P"
  have nx: "\<exists>r. pcbs s q = Some (c\<lparr>p_next := r\<rparr>)" if "pcbs (k_sched k) q = Some c" for q c using links_only_lookup(2) [OF lk that] .
  have fp: "proc_frames m (c\<lparr>p_next := r\<rparr>) = proc_frames m c" for m c r by (simp add: proc_frames_def)
  show "all_own L ?k P"
    unfolding all_own_def
  proof (intro conjI ballI allI impI)
    fix p assume "p \<in> P"
    then obtain b where b: "owns L k p b" using own by (auto simp: all_own_def)
    then obtain r where "pcbs s p = Some (b\<lparr>p_next := r\<rparr>)" using nx [of p b] by (auto simp: owns_def)
    then have "owns L ?k p (b\<lparr>p_next := r\<rparr>)" using b by (auto simp: owns_def fp)
    then show "\<exists>b. owns L ?k p b" by blast
  next
    fix p q c d assume a: "p \<in> P" "q \<in> P" "p \<noteq> q" "pcbs (k_sched ?k) p = Some c" "pcbs (k_sched ?k) q = Some d"
    obtain c' d' where cd: "pcbs (k_sched k) p = Some c'" "pcbs (k_sched k) q = Some d'"
      using all_ownD [OF own a(1)] all_ownD [OF own a(2)] unfolding owns_def by (elim exE conjE) (rule that)
    then have "proc_frames (k_ram k) c = proc_frames (k_ram k) c'" "proc_frames (k_ram k) d = proc_frames (k_ram k) d'"
      using nx [OF cd(1)] nx [OF cd(2)] a(4,5) by (auto simp: fp)
    then show "proc_frames (k_ram ?k) c \<inter> proc_frames (k_ram ?k) d = {}" using own a(1,2,3) cd by (simp add: all_own_def)
  qed
qed

text \<open>Freeing a zombie releases what it owns and keeps the zombies that are left.\<close>

lemma process_free_released:
  assumes ok: "kernel_ok L xs zs k" and own: "all_own L k (insert p P)" "p \<notin> P" and b: "pcbs (k_sched k) p = Some b"
    and np: "p \<notin> set xs" "p \<notin> set zs" "current_process (k_sched k) \<noteq> p"
  shows "\<exists>k'. process_free p k = Inr k' \<and> kernel_ok L xs zs k' \<and> all_own L k' P \<and> released (insert p P) {p} k k'"
proof -
  obtain k' where k': "process_free p k = Inr k'" "kernel_ok L xs zs k'" "all_own L k' P" "k_sched k' = forget p (k_sched k)"
    "free_set (k_pmm k') = proc_frames (k_ram k) b \<union> free_set (k_pmm k)"
    "live (k_heap k') (k_ram k') = (live (k_heap k) (k_ram k))(p := None)"
    "\<forall>q \<in> P. \<forall>c. pcbs (k_sched k) q = Some c \<longrightarrow> proc_frames (k_ram k') c = proc_frames (k_ram k) c" "rest_same k k'"
    "heap_bytes (k_heap k) (k_ram k') = heap_bytes (k_heap k) (k_ram k)" "agree (- heap_bytes (k_heap k) (k_ram k)) (k_ram k') (k_ram k)"
    "k_heap k' = k_heap k"
    using process_free_spec [OF ok own b np] by (elim exE conjE) (rule that)
  have p0: "p \<noteq> 0" and t: "table_ok (k_sched k)" using own(1) ok by (auto simp: all_own_def owns_def kernel_ok_def)
  have "live (k_heap k') (k_ram k') = live (k_heap k) (k_ram k) |` (- {p})" using k'(6) by (auto simp: fun_eq_iff restrict_map_def)
  moreover have "set (proc_table (k_sched k')) - {0} = set (proc_table (k_sched k)) - {0} - {p}" using forget_table(2) [OF t p0] k'(4) by simp
  moreover have "frames_of k' q = frames_of k q" if "q \<in> P" for q
  proof -
    have "q \<noteq> p" using that own(2) by auto
    then show ?thesis using k'(4,7) that by (simp add: frames_of_def split: option.splits)
  qed
  moreover have "frames_of k p = proc_frames (k_ram k) b" using b by (simp add: frames_of_def)
  ultimately have "released (insert p P) {p} k k'" using k'(4,5,8-11) unfolding released_def by simp
  then show ?thesis using k'(1,2,3) by blast
qed

lemma orphan_released:
  assumes r: "released P R k k'" and z: "\<forall>z \<in> R. is_zombie (k_sched k) z" and q: "q \<notin> R"
  shows "orphan (k_sched k') q = orphan (k_sched k) q" "is_zombie (k_sched k') q = is_zombie (k_sched k) q"
proof -
  have "map_option (p_next_update (\<lambda>_. 0)) (pcbs (k_sched k') q) = map_option (p_next_update (\<lambda>_. 0)) (pcbs (k_sched k) q)"
    using r q by (simp add: released_def)
  note u = unlinked_eq [OF this]
  have o: "orphan s q \<longleftrightarrow> (\<exists>pp. map_option p_parent_pid (pcbs s q) = Some pp \<and> \<not> alive s pp)"
    "is_zombie s q \<longleftrightarrow> map_option p_state (pcbs s q) = Some PROCESS_ZOMBIE" for s
    by (auto simp: orphan_def is_zombie_def)
  show "orphan (k_sched k') q = orphan (k_sched k) q" unfolding o alive_released [OF r z] u(4) ..
  show "is_zombie (k_sched k') q = is_zombie (k_sched k) q" unfolding o u(3) ..
qed

definition reapable :: "layout \<Rightarrow> u32 list \<Rightarrow> u32 list \<Rightarrow> kernel \<Rightarrow> bool" where
  "reapable L xs zs k \<longleftrightarrow> kernel_ok L xs zs k \<and> all_own L k (set zs) \<and>
     (\<forall>z \<in> set zs. is_zombie (k_sched k) z) \<and> current_process (k_sched k) \<notin> set zs"

text \<open>One orphan: it is unlinked and freed.\<close>

lemma reap_one:
  assumes r: "reapable L xs (us @ c # vs) k" and b: "pcbs (k_sched k) c = Some b"
  shows "\<exists>k'. process_free c (k\<lparr>k_sched := unlink_zombie us (p_next b) (k_sched k)\<rparr>) = Inr k' \<and> reapable L xs (us @ vs) k' \<and>
    released (set (us @ c # vs)) {c} k k'"
proof -
  let ?P = "set (us @ vs)" and ?k1 = "k\<lparr>k_sched := unlink_zombie us (p_next b) (k_sched k)\<rparr>"
  have ok: "kernel_ok L xs (us @ c # vs) k" and own: "all_own L k (insert c ?P)" and z: "\<forall>z \<in> insert c ?P. is_zombie (k_sched k) z"
    and cur: "current_process (k_sched k) \<notin> insert c ?P" using r by (auto simp: reapable_def)
  have l: "lists_ok (k_sched k) xs (us @ c # vs)" using ok by (simp add: kernel_ok_def)
  then have d: "c \<notin> ?P" "c \<notin> set xs" by (auto simp: lists_ok_def zombies_def)
  note lk = links_kernel [OF ok unlink_zombie_lists [OF l b] unlink_zombie_links [of us "k_sched k" "p_next b"]]
  have k1: "kernel_ok L xs (us @ vs) ?k1" "released (insert c ?P) {} k ?k1" "all_own L ?k1 (insert c ?P)" using lk own by simp_all
  obtain b1 where b1: "pcbs (k_sched ?k1) c = Some b1" using all_ownD [OF k1(3), of c] by (auto simp: owns_def)
  have nc: "current_process (k_sched ?k1) \<noteq> c" using cur by auto
  obtain k' where k': "process_free c ?k1 = Inr k'" "kernel_ok L xs (us @ vs) k'" "all_own L k' ?P" "released (insert c ?P) {c} ?k1 k'"
    using process_free_released [OF k1(1,3) d(1) b1 d(2) d(1) nc] by (elim exE conjE) (rule that)
  have rel: "released (insert c ?P) {c} k k'" using released_trans [OF k1(2), of "{c}" k'] k'(4) by simp
  have "is_zombie (k_sched k') q" if "q \<in> ?P" for q
  proof -
    have "q \<noteq> c" using that d(1) by auto
    then show ?thesis using orphan_released(2) [OF rel, of q] z that by simp
  qed
  moreover have "current_process (k_sched k') = current_process (k_sched k)" using rel by (simp add: released_def)
  ultimately have "reapable L xs (us @ vs) k'" using k'(2,3) cur by (simp add: reapable_def)
  then show ?thesis using k'(1) rel by (intro exI [of _ k']) simp
qed

definition zhead :: "u32 list \<Rightarrow> u32" where
  "zhead vs = (case vs of [] \<Rightarrow> 0 | v # _ \<Rightarrow> v)"

lemma zombie_links:
  assumes "reapable L xs (us @ c # vs) k"
  obtains b where "pcbs (k_sched k) c = Some b" "c \<noteq> 0" "p_next b = zhead vs"
proof -
  have "seg (pcbs (k_sched k)) (zombie_head (k_sched k)) (us @ c # vs) 0"
    using assms by (simp add: reapable_def kernel_ok_def lists_ok_def zombies_def)
  then obtain b where b: "pcbs (k_sched k) c = Some b" "c \<noteq> 0" "seg (pcbs (k_sched k)) (p_next b) vs 0"
    by (auto simp: seg_append split: option.splits)
  moreover have "p_next b = zhead vs" using b(3) by (cases vs) (auto simp: zhead_def)
  ultimately show thesis using that by blast
qed

lemma reap_loop_spec:
  assumes "reapable L xs (us @ vs) k" "length vs < fuel"
  shows "\<exists>k'. reap_loop fuel (if us = [] then 0 else last us) (zhead vs) k = Inr k' \<and>
    reapable L xs (us @ filter (\<lambda>z. \<not> orphan (k_sched k) z) vs) k' \<and>
    released (set (us @ vs)) {z \<in> set vs. orphan (k_sched k) z} k k'"
  using assms
proof (induction vs arbitrary: us k fuel)
  case Nil
  then obtain f where "fuel = Suc f" by (cases fuel) auto
  then show ?case using Nil.prems released_refl by (simp add: zhead_def)
next
  case (Cons c vs)
  obtain f where f: "fuel = Suc f" "length vs < f" using Cons.prems(2) by (cases fuel) auto
  let ?prev = "if us = [] then 0 else last us"
  obtain b where b: "pcbs (k_sched k) c = Some b" "c \<noteq> 0" "p_next b = zhead vs" using zombie_links [OF Cons.prems(1)] .
  have ok: "kernel_ok L xs (us @ c # vs) k" using Cons.prems(1) by (simp add: reapable_def)
  have al: "is_pid_alive (p_parent_pid b) (k_sched k) = Inr (alive (k_sched k) (p_parent_pid b))"
    using ok unfolding alive_def by (intro is_pid_alive_rep) (simp add: kernel_ok_def)
  have orp: "orphan (k_sched k) c \<longleftrightarrow> \<not> alive (k_sched k) (p_parent_pid b)" using b(1) by (simp add: orphan_def)
  show ?case
  proof (cases "orphan (k_sched k) c")
    case False
    then have "reap_loop fuel ?prev (zhead (c # vs)) k = reap_loop f c (zhead vs) k"
      using b al f(1) orp by (simp add: zhead_def pcb_of_def deref_eq)
    moreover have "{z \<in> set (c # vs). orphan (k_sched k) z} = {z \<in> set vs. orphan (k_sched k) z}" using False by auto
    ultimately show ?thesis using Cons.IH [of "us @ [c]" k f] Cons.prems(1) f(2) False by simp
  next
    case True
    let ?k1 = "k\<lparr>k_sched := unlink_zombie us (p_next b) (k_sched k)\<rparr>"
    obtain k2 where k2: "process_free c ?k1 = Inr k2" "reapable L xs (us @ vs) k2" "released (set (us @ c # vs)) {c} k k2"
      using reap_one [OF Cons.prems(1) b(1)] by (elim exE conjE) (rule that)
    have l: "lists_ok (k_sched k) xs (us @ c # vs)" using ok by (simp add: kernel_ok_def)
    have d: "c \<notin> set us" "c \<notin> set vs" using l by (auto simp: lists_ok_def zombies_def)
    have pr: "us \<noteq> [] \<Longrightarrow> last us \<noteq> 0 \<and> pcbs (k_sched k) (last us) \<noteq> None"
      using all_ownD [of L k "set (us @ c # vs)" "last us"] Cons.prems(1) by (auto simp: reapable_def owns_def)
    have un: "(if ?prev \<noteq> 0 then pcb_update ?prev (\<lambda>p. p\<lparr>p_next := p_next b\<rparr>) k
        else Inr (k\<lparr>k_sched := (k_sched k)\<lparr>zombie_head := p_next b\<rparr>\<rparr>)) = Inr ?k1"
      using pr by (auto simp: unlink_zombie_def pcb_update_def lift_sched_def update_def)
    have e: "reap_loop fuel ?prev (zhead (c # vs)) k = reap_loop f ?prev (zhead vs) k2"
      using b(1,2) al f(1) orp True un k2(1) unfolding b(3) [symmetric] by (simp add: zhead_def pcb_of_def deref_eq)
    have z: "\<forall>z \<in> {c}. is_zombie (k_sched k) z" using Cons.prems(1) by (simp add: reapable_def)
    have o: "orphan (k_sched k2) q = orphan (k_sched k) q" if "q \<in> set vs" for q
      using orphan_released(1) [OF k2(3) z, of q] that d(2) by auto
    obtain k3 where k3: "reap_loop f ?prev (zhead vs) k2 = Inr k3"
      "reapable L xs (us @ filter (\<lambda>z. \<not> orphan (k_sched k2) z) vs) k3"
      "released (set (us @ vs)) {z \<in> set vs. orphan (k_sched k2) z} k2 k3"
      using Cons.IH [OF k2(2) f(2)] by (elim exE conjE) (rule that)
    have s: "filter (\<lambda>z. \<not> orphan (k_sched k2) z) vs = filter (\<lambda>z. \<not> orphan (k_sched k) z) (c # vs)"
      "{z \<in> set vs. orphan (k_sched k2) z} = {z \<in> set vs. orphan (k_sched k) z}"
      using o True by (auto cong: filter_cong)
    have p: "set (us @ c # vs) - {c} = set (us @ vs)" using d by auto
    have "released (set (us @ c # vs)) ({c} \<union> {z \<in> set vs. orphan (k_sched k) z}) k k3"
      using k3(3) d(2) unfolding s(2) p [symmetric] by (intro released_trans [OF k2(3)]) auto
    moreover have "{z \<in> set (c # vs). orphan (k_sched k) z} = {c} \<union> {z \<in> set vs. orphan (k_sched k) z}" using True by auto
    ultimately show ?thesis using e k3(1,2) s(1) by (intro exI [of _ k3]) simp
  qed
qed

lemma reap_spec:
  assumes "reapable L xs zs k"
  shows "\<exists>k'. scheduler_reap_zombies k = Inr k' \<and> reapable L xs (filter (\<lambda>z. \<not> orphan (k_sched k) z) zs) k' \<and>
    released (set zs) {z \<in> set zs. orphan (k_sched k) z} k k'"
proof -
  have l: "lists_ok (k_sched k) xs zs" using assms by (simp add: reapable_def kernel_ok_def)
  then have z: "zombie_head (k_sched k) = zhead zs" by (cases zs) (auto simp: lists_ok_def zombies_def zhead_def)
  have "0 \<notin> set zs" using assms by (auto simp: reapable_def all_own_def owns_def)
  then have "length zs < walk_fuel" using l length_distinct_nonzero_u32 by (auto simp: lists_ok_def zombies_def)
  then show ?thesis using reap_loop_spec [of L xs "[]" zs k walk_fuel] assms by (simp add: scheduler_reap_zombies_def z)
qed

text \<open>
  C13: \<open>scheduler_reap_zombies\<close> returns, and it frees exactly the zombies whose parent can no
  longer claim them. Their frames - two of the kernel stack, the page directory, and the page tables and pages
  of the directory entries from 32 MB on - are free again, their control blocks are released on the heap, their
  slots in the process table are empty and they are off the zombie list; the other zombies stay on it in their
  order. Every other process, heap object and frame is as before, and the kernel invariant and the separation of
  what the zombies own hold again.
\<close>

theorem reap_frees_orphans:
  assumes "reapable L xs zs k"
  shows "\<exists>k'. scheduler_reap_zombies k = Inr k' \<and> reapable L xs (filter (\<lambda>z. \<not> orphan (k_sched k) z) zs) k' \<and>
    released (set zs) {z \<in> set zs. orphan (k_sched k) z} k k'"
  using assms by (rule reap_spec)

section \<open>From creation to release\<close>

text \<open>A created process owns its three frames.\<close>

lemma created_owns:
  assumes c: "created L q entry priority k k1" and q: "q \<noteq> 0"
  obtains b where "owns L k1 q b" "free_set (k_pmm k) = proc_frames (k_ram k1) b \<union> free_set (k_pmm k1)"
    "current_pid k = Inr (p_parent_pid b)" "p_state b = PROCESS_READY"
proof -
  obtain b where b: "pcbs (k_sched k1) q = Some b" "p_state b = PROCESS_READY" "current_pid k = Inr (p_parent_pid b)"
    "free_set (k_pmm k) = free_set (k_pmm k1) \<union> (\<lambda>f. unat f div 4096) ` {p_cr3 b, p_stack_frame_lo b, p_stack_frame_hi b}"
    "card (free_set (k_pmm k)) = card (free_set (k_pmm k1)) + 3"
    "new_dir (p_cr3 b) (free_set (k_pmm k)) (k_pmm k1) (k_ram k1)"
    using c unfolding created_def by (elim exE conjE) (rule that)
  have m: "mem_ok (a_kernel_pd L) (k_heap k1) (free_set (k_pmm k)) (k_ram k1)" "live (k_heap k1) (k_ram k1) q \<noteq> None"
    using c by (auto simp: created_def)
  have "pd_frames (k_ram k1) (p_cr3 b) = {unat (p_cr3 b) div 4096}"
    using b(6) by (intro created_frames [where e = "pde (k_ram k1) (p_cr3 b)"]) (auto simp: new_dir_def)
  then have pf: "proc_frames (k_ram k1) b = (\<lambda>f. unat f div 4096) ` {p_cr3 b, p_stack_frame_lo b, p_stack_frame_hi b}"
    by (auto simp: proc_frames_def)
  have fs: "free_set (k_pmm k) = proc_frames (k_ram k1) b \<union> free_set (k_pmm k1)" using b(4) pf by auto
  have "card (proc_frames (k_ram k1) b) \<le> 3" unfolding pf by (rule order_trans [OF card_image_le]) (auto simp: card_insert_if)
  moreover have "finite (proc_frames (k_ram k1) b)" unfolding pf by simp
  ultimately have "proc_frames (k_ram k1) b \<inter> free_set (k_pmm k1) = {}"
    using card_Un_Int [of "proc_frames (k_ram k1) b" "free_set (k_pmm k1)"] b(5) finite_free_set [of "k_pmm k1"] unfolding fs [symmetric] by simp
  then have "proc_frames (k_ram k1) b \<subseteq> {1..<32768} - free_set (k_pmm k1)" using m(1) fs unfolding mem_ok_def by blast
  moreover have "\<forall>t \<in> pd_pages (k_ram k1) (a_kernel_pd L). unat t div 4096 \<notin> proc_frames (k_ram k1) b"
    "\<forall>x \<in> heap_bytes (k_heap k1) (k_ram k1). x div 4096 \<notin> proc_frames (k_ram k1) b"
    using m(1) unfolding mem_ok_def fs by simp_all
  ultimately have "owns L k1 q b" using b(1,6) m(2) q unfolding owns_def new_dir_def by simp
  then show thesis using that fs b(2,3) by blast
qed

text \<open>Turning a process into a zombie: its block is marked with \<open>f\<close> and moves to the zombie list.\<close>

definition zombify :: "u32 \<Rightarrow> (process \<Rightarrow> process) \<Rightarrow> kernel \<Rightarrow> kernel res" where
  "zombify q f k = bindR (pcb_update q f k) (lift_sched (scheduler_mark_zombie q))"

lemma zombify_spec:
  assumes ok: "kernel_ok L xs zs k" and b: "pcbs (k_sched k) q = Some b" "q \<noteq> 0" "q \<notin> set zs"
    and f: "p_next (f b) = p_next b" "p_pid (f b) = p_pid b"
  shows "\<exists>s. zombify q f k = Inr (k\<lparr>k_sched := s\<rparr>) \<and> kernel_ok L (remove1 q xs) (q # zs) (k\<lparr>k_sched := s\<rparr>) \<and>
    links_only (insert q (set xs)) ((pcbs (k_sched k))(q \<mapsto> f b)) (pcbs s) \<and>
    proc_table s = proc_table (k_sched k) \<and> current_process s = current_process (k_sched k)"
proof -
  let ?s = "k_sched k"
  let ?s1 = "?s\<lparr>pcbs := (pcbs ?s)(q \<mapsto> f b)\<rparr>"
  have sl: "same_links ?s ?s1" using same_links_upd [where f = f, OF b(1) f] .
  have k1: "kernel_ok L xs zs (k\<lparr>k_sched := ?s1\<rparr>)" by (rule kernel_ok_same_links [OF ok]) (use sl ok b in \<open>auto simp: kernel_ok_def\<close>)
  then have "lists_ok ?s1 xs zs" by (simp add: kernel_ok_def)
  then obtain s where s: "scheduler_mark_zombie q ?s1 = Inr s" "lists_ok s (remove1 q xs) (q # zs)"
    "links_only (insert q (set xs)) (pcbs ?s1) (pcbs s)" "current_process s = current_process ?s" "proc_table s = proc_table ?s"
    using scheduler_mark_zombie_rep [of ?s1 xs zs q "f b"] b by auto
  have "zombify q f k = Inr (k\<lparr>k_sched := s\<rparr>)" using b(1) s(1) by (simp add: zombify_def pcb_update_def lift_sched_def update_def)
  moreover have "kernel_ok L (remove1 q xs) (q # zs) (k\<lparr>k_sched := s\<rparr>)" using links_kernel(1) [OF k1 s(2)] s(3-5) by simp
  ultimately show ?thesis using s(3-5) by (intro exI [of _ s]) simp
qed

lemma abandon_zombify: "abandon q k = bindR (zombify q (\<lambda>p. p\<lparr>p_state := PROCESS_ZOMBIE\<rparr>) k) (\<lambda>k. Inr (0, k))"
  by (cases "pcb_update q (\<lambda>p. p\<lparr>p_state := PROCESS_ZOMBIE\<rparr>) k") (simp_all add: abandon_def zombify_def)

lemma process_create_creates:
  assumes ok: "kernel_ok L xs zs k" "fresh_pid (k_sched k)" and c: "process_create L name entry priority k = Inr (q, k1)" "q \<noteq> 0"
  shows "kernel_ok L (xs @ [q]) zs k1 \<and> created L q entry priority k k1"
proof -
  obtain r m where m: "kmalloc (k_heap k) sizeof_process (k_ram k) = Inr (r, m)"
    using c(1) by (cases "kmalloc (k_heap k) sizeof_process (k_ram k)") (auto simp: process_create_def)
  have r0: "r \<noteq> 0" using process_create_no_object [OF ok(1), of m name entry priority] m c by auto
  have ne: "free_set (k_pmm k) \<noteq> {}" using process_create_no_frame [OF ok(1) m r0, of name entry priority] c by auto
  show ?thesis using process_create_rest [OF ok m r0 ne, of name entry priority] c by (auto split: if_splits)
qed

lemma abandoned_reapable:
  assumes ok: "kernel_ok L xs [] k" "kernel_ok L (xs @ [q]) [] k1" and c: "created L q entry priority k k1" and q: "q \<noteq> 0"
    and pp: "current_pid k = Inr pp" "\<not> alive (k_sched k) pp"
  shows "\<exists>k2. abandon q k1 = Inr (0, k2) \<and> reapable L xs [q] k2 \<and> orphan (k_sched k2) q \<and>
    frames_of k2 q \<union> free_set (k_pmm k2) = free_set (k_pmm k) \<and> k_heap k2 = k_heap k1 \<and> k_ram k2 = k_ram k1 \<and>
    proc_table (k_sched k2) = proc_table (k_sched k1) \<and> current_process (k_sched k2) = current_process (k_sched k) \<and>
    (\<forall>p. p \<noteq> q \<longrightarrow> map_option (p_next_update (\<lambda>_. 0)) (pcbs (k_sched k2) p) = map_option (p_next_update (\<lambda>_. 0)) (pcbs (k_sched k) p))"
proof -
  obtain b where b: "owns L k1 q b" "free_set (k_pmm k) = proc_frames (k_ram k1) b \<union> free_set (k_pmm k1)"
    "current_pid k = Inr (p_parent_pid b)" using created_owns [OF c q] .
  have pb: "pcbs (k_sched k1) q = Some b" using b(1) by (simp add: owns_def)
  have xs: "q \<notin> set xs" using ok(2) by (auto simp: kernel_ok_def lists_ok_def run_queue_def)
  obtain s where s: "zombify q (\<lambda>p. p\<lparr>p_state := PROCESS_ZOMBIE\<rparr>) k1 = Inr (k1\<lparr>k_sched := s\<rparr>)" "kernel_ok L (remove1 q (xs @ [q])) [q] (k1\<lparr>k_sched := s\<rparr>)"
    "links_only (insert q (set (xs @ [q]))) ((pcbs (k_sched k1))(q \<mapsto> b\<lparr>p_state := PROCESS_ZOMBIE\<rparr>)) (pcbs s)"
    "proc_table s = proc_table (k_sched k1)" "current_process s = current_process (k_sched k1)"
    using zombify_spec [OF ok(2) pb q, of "\<lambda>p. p\<lparr>p_state := PROCESS_ZOMBIE\<rparr>"] by auto
  let ?k2 = "k1\<lparr>k_sched := s\<rparr>"
  obtain r where r: "pcbs s q = Some (b\<lparr>p_state := PROCESS_ZOMBIE, p_next := r\<rparr>)"
    using links_only_lookup(2) [OF s(3), of q] by auto
  have ot: "map_option (p_next_update (\<lambda>_. 0)) (pcbs s p) = map_option (p_next_update (\<lambda>_. 0)) (pcbs (k_sched k) p)" if "p \<noteq> q" for p
    using s(3) c that by (simp add: links_only_def created_def)
  have pf: "proc_frames m (b\<lparr>p_state := PROCESS_ZOMBIE, p_next := r\<rparr>) = proc_frames m b" for m by (simp add: proc_frames_def)
  have own: "owns L ?k2 q (b\<lparr>p_state := PROCESS_ZOMBIE, p_next := r\<rparr>)" using b(1) r by (simp add: owns_def pf)
  have cur: "current_process s = current_process (k_sched k)" "current_process (k_sched k) \<noteq> q"
    using c s(5) ok(1) q by (auto simp: created_def kernel_ok_def)
  have tb: "set (proc_table s) - {0} = insert q (set (proc_table (k_sched k)) - {0})" using c s(4) by (simp add: created_def)
  have "\<not> alive s pp"
  proof
    assume "alive s pp"
    then obtain p d where p: "pp \<noteq> 0" "p \<in> set (proc_table s) - {0}" "pcbs s p = Some d" "p_pid d = pp"
      "p_state d \<noteq> PROCESS_ZOMBIE" "p_state d \<noteq> PROCESS_DEAD" by (auto simp: alive_def)
    have pq: "p \<noteq> q" using p(3,5) r by auto
    note u = unlinked_eq [OF ot [OF pq]]
    obtain e where "pcbs (k_sched k) p = Some e" "p_pid e = p_pid d" "p_state e = p_state d" using u(2,3) p(3) by (cases "pcbs (k_sched k) p") auto
    then have "alive (k_sched k) pp" using p tb pq unfolding alive_def by auto
    then show False using pp(2) by simp
  qed
  then have orp: "orphan s q" using r pp(1) b(3) by (simp add: orphan_def)
  have "all_own L ?k2 {q}" using own by (auto simp: all_own_def)
  then have "reapable L xs [q] ?k2" using s(2) r cur xs by (simp add: reapable_def is_zombie_def remove1_append)
  moreover have "frames_of ?k2 q \<union> free_set (k_pmm ?k2) = free_set (k_pmm k)" using r b(2) by (simp add: frames_of_def pf)
  ultimately show ?thesis using s(1,4) orp cur ot by (intro exI [of _ ?k2]) (simp add: abandon_zombify)
qed

lemma create_abandon_reap_spec:
  assumes ok: "kernel_ok L xs [] k" "fresh_pid (k_sched k)" and pp: "current_pid k = Inr pp" "\<not> alive (k_sched k) pp"
    and c: "process_create L name entry priority k = Inr (q, k1)" "q \<noteq> 0"
  shows "\<exists>k2 k3. abandon q k1 = Inr (0, k2) \<and> scheduler_reap_zombies k2 = Inr k3 \<and> kernel_ok L xs [] k3 \<and>
    free_set (k_pmm k3) = free_set (k_pmm k) \<and> live (k_heap k3) (k_ram k3) = live (k_heap k) (k_ram k) \<and>
    set (proc_table (k_sched k3)) - {0} = set (proc_table (k_sched k)) - {0} \<and>
    current_process (k_sched k3) = current_process (k_sched k) \<and>
    (\<forall>p. map_option (p_next_update (\<lambda>_. 0)) (pcbs (k_sched k3) p) = map_option (p_next_update (\<lambda>_. 0)) (pcbs (k_sched k) p))"
proof -
  have cr: "kernel_ok L (xs @ [q]) [] k1" "created L q entry priority k k1" using process_create_creates [OF ok c] by simp_all
  obtain k2 where k2: "abandon q k1 = Inr (0, k2)" "reapable L xs [q] k2" "orphan (k_sched k2) q"
    "frames_of k2 q \<union> free_set (k_pmm k2) = free_set (k_pmm k)" "k_heap k2 = k_heap k1" "k_ram k2 = k_ram k1"
    "proc_table (k_sched k2) = proc_table (k_sched k1)" "current_process (k_sched k2) = current_process (k_sched k)"
    "\<forall>p. p \<noteq> q \<longrightarrow> map_option (p_next_update (\<lambda>_. 0)) (pcbs (k_sched k2) p) = map_option (p_next_update (\<lambda>_. 0)) (pcbs (k_sched k) p)"
    using abandoned_reapable [OF ok(1) cr c(2) pp] by (elim exE conjE) (rule that)
  have one: "filter (\<lambda>z. \<not> orphan (k_sched k2) z) [q] = []" "{z \<in> set [q]. orphan (k_sched k2) z} = {q}" using k2(3) by auto
  obtain k3 where k3: "scheduler_reap_zombies k2 = Inr k3" "reapable L xs [] k3" "released {q} {q} k2 k3"
    using reap_spec [OF k2(2)] unfolding one by auto
  obtain n where n: "pcbs (k_sched k) q = None" "live (k_heap k) (k_ram k) q = None" "live (k_heap k1) (k_ram k1) = (live (k_heap k) (k_ram k))(q \<mapsto> n)"
    "set (proc_table (k_sched k1)) - {0} = insert q (set (proc_table (k_sched k)) - {0})"
    using cr(2) unfolding created_def by (elim exE conjE) (rule that)
  have nt: "q \<notin> set (proc_table (k_sched k)) - {0}" using ok(1) n(1) by (auto simp: kernel_ok_def table_ok_def)
  have "free_set (k_pmm k3) = free_set (k_pmm k)" using k3(3) k2(4) by (simp add: released_def)
  moreover have "live (k_heap k3) (k_ram k3) = live (k_heap k) (k_ram k)"
    using k3(3) k2(5,6) n(2,3) by (auto simp: released_def fun_eq_iff restrict_map_def)
  moreover have "set (proc_table (k_sched k3)) - {0} = set (proc_table (k_sched k)) - {0}"
    using k3(3) k2(7) n(4) nt by (auto simp: released_def)
  moreover have "map_option (p_next_update (\<lambda>_. 0)) (pcbs (k_sched k3) p) = map_option (p_next_update (\<lambda>_. 0)) (pcbs (k_sched k) p)" for p
    using k3(3) k2(9) n(1) by (cases "p = q") (simp_all add: released_def)
  moreover have "current_process (k_sched k3) = current_process (k_sched k)" using k3(3) k2(8) by (simp add: released_def)
  ultimately show ?thesis using k2(1) k3(1,2) by (intro exI [of _ k2] exI [of _ k3]) (simp add: reapable_def)
qed

text \<open>
  C18: A process that is given up after its creation leaves nothing behind. When a process has been created
  and is then turned into a zombie - as \<open>process_create_from_elf\<close> does when loading fails - and its creator
  cannot claim it (the shell never can), the next run of \<open>scheduler_reap_zombies\<close> gives back exactly what
  \<open>process_create\<close> took: the same frames are free, the same heap objects are live, the same processes are in
  the table and on the queue, and their control blocks are as before.
\<close>

theorem create_abandon_reap:
  assumes ok: "kernel_ok L xs [] k" "fresh_pid (k_sched k)" and pp: "current_pid k = Inr pp" "\<not> alive (k_sched k) pp"
    and c: "process_create L name entry priority k = Inr (q, k1)" "q \<noteq> 0"
  shows "\<exists>k2 k3. abandon q k1 = Inr (0, k2) \<and> scheduler_reap_zombies k2 = Inr k3 \<and> kernel_ok L xs [] k3 \<and>
    free_set (k_pmm k3) = free_set (k_pmm k) \<and> live (k_heap k3) (k_ram k3) = live (k_heap k) (k_ram k) \<and>
    set (proc_table (k_sched k3)) - {0} = set (proc_table (k_sched k)) - {0} \<and>
    current_process (k_sched k3) = current_process (k_sched k) \<and>
    (\<forall>p. map_option (p_next_update (\<lambda>_. 0)) (pcbs (k_sched k3) p) = map_option (p_next_update (\<lambda>_. 0)) (pcbs (k_sched k) p))"
  using assms by (rule create_abandon_reap_spec)

section \<open>The timer tick\<close>

text \<open>The bytes that \<open>context_switch\<close> pushes, below the stack pointer; they are neither heap nor kernel page tables.\<close>

definition save_area :: "kernel \<Rightarrow> nat set" where
  "save_area k = {unat (r_esp (k_cpu k)) - 32..<unat (r_esp (k_cpu k))}"

definition stack_apart :: "layout \<Rightarrow> kernel \<Rightarrow> bool" where
  "stack_apart L k \<longleftrightarrow> 32 \<le> unat (r_esp (k_cpu k)) \<and> save_area k \<inter> heap_bytes (k_heap k) (k_ram k) = {} \<and>
     (\<forall>t \<in> pd_pages (k_ram k) (a_kernel_pd L). save_area k \<inter> page_bytes t = {})"

lemma disjoint_mono: "A \<inter> B = {} \<Longrightarrow> C \<subseteq> B \<Longrightarrow> A \<inter> C = {}"
  by blast

lemma push_agree:
  assumes "4 \<le> unat (r_esp c)" "X \<inter> {unat (r_esp c) - 4..<unat (r_esp c)} = {}"
  shows "\<exists>m'. push v (c, m) = (c\<lparr>r_esp := r_esp c - 4\<rparr>, m') \<and> agree X m' m"
proof -
  have u: "unat (r_esp c - 4 + of_nat j) = unat (r_esp c) - 4 + j" if "j < 4" for j
  proof -
    have "unat (r_esp c - 4) = unat (r_esp c) - 4" using assms(1) by (simp add: unat_sub_if')
    moreover have "unat (of_nat j :: u32) = j" using that by (intro unat_of_nat_u32) simp
    moreover have "unat (r_esp c) < 2 ^ 32" using unsigned_less [of "r_esp c"] by simp
    ultimately show ?thesis using that assms(1) by (simp add: unat_word_ariths)
  qed
  have "agree X (store32 (r_esp c - 4) v m) m"
    unfolding agree_def
  proof (intro allI impI)
    fix a :: u32 assume a: "unat a \<in> X"
    have "a \<noteq> r_esp c - 4 + of_nat j" if "j < 4" for j using u [OF that] a assms that by (auto simp: disjoint_iff)
    from this [of 0] this [of 1] this [of 2] this [of 3] show "store32 (r_esp c - 4) v m a = m a" by (simp add: store32_def)
  qed
  then show ?thesis by (simp add: push_def)
qed

lemma fold_push_agree:
  assumes "4 * length rs \<le> unat (r_esp c)" "X \<inter> {unat (r_esp c) - 4 * length rs..<unat (r_esp c)} = {}"
  shows "\<exists>m'. fold push_reg rs (c, m) = (c\<lparr>r_esp := r_esp c - 4 * of_nat (length rs)\<rparr>, m') \<and> agree X m' m"
  using assms
proof (induction rs arbitrary: c m)
  case (Cons r rs)
  let ?c = "c\<lparr>r_esp := r_esp c - 4\<rparr>"
  have u: "unat (r_esp ?c) = unat (r_esp c) - 4" using Cons.prems(1) by (simp add: unat_sub_if')
  have "X \<inter> {unat (r_esp c) - 4..<unat (r_esp c)} = {}" by (rule disjoint_mono [OF Cons.prems(2)]) auto
  then obtain m1 where m1: "push (r c) (c, m) = (?c, m1)" "agree X m1 m" using push_agree [of c X "r c" m] Cons.prems(1) by auto
  have "X \<inter> {unat (r_esp ?c) - 4 * length rs..<unat (r_esp ?c)} = {}" unfolding u by (rule disjoint_mono [OF Cons.prems(2)]) auto
  moreover have "4 * length rs \<le> unat (r_esp ?c)" unfolding u using Cons.prems(1) by simp
  ultimately obtain m2 where m2: "fold push_reg rs (?c, m1) = (?c\<lparr>r_esp := r_esp ?c - 4 * of_nat (length rs)\<rparr>, m2)" "agree X m2 m1"
    using Cons.IH [of ?c m1] by blast
  have "fold push_reg (r # rs) (c, m) = (c\<lparr>r_esp := r_esp c - 4 * of_nat (length (r # rs))\<rparr>, m2)"
    using m1(1) m2(1) by (simp add: push_reg_def [of r] algebra_simps)
  then show ?case using agree_trans [OF m2(2) m1(2)] by blast
qed simp

lemma save_context_agree:
  assumes "32 \<le> unat (r_esp c)" "X \<inter> {unat (r_esp c) - 32..<unat (r_esp c)} = {}"
  shows "\<exists>m'. save_context (c, m) = (c\<lparr>r_esp := r_esp c - 32\<rparr>, m') \<and> agree X m' m"
proof -
  have e: "save_context (c, m) = fold push_reg [r_eflags, r_eax, r_ecx, r_edx, r_ebx, r_ebp, r_esi, r_edi] (c, m)"
    by (simp add: save_context_def)
  show ?thesis unfolding e
    using fold_push_agree [where rs = "[r_eflags, r_eax, r_ecx, r_edx, r_ebx, r_ebp, r_esi, r_edi]" and c = c and X = X] assms by simp
qed

lemma kernel_ok_ram:
  assumes ok: "kernel_ok L xs zs k" and ag: "agree (heap_bytes (k_heap k) (k_ram k)) m (k_ram k)"
    "agree (\<Union> (page_bytes ` pd_pages (k_ram k) (a_kernel_pd L))) m (k_ram k)"
  shows "kernel_ok L xs zs (k\<lparr>k_ram := m\<rparr>)"
proof -
  have m: "mem_ok (a_kernel_pd L) (k_heap k) (free_set (k_pmm k)) (k_ram k)" "heap_ok (k_heap k) (k_ram k)"
    using ok by (simp_all add: kernel_ok_def mem_ok_def)
  note h = heap_agree [OF m(2) ag(1)] and p = mem_ok_pd_agree [OF m(1) ag(2)]
  show ?thesis using ok h p by (simp add: kernel_ok_def mem_ok_def live_def)
qed

text \<open>\<open>do_switch\<close>: what the two control blocks, the address space and the kernel stack of the processor become.\<close>

definition preempted :: "kernel \<Rightarrow> process \<Rightarrow> process" where
  "preempted k b = (if p_state b = PROCESS_RUNNING then b\<lparr>p_state := PROCESS_READY\<rparr> else b)\<lparr>p_esp := r_esp (k_cpu k) - 32\<rparr>"

definition dispatched :: "process \<Rightarrow> process" where
  "dispatched n = n\<lparr>p_state := PROCESS_RUNNING, p_ticks_remaining := p_priority n\<rparr>"

definition switched :: "u32 \<Rightarrow> u32 \<Rightarrow> kernel \<Rightarrow> kernel \<Rightarrow> bool" where
  "switched c nxt k k' \<longleftrightarrow> current_process (k_sched k') = nxt \<and> k_pmm k' = k_pmm k \<and> k_heap k' = k_heap k \<and>
     pcbs (k_sched k') = (pcbs (k_sched k))(c := map_option (preempted k) (pcbs (k_sched k) c), nxt := map_option dispatched (pcbs (k_sched k) nxt)) \<and>
     (\<forall>n. pcbs (k_sched k) nxt = Some n \<longrightarrow> cr3 (k_mmu k') = p_cr3 n \<and>
        k_gdt k' = tss_set_kernel_stack (p_kernel_stack_top n) (k_gdt k) \<and>
        k_cpu k' = fst (restore_context (p_esp n) (fst (save_context (k_cpu k, k_ram k)), k_ram k')))"

lemma restore_context_mem: "restore_context e (c, m) = (fst (restore_context e (c, m)), m)"
  by (simp add: restore_context_def pop_def Let_def)

lemma load_cr3: "(if p = cr3 (k_mmu k) then k else k\<lparr>k_mmu := (k_mmu k)\<lparr>cr3 := p\<rparr>\<rparr>) = k\<lparr>k_mmu := (k_mmu k)\<lparr>cr3 := p\<rparr>\<rparr>"
  by simp

lemma do_switch_spec:
  assumes ok: "kernel_ok L xs zs k" and c: "current_process (k_sched k) = c" "pcbs (k_sched k) c = Some b"
    and n: "pcbs (k_sched k) nxt = Some n" "nxt \<noteq> c" and st: "stack_apart L k"
  shows "\<exists>k'. do_switch nxt k = Inr k' \<and> kernel_ok L xs zs k' \<and> switched c nxt k k'"
proof -
  let ?X = "heap_bytes (k_heap k) (k_ram k) \<union> \<Union> (page_bytes ` pd_pages (k_ram k) (a_kernel_pd L))"
  have "?X \<inter> {unat (r_esp (k_cpu k)) - 32..<unat (r_esp (k_cpu k))} = {}" using st unfolding stack_apart_def save_area_def by blast
  then obtain m where m: "save_context (k_cpu k, k_ram k) = ((k_cpu k)\<lparr>r_esp := r_esp (k_cpu k) - 32\<rparr>, m)" "agree ?X m (k_ram k)"
    using save_context_agree [of "k_cpu k" ?X "k_ram k"] st by (auto simp: stack_apart_def)
  define cp where "cp = fst (restore_context (p_esp n) ((k_cpu k)\<lparr>r_esp := r_esp (k_cpu k) - 32\<rparr>, m))"
  have rs: "restore_context (p_esp n) ((k_cpu k)\<lparr>r_esp := r_esp (k_cpu k) - 32\<rparr>, m) = (cp, m)"
    using restore_context_mem unfolding cp_def by blast
  define s where "s = (k_sched k)\<lparr>pcbs := (pcbs (k_sched k))(c \<mapsto> preempted k b, nxt \<mapsto> dispatched n), current_process := nxt\<rparr>"
  let ?k' = "k\<lparr>k_gdt := tss_set_kernel_stack (p_kernel_stack_top n) (k_gdt k), k_sched := s,
      k_mmu := (k_mmu k)\<lparr>cr3 := p_cr3 n\<rparr>, k_cpu := cp, k_ram := m\<rparr>"
  have e: "do_switch nxt k = Inr ?k'"
    using c n m(1) rs unfolding do_switch_def context_switch_def load_cr3
    by (simp add: Let_def pcb_of_def pcb_update_def lift_sched_def update_def deref_def process_set_current_def
        process_current_def s_def preempted_def dispatched_def fun_upd_twist [of nxt c])
  have sl: "same_links (k_sched k) s" using c n by (simp add: same_links_def s_def preempted_def dispatched_def)
  have k0: "kernel_ok L xs zs (k\<lparr>k_ram := m\<rparr>)" using m(2) by (intro kernel_ok_ram [OF ok]) (auto elim: agree_subset)
  have "kernel_ok L xs zs ?k'" by (rule kernel_ok_same_links [OF k0]) (use sl in \<open>simp_all add: s_def\<close>)
  moreover have "switched c nxt k ?k'" using c n m(1) by (simp add: switched_def s_def cp_def)
  ultimately show ?thesis using e by blast
qed

lemma pick_spec_cong:
  assumes "\<And>x. x \<in> set xs \<Longrightarrow> r x = r' x"
  shows "pick_spec r xs = pick_spec r' xs"
proof -
  have "dropWhile (\<lambda>x. \<not> r x) xs = dropWhile (\<lambda>x. \<not> r' x) xs" "takeWhile (\<lambda>x. \<not> r x) xs = takeWhile (\<lambda>x. \<not> r' x) xs"
    using assms by (auto cong: dropWhile_cong takeWhile_cong)
  then show ?thesis unfolding pick_spec_def by (simp only:)
qed

lemma pick_spec_member: "fst (pick_spec r xs) \<noteq> 0 \<Longrightarrow> fst (pick_spec r xs) \<in> set xs" "set (snd (pick_spec r xs)) \<subseteq> set xs"
proof -
  have d: "x \<in> set xs" if "x \<in> set (dropWhile (\<lambda>x. \<not> r x) xs)" for x using that by (rule set_dropWhileD)
  have t: "x \<in> set xs" if "x \<in> set (takeWhile (\<lambda>x. \<not> r x) xs)" for x using that set_takeWhileD by fastforce
  have "(fst (pick_spec r xs) \<noteq> 0 \<longrightarrow> fst (pick_spec r xs) \<in> set xs) \<and> set (snd (pick_spec r xs)) \<subseteq> set xs"
  proof (cases "dropWhile (\<lambda>x. \<not> r x) xs")
    case Nil
    show ?thesis unfolding pick_spec_def Nil by simp
  next
    case (Cons p zs)
    then have "insert p (set zs) \<subseteq> set xs" using d by auto
    then show ?thesis unfolding pick_spec_def Cons using t by auto
  qed
  then show "fst (pick_spec r xs) \<noteq> 0 \<Longrightarrow> fst (pick_spec r xs) \<in> set xs" "set (snd (pick_spec r xs)) \<subseteq> set xs" by simp_all
qed

lemma pick_spec_ready:
  assumes "\<exists>x \<in> set xs. r x"
  shows "fst (pick_spec r xs) \<in> set xs \<and> r (fst (pick_spec r xs))"
proof -
  have ne: "dropWhile (\<lambda>x. \<not> r x) xs \<noteq> []" using assms by (auto simp: dropWhile_eq_Nil_conv)
  then obtain p zs where d: "dropWhile (\<lambda>x. \<not> r x) xs = p # zs" by (cases "dropWhile (\<lambda>x. \<not> r x) xs") auto
  have "r p" using hd_dropWhile [OF ne] d by simp
  moreover have "p \<in> set xs" using set_dropWhileD [of p "\<lambda>x. \<not> r x" xs] d by simp
  ultimately show ?thesis unfolding pick_spec_def d by simp
qed

lemma lift_pick_spec:
  assumes ok: "kernel_ok L xs zs k"
  shows "\<exists>s. lift_pick k = Inr (fst (pick_spec (is_ready (k_sched k)) xs), k\<lparr>k_sched := s\<rparr>) \<and>
    kernel_ok L (snd (pick_spec (is_ready (k_sched k)) xs)) zs (k\<lparr>k_sched := s\<rparr>) \<and> queue_step (set xs) (k_sched k) s"
proof -
  let ?p = "pick_spec (is_ready (k_sched k)) xs"
  have l: "run_queue (k_sched k) xs" "zombies (k_sched k) zs" "set xs \<inter> set zs = {}" "table_ok (k_sched k)"
    using ok by (auto simp: kernel_ok_def lists_ok_def)
  obtain s where s: "pick_next (k_sched k) = Inr (fst ?p, s)" "run_queue s (snd ?p)" "queue_step (set xs) (k_sched k) s"
    using pick_next_rep [OF l(1)] by (elim exE conjE) (rule that)
  have st: "links_only (set xs) (pcbs (k_sched k)) (pcbs s)" "proc_table s = proc_table (k_sched k)" "current_process s = current_process (k_sched k)"
    using s(3) by (simp_all add: queue_step_def)
  have "set (snd ?p) \<inter> set zs = {}" using l(3) pick_spec_member(2) by fast
  moreover have "zombies s zs" using zombies_step [OF s(3), of zs] l(2,3) by (simp add: Int_commute)
  ultimately have "lists_ok s (snd ?p) zs" using s(2) by (simp add: lists_ok_def)
  from links_kernel(1) [OF ok this st] show ?thesis using s(1,3) by (intro exI [of _ s]) (simp add: lift_pick_def)
qed

text \<open>Who runs after a tick, and the order of the queue.\<close>

definition expired :: "kernel \<Rightarrow> u32 list \<Rightarrow> bool" where
  "expired k xs \<longleftrightarrow> xs \<noteq> [] \<and> (\<exists>b. pcbs (k_sched k) (current_process (k_sched k)) = Some b \<and> p_ticks_remaining b \<le> 1)"

definition next_turn :: "kernel \<Rightarrow> u32 list \<Rightarrow> u32 \<times> u32 list" where
  "next_turn k xs =
     (let c = current_process (k_sched k); (p, ys) = pick_spec (is_ready (wake_all xs (k_sched k))) xs
      in if expired k xs then (if p = 0 then c else p, ys) else (c, xs))"

lemma wake_all_links: "same_links s (wake_all xs s)"
proof -
  have "map_option (\<lambda>b. (p_next b, p_pid b)) (map_option wake x) = map_option (\<lambda>b. (p_next b, p_pid b)) x" for x
    by (cases x) (simp_all add: wake_def Let_def)
  then show ?thesis by (simp add: same_links_def wake_all_def)
qed

text \<open>The first half of the tick: zombies, sleepers and the quantum of the running process.\<close>

definition tick_down :: "process \<Rightarrow> process" where
  "tick_down b = (if p_ticks_remaining b > 0 then b\<lparr>p_ticks_remaining := p_ticks_remaining b - 1\<rparr> else b)"

definition ticked :: "u32 list \<Rightarrow> sched \<Rightarrow> sched" where
  "ticked xs s = (let s' = wake_all xs s; c = current_process s in s'\<lparr>pcbs := (pcbs s')(c := map_option tick_down (pcbs s' c))\<rparr>)"

lemma tick_down_simps [simp]: "p_state (tick_down b) = p_state b" "p_priority (tick_down b) = p_priority b"
  by (simp_all add: tick_down_def)

lemma ticked_current [simp]: "current_process (ticked xs s) = current_process s"
  by (simp add: ticked_def wake_all_def Let_def)

lemma ticked_links: "same_links s (ticked xs s)"
proof -
  have "same_links (wake_all xs s) (ticked xs s)"
    by (auto simp: same_links_def ticked_def Let_def tick_down_def option.map_comp comp_def intro!: option.map_cong0)
  then show ?thesis using wake_all_links same_links_trans by blast
qed

lemma ticked_ready: "is_ready (ticked xs s) = is_ready (wake_all xs s)"
proof
  fix x show "is_ready (ticked xs s) x = is_ready (wake_all xs s) x"
    by (cases "pcbs (wake_all xs s) x") (auto simp: is_ready_def ticked_def Let_def)
qed

lemma ticked_pcb:
  assumes "pcbs s (current_process s) = Some b"
  shows "\<exists>b'. pcbs (ticked xs s) (current_process s) = Some b' \<and>
    p_ticks_remaining b' = (if p_ticks_remaining b > 0 then p_ticks_remaining b - 1 else 0) \<and> p_priority b' = p_priority b"
proof -
  have "\<exists>w. pcbs (wake_all xs s) (current_process s) = Some w \<and> p_ticks_remaining w = p_ticks_remaining b \<and> p_priority w = p_priority b"
    using assms by (auto simp: wake_all_def wake_def Let_def)
  then obtain w where w: "pcbs (wake_all xs s) (current_process s) = Some w" "p_ticks_remaining w = p_ticks_remaining b" "p_priority w = p_priority b"
    by blast
  then show ?thesis by (intro exI [of _ "tick_down w"]) (simp add: ticked_def Let_def tick_down_def word_gt_0)
qed

text \<open>The second half: the choice of the process that runs next.\<close>

lemma scheduler_tick_eq:
  assumes r: "scheduler_reap_zombies k = Inr k1" and c: "current_process (k_sched k) \<noteq> 0" "current_process (k_sched k1) = current_process (k_sched k)"
    and ok: "kernel_ok L xs zs k1"
  shows "scheduler_tick k =
    (let cur = current_process (k_sched k); k2 = k1\<lparr>k_sched := ticked xs (k_sched k1)\<rparr>
     in bindR (pcb_of cur k2) (\<lambda>c. if p_ticks_remaining c = 0 \<and> xs \<noteq> [] then
          bindR (lift_pick k2) (\<lambda>(nxt, k). if nxt \<noteq> 0 \<and> nxt \<noteq> cur then do_switch nxt k
            else pcb_update cur (\<lambda>p. p\<lparr>p_ticks_remaining := p_priority p\<rparr>) k)
        else Inr k2))"
proof -
  let ?c = "current_process (k_sched k)"
  let ?w = "wake_all xs (k_sched k1)"
  have q: "run_queue (k_sched k1) xs" using ok by (simp add: kernel_ok_def lists_ok_def)
  note w = wake_queue [OF q]
  have "pcbs (k_sched k1) ?c \<noteq> None" using ok c by (simp add: kernel_ok_def)
  then obtain b where b: "pcbs ?w ?c = Some b" using same_links_lists(3) [OF wake_all_links, of xs "k_sched k1" ?c] by auto
  have t: "ticked xs (k_sched k1) = ?w\<lparr>pcbs := (pcbs ?w)(?c \<mapsto> tick_down b)\<rparr>" using b c(2) by (simp add: ticked_def Let_def)
  have d: "(if p_ticks_remaining b > 0 then pcb_update ?c (\<lambda>p. p\<lparr>p_ticks_remaining := p_ticks_remaining p - 1\<rparr>) (k1\<lparr>k_sched := ?w\<rparr>)
      else Inr (k1\<lparr>k_sched := ?w\<rparr>)) = Inr (k1\<lparr>k_sched := ticked xs (k_sched k1)\<rparr>)"
    unfolding t using b by (auto simp: tick_down_def pcb_update_def lift_sched_def update_def fun_upd_idem)
  have z: "0 < queue_size (ticked xs (k_sched k1)) \<longleftrightarrow> xs \<noteq> []"
  proof -
    have "queue_size (ticked xs (k_sched k1)) = queue_size (k_sched k1)" using ticked_links [of "k_sched k1" xs] by (simp add: same_links_def)
    moreover have "unat (queue_size (k_sched k1)) = length xs" by (rule run_queue_size [OF q])
    ultimately show ?thesis by (auto simp: word_less_nat_alt)
  qed
  have p: "pcb_of ?c (k1\<lparr>k_sched := ?w\<rparr>) = Inr b" using b by (simp add: pcb_of_def deref_eq)
  show ?thesis unfolding scheduler_tick_def process_current_def Let_def
    using c(1) r w(1) p d z by (simp add: lift_sched_def)
qed

lemma used_up: "(if 0 < x then x - 1 else 0) = 0 \<longleftrightarrow> x \<le> (1 :: u32)"
proof -
  have "x \<le> 1 \<longleftrightarrow> x = 0 \<or> x = 1" by (auto simp: word_le_nat_alt word_unat_eq_iff)
  then show ?thesis by (auto simp: word_gt_0)
qed

text \<open>
  What a change of turn from \<open>c\<close> to \<open>n\<close> makes of the control block at \<open>x\<close>, and what a whole tick makes of it. Links
  aside, nothing else of the block changes.
\<close>

definition turned :: "kernel \<Rightarrow> u32 \<Rightarrow> u32 \<Rightarrow> u32 \<Rightarrow> process \<Rightarrow> process" where
  "turned k c n x b =
     (if n = c then (if x = c then b\<lparr>p_ticks_remaining := p_priority b\<rparr> else b)
      else if x = c then preempted k b else if x = n then dispatched b else b)"

definition after_tick :: "kernel \<Rightarrow> u32 list \<Rightarrow> u32 \<Rightarrow> process \<Rightarrow> process" where
  "after_tick k xs x b =
     (let c = current_process (k_sched k);
          b = (if x \<in> set xs then wake b else b);
          b = (if x = c then tick_down b else b)
      in if expired k xs then turned k c (fst (next_turn k xs)) x b else b)"

abbreviation "unlinked \<equiv> p_next_update (\<lambda>_. 0)"

lemma unlinked_commutes:
  "unlinked (wake b) = wake (unlinked b)" "unlinked (tick_down b) = tick_down (unlinked b)"
  "unlinked (turned k c n x b) = turned k c n x (unlinked b)"
  by (simp_all add: wake_def tick_down_def turned_def preempted_def dispatched_def Let_def)

lemma turned_cong: "k_cpu k' = k_cpu k \<Longrightarrow> turned k' c n x b = turned k c n x b"
  by (simp add: turned_def preempted_def)

lemma ticked_pcbs:
  "pcbs (ticked xs s) x = map_option (\<lambda>b. let b = (if x \<in> set xs then wake b else b) in if x = current_process s then tick_down b else b) (pcbs s x)"
  by (cases "pcbs s x") (auto simp: ticked_def wake_all_def Let_def)

definition take_turn :: "u32 \<Rightarrow> u32 \<Rightarrow> kernel \<Rightarrow> kernel res" where
  "take_turn cur nxt k = (if nxt \<noteq> 0 \<and> nxt \<noteq> cur then do_switch nxt k
     else pcb_update cur (\<lambda>p. p\<lparr>p_ticks_remaining := p_priority p\<rparr>) k)"

lemma take_turn_spec:
  assumes ok: "kernel_ok L xs zs k" and c: "current_process (k_sched k) = c" "c \<noteq> 0" and st: "stack_apart L k"
    and n: "nxt \<noteq> 0 \<Longrightarrow> pcbs (k_sched k) nxt \<noteq> None"
  shows "\<exists>k' b'. take_turn c nxt k = Inr k' \<and> kernel_ok L xs zs k' \<and>
    current_process (k_sched k') = (if nxt = 0 then c else nxt) \<and> pcbs (k_sched k') (if nxt = 0 then c else nxt) = Some b' \<and>
    p_ticks_remaining b' = p_priority b' \<and> k_pmm k' = k_pmm k \<and>
    (\<forall>x. pcbs (k_sched k') x = map_option (turned k c (if nxt = 0 then c else nxt) x) (pcbs (k_sched k) x))"
proof -
  obtain b where b: "pcbs (k_sched k) c = Some b" using ok c by (auto simp: kernel_ok_def)
  show ?thesis
  proof (cases "nxt \<noteq> 0 \<and> nxt \<noteq> c")
    case True
    then obtain n where n: "pcbs (k_sched k) nxt = Some n" using n by blast
    obtain k' where k': "do_switch nxt k = Inr k'" "kernel_ok L xs zs k'" "switched c nxt k k'"
      using do_switch_spec [OF ok c(1) b n _ st] True by blast
    have p: "pcbs (k_sched k') nxt = Some (dispatched n)" using k'(3) n by (simp add: switched_def)
    have t: "pcbs (k_sched k') x = map_option (turned k c nxt x) (pcbs (k_sched k) x)" for x
      using k'(3) True by (cases "pcbs (k_sched k) x") (auto simp: switched_def turned_def)
    have "(if nxt = 0 then c else nxt) = nxt" "take_turn c nxt k = Inr k'" "current_process (k_sched k') = nxt" "k_pmm k' = k_pmm k"
      "p_ticks_remaining (dispatched n) = p_priority (dispatched n)"
      using k'(1,3) True by (simp_all add: take_turn_def switched_def dispatched_def)
    then show ?thesis using k'(2) p t by auto
  next
    case False
    let ?b = "b\<lparr>p_ticks_remaining := p_priority b\<rparr>"
    let ?k = "k\<lparr>k_sched := (k_sched k)\<lparr>pcbs := (pcbs (k_sched k))(c \<mapsto> ?b)\<rparr>\<rparr>"
    have "take_turn c nxt k = Inr ?k" using False b by (auto simp: take_turn_def pcb_update_def lift_sched_def update_def)
    moreover have "kernel_ok L xs zs ?k" by (rule kernel_ok_same_links [OF ok]) (use b c in \<open>simp_all add: same_links_def\<close>)
    moreover have "(if nxt = 0 then c else nxt) = c" using False by auto
    moreover have "pcbs (k_sched ?k) x = map_option (turned k c c x) (pcbs (k_sched k) x)" for x
      using b by (cases "pcbs (k_sched k) x") (auto simp: turned_def)
    ultimately show ?thesis using c by (intro exI [of _ ?k] exI [of _ ?b]) simp
  qed
qed

lemma released_ready:
  assumes r: "released P R k k1" and x: "\<forall>x \<in> set xs. x \<notin> R"
  shows "pick_spec (is_ready (wake_all xs (k_sched k1))) xs = pick_spec (is_ready (wake_all xs (k_sched k))) xs"
proof (rule pick_spec_cong)
  fix y assume y: "y \<in> set xs"
  have u: "map_option (p_next_update (\<lambda>_. 0)) (pcbs (k_sched k1) y) = map_option (p_next_update (\<lambda>_. 0)) (pcbs (k_sched k) y)"
    using r x y by (simp add: released_def)
  have "map_option (\<lambda>b. p_state (wake b)) (pcbs (k_sched k1) y) = map_option (\<lambda>b. p_state (wake b)) (pcbs (k_sched k) y)"
    by (rule unlinked_field [OF u]) (simp add: wake_def Let_def)
  moreover have "is_ready (wake_all xs s) y \<longleftrightarrow> map_option (\<lambda>b. p_state (wake b)) (pcbs s y) = Some PROCESS_READY" for s
    using y by (auto simp: is_ready_def wake_all_def split: option.splits)
  ultimately show "is_ready (wake_all xs (k_sched k1)) y = is_ready (wake_all xs (k_sched k)) y" by (simp only:)
qed

lemma released_stack:
  assumes r: "released P R k k1" and ok: "kernel_ok L xs zs k" and st: "stack_apart L k"
  shows "stack_apart L k1"
proof -
  have m: "mem_ok (a_kernel_pd L) (k_heap k) (free_set (k_pmm k)) (k_ram k)" using ok by (simp add: kernel_ok_def)
  have "agree (\<Union> (page_bytes ` pd_pages (k_ram k) (a_kernel_pd L))) (k_ram k1) (k_ram k)"
  proof (rule agree_subset)
    show "agree (- heap_bytes (k_heap k) (k_ram k)) (k_ram k1) (k_ram k)" using r by (simp add: released_def)
    show "\<Union> (page_bytes ` pd_pages (k_ram k) (a_kernel_pd L)) \<subseteq> - heap_bytes (k_heap k) (k_ram k)" using m unfolding mem_ok_def by blast
  qed
  note p = mem_ok_pd_agree(2) [OF m this]
  obtain m' p' s' where "k1 = k\<lparr>k_ram := m', k_pmm := p', k_sched := s'\<rparr>" using r unfolding released_def by (elim conjE) (rule rest_sameE)
  then have c: "k_cpu k1 = k_cpu k" by simp
  have h: "heap_bytes (k_heap k1) (k_ram k1) = heap_bytes (k_heap k) (k_ram k)" using r by (simp add: released_def)
  show ?thesis using st unfolding stack_apart_def save_area_def c p h .
qed

lemma released_cpu: "released P R k k1 \<Longrightarrow> k_cpu k1 = k_cpu k"
  unfolding released_def by (elim conjE rest_sameE) simp

lemma tick_blocks:
  assumes r: "released P {z \<in> Z. orphan (k_sched k) z} k k1"
  shows "map_option unlinked (pcbs (k_sched (k1\<lparr>k_sched := ticked xs (k_sched k1)\<rparr>)) x) =
    (if x \<in> Z \<and> orphan (k_sched k) x then None
     else map_option (\<lambda>b. unlinked (let b = (if x \<in> set xs then wake b else b) in
       if x = current_process (k_sched k) then tick_down b else b)) (pcbs (k_sched k) x))"
proof -
  let ?t = "\<lambda>b. let b = (if x \<in> set xs then wake b else b) in if x = current_process (k_sched k) then tick_down b else b"
  have c: "current_process (k_sched k1) = current_process (k_sched k)" using r by (simp add: released_def)
  have u: "unlinked (?t b) = ?t (unlinked b)" for b by (simp add: Let_def unlinked_commutes)
  have "map_option unlinked (pcbs (ticked xs (k_sched k1)) x) = map_option ?t (map_option unlinked (pcbs (k_sched k1) x))"
    unfolding ticked_pcbs c by (simp only: option.map_comp comp_def u)
  also have "map_option unlinked (pcbs (k_sched k1) x) = (if x \<in> Z \<and> orphan (k_sched k) x then None else map_option unlinked (pcbs (k_sched k) x))"
    using r by (simp add: released_def)
  also have "map_option ?t \<dots> = (if x \<in> Z \<and> orphan (k_sched k) x then None else map_option (\<lambda>b. unlinked (?t b)) (pcbs (k_sched k) x))"
    by (simp only: option.map_comp comp_def u if_distrib [of "map_option ?t"] option.map)
  finally show ?thesis by simp
qed

text \<open>
  C15: The timer tick schedules. If the zombies can be reaped and the stack of the running process has room
  for a context, \<open>scheduler_tick\<close> returns; the orphaned zombies are gone and their frames free, and the kernel
  invariant holds. If the quantum of the running process is used up, the first ready process of the queue runs next
  with a full quantum, the queue is rotated past it, and the running process goes on (also with a full quantum) only if
  no other is ready; otherwise the running process goes on with one tick less. Every control block is, links aside,
  exactly what \<open>after_tick\<close> makes of it: on every tick a blocked process on the queue has one tick less to sleep and is
  made ready when none is left, the running process has one tick less of its quantum, and at a switch the old process
  is marked ready with its stack pointer saved and the new one running. All other processes are as before.
\<close>

theorem tick_schedules:
  assumes r: "reapable L xs zs k" and c: "current_process (k_sched k) \<noteq> 0" "pcbs (k_sched k) (current_process (k_sched k)) = Some b"
    and st: "stack_apart L k"
  shows "\<exists>k' b'. scheduler_tick k = Inr k' \<and>
    kernel_ok L (snd (next_turn k xs)) (filter (\<lambda>z. \<not> orphan (k_sched k) z) zs) k' \<and>
    current_process (k_sched k') = fst (next_turn k xs) \<and>
    pcbs (k_sched k') (fst (next_turn k xs)) = Some b' \<and>
    p_ticks_remaining b' = (if expired k xs then p_priority b' else if p_ticks_remaining b = 0 then 0 else p_ticks_remaining b - 1) \<and>
    free_set (k_pmm k') = \<Union> (frames_of k ` {z \<in> set zs. orphan (k_sched k) z}) \<union> free_set (k_pmm k) \<and>
    (\<forall>x. map_option unlinked (pcbs (k_sched k') x) =
      (if x \<in> set zs \<and> orphan (k_sched k) x then None else map_option (\<lambda>b. unlinked (after_tick k xs x b)) (pcbs (k_sched k) x)))"
proof -
  let ?c = "current_process (k_sched k)" and ?zs = "filter (\<lambda>z. \<not> orphan (k_sched k) z) zs"
  obtain k1 where k1: "scheduler_reap_zombies k = Inr k1" "reapable L xs ?zs k1" "released (set zs) {z \<in> set zs. orphan (k_sched k) z} k k1"
    using reap_spec [OF r] by (elim exE conjE) (rule that)
  have ok: "kernel_ok L xs zs k" "kernel_ok L xs ?zs k1" using r k1(2) by (simp_all add: reapable_def)
  have c1: "current_process (k_sched k1) = ?c" using k1(3) by (simp add: released_def)
  have cz: "?c \<notin> set zs" using r by (simp add: reapable_def)
  have u: "map_option (p_next_update (\<lambda>_. 0)) (pcbs (k_sched k1) ?c) = map_option (p_next_update (\<lambda>_. 0)) (pcbs (k_sched k) ?c)"
    using k1(3) cz by (simp add: released_def)
  obtain b1 where b1: "pcbs (k_sched k1) ?c = Some b1" "p_ticks_remaining b1 = p_ticks_remaining b"
    using unlinked_field [OF u, of p_ticks_remaining] c(2) by auto
  let ?k2 = "k1\<lparr>k_sched := ticked xs (k_sched k1)\<rparr>"
  obtain b2 where b2: "pcbs (ticked xs (k_sched k1)) ?c = Some b2"
    "p_ticks_remaining b2 = (if p_ticks_remaining b > 0 then p_ticks_remaining b - 1 else 0)"
    using ticked_pcb [of "k_sched k1" b1 xs] b1 c1 by auto
  have ok2: "kernel_ok L xs ?zs ?k2"
    by (rule kernel_ok_same_links [OF ok(2)]) (use ticked_links b2(1) c1 in auto)
  have ex: "p_ticks_remaining b2 = 0 \<and> xs \<noteq> [] \<longleftrightarrow> expired k xs"
    using c(2) b2(2) by (auto simp: expired_def used_up)
  have "\<forall>x \<in> set xs. x \<notin> {z \<in> set zs. orphan (k_sched k) z}" using ok(1) by (auto simp: kernel_ok_def lists_ok_def)
  note rd = released_ready [OF k1(3) this]
  have fs: "free_set (k_pmm k1) = \<Union> (frames_of k ` {z \<in> set zs. orphan (k_sched k) z}) \<union> free_set (k_pmm k)"
    using k1(3) by (simp add: released_def)
  note te = scheduler_tick_eq [OF k1(1) c(1) c1 ok(2)]
  let ?t = "\<lambda>x b. let b = (if x \<in> set xs then wake b else b) in if x = ?c then tick_down b else b"
  have tk: "map_option unlinked (pcbs (k_sched ?k2) x) =
    (if x \<in> set zs \<and> orphan (k_sched k) x then None else map_option (\<lambda>b. unlinked (?t x b)) (pcbs (k_sched k) x))" for x
    by (rule tick_blocks [OF k1(3)])
  show ?thesis
  proof (cases "expired k xs")
    case False
    then have at: "after_tick k xs x b = ?t x b" for x b by (simp add: after_tick_def Let_def)
    have "scheduler_tick k = Inr ?k2" "next_turn k xs = (?c, xs)"
      using False te b2(1) ex by (auto simp: Let_def pcb_of_def deref_eq next_turn_def split: prod.splits)
    then show ?thesis using ok2 c1 b2 fs False tk unfolding at by (intro exI [of _ ?k2] exI [of _ b2]) (simp add: word_gt_0)
  next
    case True
    let ?ps = "pick_spec (is_ready (wake_all xs (k_sched k))) xs"
    have pk: "pick_spec (is_ready (k_sched ?k2)) xs = ?ps" using rd by (simp add: ticked_ready)
    obtain s where s: "lift_pick ?k2 = Inr (fst ?ps, ?k2\<lparr>k_sched := s\<rparr>)" "kernel_ok L (snd ?ps) ?zs (?k2\<lparr>k_sched := s\<rparr>)"
      "queue_step (set xs) (k_sched ?k2) s" using lift_pick_spec [OF ok2] unfolding pk by (elim exE conjE) (rule that)
    have nt: "next_turn k xs = (if fst ?ps = 0 then ?c else fst ?ps, snd ?ps)" using True by (simp add: next_turn_def case_prod_beta Let_def)
    have cs: "current_process s = ?c" using s(3) c1 by (simp add: queue_step_def)
    obtain k' b' where k': "take_turn ?c (fst ?ps) (?k2\<lparr>k_sched := s\<rparr>) = Inr k'" "kernel_ok L (snd ?ps) ?zs k'"
      "current_process (k_sched k') = fst (next_turn k xs)" "pcbs (k_sched k') (fst (next_turn k xs)) = Some b'"
      "p_ticks_remaining b' = p_priority b'" "k_pmm k' = k_pmm k1"
      "\<forall>x. pcbs (k_sched k') x = map_option (turned (?k2\<lparr>k_sched := s\<rparr>) ?c (fst (next_turn k xs)) x) (pcbs s x)"
    proof -
      have "stack_apart L (?k2\<lparr>k_sched := s\<rparr>)" using released_stack [OF k1(3) ok(1) st] by (simp add: stack_apart_def save_area_def)
      moreover have "pcbs s (fst ?ps) \<noteq> None" if "fst ?ps \<noteq> 0"
      proof -
        have "run_queue (k_sched ?k2) xs" using ok2 by (simp add: kernel_ok_def lists_ok_def)
        then have "pcbs (k_sched ?k2) (fst ?ps) \<noteq> None" using run_queue_dom pick_spec_member(1) [OF that] by blast
        moreover have lk: "links_only (set xs) (pcbs (k_sched ?k2)) (pcbs s)" using s(3) by (simp add: queue_step_def)
        ultimately show ?thesis using links_only_lookup(1) [OF lk] by simp
      qed
      ultimately show thesis using take_turn_spec [OF s(2), of ?c "fst ?ps"] cs c(1) nt by (auto intro: that)
    qed
    have cp: "k_cpu (k1\<lparr>k_sched := s\<rparr>) = k_cpu k" using released_cpu [OF k1(3)] by simp
    have lk: "links_only (set xs) (pcbs (k_sched ?k2)) (pcbs s)" using s(3) by (simp add: queue_step_def)
    have bl: "map_option unlinked (pcbs (k_sched k') x) =
      (if x \<in> set zs \<and> orphan (k_sched k) x then None else map_option (\<lambda>b. unlinked (after_tick k xs x b)) (pcbs (k_sched k) x))" for x
    proof -
      let ?f = "turned k ?c (fst (next_turn k xs)) x"
      have "map_option unlinked (pcbs (k_sched k') x) = map_option ?f (map_option unlinked (pcbs s x))"
        using k'(7) by (simp add: option.map_comp comp_def unlinked_commutes turned_cong [OF cp])
      also have "map_option unlinked (pcbs s x) = map_option unlinked (pcbs (k_sched ?k2) x)" using lk by (simp add: links_only_def)
      finally show ?thesis using True unfolding tk by (simp add: option.map_comp comp_def unlinked_commutes after_tick_def Let_def)
    qed
    have "scheduler_tick k = Inr k'" using te b2(1) ex True s(1) k'(1) by (simp add: Let_def pcb_of_def deref_eq take_turn_def)
    then show ?thesis using k' nt fs True bl by (intro exI [of _ k'] exI [of _ b']) simp
  qed
qed

text \<open>
  C17: \<open>process_exit\<close> does not return to its caller. The running process becomes a zombie with its exit
  code, off the run queue and at the head of the zombie list. If another process is ready, the first one of the
  queue runs next and the kernel invariant holds; if none is, the processor reaches the \<open>hlt\<close> after the
  call of \<open>scheduler_yield\<close> and stays there.
\<close>

theorem process_exit_leaves:
  assumes ok: "kernel_ok L xs zs k" and c: "current_process (k_sched k) = c" "c \<noteq> 0" "c \<notin> set zs" and st: "stack_apart L k"
  shows "if \<exists>x \<in> set (remove1 c xs). is_ready (k_sched k) x
    then \<exists>k' b. process_exit code k = Inr k' \<and>
      kernel_ok L (snd (pick_spec (is_ready (k_sched k)) (remove1 c xs))) (c # zs) k' \<and>
      current_process (k_sched k') = fst (pick_spec (is_ready (k_sched k)) (remove1 c xs)) \<and>
      pcbs (k_sched k') c = Some b \<and> p_state b = PROCESS_ZOMBIE \<and> p_exit_code b = code
    else process_exit code k = Inl NoReturn"
proof -
  let ?f = "\<lambda>p. p\<lparr>p_exit_code := code, p_state := PROCESS_ZOMBIE\<rparr>" and ?ys = "remove1 c xs"
  let ?ps = "pick_spec (is_ready (k_sched k)) ?ys"
  obtain b where b: "pcbs (k_sched k) c = Some b" using ok c by (auto simp: kernel_ok_def)
  obtain s where s: "zombify c ?f k = Inr (k\<lparr>k_sched := s\<rparr>)" "kernel_ok L ?ys (c # zs) (k\<lparr>k_sched := s\<rparr>)"
    "links_only (insert c (set xs)) ((pcbs (k_sched k))(c \<mapsto> ?f b)) (pcbs s)" "current_process s = c"
    using zombify_spec [OF ok b c(2,3), of ?f] c(1) by auto
  have e: "process_exit code k = bindR (scheduler_yield (k\<lparr>k_sched := s\<rparr>)) (\<lambda>k. if current_process (k_sched k) = c then Inl NoReturn else Inr k)"
    using s(1) c(1) by (cases "pcb_update c ?f k") (simp_all add: process_exit_def zombify_def)
  have d: "c \<notin> set ?ys" using ok by (auto simp: kernel_ok_def lists_ok_def run_queue_def)
  have "is_ready s y = is_ready (k_sched k) y" if "y \<in> set ?ys" for y
  proof -
    have y: "y \<noteq> c" using that d by auto
    have "is_ready t y \<longleftrightarrow> map_option p_state (pcbs t y) = Some PROCESS_READY" for t by (auto simp: is_ready_def split: option.splits)
    moreover have "map_option p_state (pcbs s y) = map_option p_state (pcbs (k_sched k) y)"
      using links_only_field [OF s(3), of p_state y] y by simp
    ultimately show ?thesis by (simp only:)
  qed
  then have pk: "pick_spec (is_ready (k_sched (k\<lparr>k_sched := s\<rparr>))) ?ys = ?ps" by (intro pick_spec_cong) simp
  obtain t where t: "lift_pick (k\<lparr>k_sched := s\<rparr>) = Inr (fst ?ps, k\<lparr>k_sched := t\<rparr>)" "kernel_ok L (snd ?ps) (c # zs) (k\<lparr>k_sched := t\<rparr>)"
    "queue_step (set ?ys) s t" using lift_pick_spec [OF s(2)] unfolding pk by auto
  have ct: "current_process t = c" using t(3) s(4) by (simp add: queue_step_def)
  have z: "map_option (\<lambda>b. (p_state b, p_exit_code b)) (pcbs t c) = Some (PROCESS_ZOMBIE, code)"
  proof -
    have "map_option (\<lambda>b. (p_state b, p_exit_code b)) (pcbs t c) = map_option (\<lambda>b. (p_state b, p_exit_code b)) (pcbs s c)"
      using t(3) by (intro links_only_field [of "set ?ys"]) (simp_all add: queue_step_def)
    also have "\<dots> = map_option (\<lambda>b. (p_state b, p_exit_code b)) (((pcbs (k_sched k))(c \<mapsto> ?f b)) c)"
      by (rule links_only_field [OF s(3)]) simp
    finally show ?thesis by simp
  qed
  show ?thesis
  proof (cases "\<exists>x \<in> set ?ys. is_ready (k_sched k) x")
    case False
    then have "?ps = (0, ?ys)" by (intro pick_spec_none) blast
    then have "process_exit code k = Inl NoReturn" using e t(1) s(4) ct by (simp add: scheduler_yield_def process_current_def)
    then show ?thesis using False by simp
  next
    case True
    have q: "run_queue t (snd ?ps)" "run_queue s ?ys" using t(2) s(2) by (simp_all add: kernel_ok_def lists_ok_def)
    have m: "fst ?ps \<in> set ?ys" using pick_spec_ready [OF True] by simp
    then have p: "fst ?ps \<noteq> 0" "fst ?ps \<noteq> c" "pcbs s (fst ?ps) \<noteq> None" using d run_queue_dom [OF q(2) m] by auto
    have "links_only (set ?ys) (pcbs s) (pcbs t)" using t(3) by (simp add: queue_step_def)
    then obtain n where n: "pcbs t (fst ?ps) = Some n" using links_only_lookup(1) p(3) by fastforce
    obtain b' where b': "pcbs t c = Some b'" "p_state b' = PROCESS_ZOMBIE" "p_exit_code b' = code" using z by auto
    have "stack_apart L (k\<lparr>k_sched := t\<rparr>)" using st by (simp add: stack_apart_def save_area_def)
    then obtain k' where k': "do_switch (fst ?ps) (k\<lparr>k_sched := t\<rparr>) = Inr k'" "kernel_ok L (snd ?ps) (c # zs) k'"
      "switched c (fst ?ps) (k\<lparr>k_sched := t\<rparr>) k'"
      using do_switch_spec [OF t(2), of c b' "fst ?ps" n] ct b'(1) n p(2) by auto
    have "scheduler_yield (k\<lparr>k_sched := s\<rparr>) = Inr k'" using t(1) s(4) p k'(1) by (simp add: scheduler_yield_def process_current_def)
    moreover have "current_process (k_sched k') = fst ?ps" using k'(3) by (simp add: switched_def)
    moreover have "\<exists>b. pcbs (k_sched k') c = Some b \<and> p_state b = PROCESS_ZOMBIE \<and> p_exit_code b = code"
      using k'(3) b' p(2) by (simp add: switched_def preempted_def)
    ultimately show ?thesis using e k'(2) True p(2) by simp
  qed
qed

text \<open>The shell's process alone, and a process that it created and gave up.\<close>

definition sched_one :: sched where
  "sched_one = \<lparr>pcbs = [0x100 \<mapsto> pcb_ex 0 PROCESS_RUNNING 0 0], next_pid = 1, current_process = 0x100,
     proc_table = 0x100 # replicate 15 0, queue_head = 0x100, queue_tail = 0x100, queue_size = 1, zombie_head = 0\<rparr>"

definition kernel_one :: kernel where
  "kernel_one = kernel_ex\<lparr>k_sched := sched_one\<rparr>"

lemma kernel_one_ok:
  "kernel_ok layout_ex [0x100] [] kernel_one" "fresh_pid (k_sched kernel_one)" "current_pid kernel_one = Inr 0"
  "\<not> alive (k_sched kernel_one) 0" "0 \<in> set (proc_table (k_sched kernel_one))"
proof -
  have s: "k_sched kernel_one = sched_one" "k_heap kernel_one = heap_ex" "k_ram kernel_one = k_ram kernel_ex" "k_pmm kernel_one = k_pmm kernel_ex"
    "a_kernel_pd layout_ex = 0x200000" by (simp_all add: kernel_one_def kernel_ex_def layout_ex_def)
  have t: "proc_table sched_one = [0x100, 0, 0, 0, 0, 0, 0, 0, 0, 0, 0, 0, 0, 0, 0, 0]" by code_simp
  have p: "pcbs sched_one 0x100 = Some (pcb_ex 0 PROCESS_RUNNING 0 0)" "next_pid sched_one = 1" "current_process sched_one = 0x100"
    by (simp_all add: sched_one_def)
  have "heap_bytes heap_ex (k_ram kernel_ex) = {0x1000..<0x2000}"
    unfolding heap_bytes_def kernel_ex_memory(2) by (simp add: extent_def)
  moreover have "unat q < 0x1000" if "pcbs sched_one q \<noteq> None" for q
    using that by (auto simp: sched_one_def split: if_splits)
  moreover have "table_ok sched_one" unfolding table_ok_def t by (auto simp: p inj_on_def pid_of_def pcb_ex_def MAX_PROCESSES_def)
  moreover have "lists_ok sched_one [0x100] []" by (simp add: sched_one_def lists_ok_def run_queue_def zombies_def pcb_ex_def)
  ultimately show "kernel_ok layout_ex [0x100] [] kernel_one" unfolding kernel_ok_def s kernel_ex_frames
    using kernel_ex_memory(1) kernel_ex_frames(1) p by fastforce
  show "fresh_pid (k_sched kernel_one)" unfolding fresh_pid_def s t by (auto simp: p pid_of_def pcb_ex_def)
  show "current_pid kernel_one = Inr 0" by (simp add: current_pid_def s p pcb_of_def deref_def) (simp add: pcb_ex_def)
  show "\<not> alive (k_sched kernel_one) 0" by (simp add: alive_def)
  show "0 \<in> set (proc_table (k_sched kernel_one))" unfolding s t by simp
qed

lemma kernel_one_create:
  "\<exists>k1. process_create layout_ex (lit ''init'') 0x105000 5 kernel_one = Inr (0x1010, k1) \<and>
     kernel_ok layout_ex ([0x100] @ [0x1010]) [] k1 \<and> created layout_ex 0x1010 0x105000 5 kernel_one k1"
proof -
  have s: "k_heap kernel_one = heap_ex" "k_ram kernel_one = k_ram kernel_ex" "k_pmm kernel_one = k_pmm kernel_ex"
    by (simp_all add: kernel_one_def kernel_ex_def)
  obtain m where m: "kmalloc (k_heap kernel_one) sizeof_process (k_ram kernel_one) = Inr (0x1010, m)"
    using kernel_ex_kmalloc by (auto simp: s)
  have f: "free_set (k_pmm kernel_one) = {2, 3, 4}" using kernel_ex_frames(2) by (simp add: s)
  show ?thesis using process_create_rest [OF kernel_one_ok(1,2) m, of "lit ''init''" "0x105000" 5] kernel_one_ok(5) by (simp add: f)
qed

theorem create_abandon_reap_witness:
  "\<exists>k1 k2 k3. process_create layout_ex (lit ''init'') 0x105000 5 kernel_one = Inr (0x1010, k1) \<and>
     abandon 0x1010 k1 = Inr (0, k2) \<and> scheduler_reap_zombies k2 = Inr k3 \<and> free_set (k_pmm k3) = {2, 3, 4}"
proof -
  obtain k1 where k1: "process_create layout_ex (lit ''init'') 0x105000 5 kernel_one = Inr (0x1010, k1)" using kernel_one_create by blast
  have "free_set (k_pmm kernel_one) = {2, 3, 4}" using kernel_ex_frames(2) by (simp add: kernel_one_def)
  then show ?thesis using create_abandon_reap [OF kernel_one_ok(1-4) k1] k1 by auto
qed

lemma kernel_one_zombie: "\<exists>k. reapable layout_ex [0x100] [0x1010] k \<and> orphan (k_sched k) 0x1010"
proof -
  obtain k1 where k1: "kernel_ok layout_ex ([0x100] @ [0x1010]) [] k1" "created layout_ex 0x1010 0x105000 5 kernel_one k1"
    using kernel_one_create by blast
  have "0x1010 \<noteq> (0 :: u32)" by simp
  from abandoned_reapable [OF kernel_one_ok(1) k1 this kernel_one_ok(3,4)] show ?thesis by blast
qed

theorem reap_frees_orphans_witness:
  "\<exists>k k'. reapable layout_ex [0x100] [0x1010] k \<and> scheduler_reap_zombies k = Inr k' \<and> reapable layout_ex [0x100] [] k'"
proof -
  obtain k where k: "reapable layout_ex [0x100] [0x1010] k" "orphan (k_sched k) 0x1010" using kernel_one_zombie by blast
  then show ?thesis using reap_frees_orphans [OF k(1)] by auto
qed

text \<open>Three processes; the running one has used its quantum, the second one sleeps.\<close>

definition kernel_three :: kernel where
  "kernel_three = kernel_ex\<lparr>k_sched := sched_ex\<lparr>pcbs := (pcbs sched_ex)(0x100 \<mapsto> pcb_ex 0 PROCESS_RUNNING 0 0x200), zombie_head := 0\<rparr>,
     k_cpu := cpu_ex\<lparr>r_esp := 0x140000\<rparr>\<rparr>"

lemma kernel_three_ok:
  "reapable layout_ex [0x100, 0x200, 0x300] [] kernel_three" "stack_apart layout_ex kernel_three"
  "next_turn kernel_three [0x100, 0x200, 0x300] = (0x300, [0x100, 0x200, 0x300])"
proof -
  let ?s = "sched_ex\<lparr>pcbs := (pcbs sched_ex)(0x100 \<mapsto> pcb_ex 0 PROCESS_RUNNING 0 0x200)\<rparr>"
  let ?k = "kernel_ex\<lparr>k_sched := ?s\<lparr>zombie_head := 0\<rparr>\<rparr>"
  have s: "k_sched kernel_ex = sched_ex" "k_heap kernel_ex = heap_ex" "a_kernel_pd layout_ex = 0x200000" by (simp_all add: kernel_ex_def layout_ex_def)
  have p: "pcbs sched_ex 0x100 = Some (pcb_ex 0 PROCESS_READY 0 0x200)" by (simp add: sched_ex_def)
  have sl: "same_links sched_ex ?s" using p by (simp add: same_links_def pcb_ex_def)
  have k0: "kernel_ok layout_ex [0x100, 0x200, 0x300] [0x400] (kernel_ex\<lparr>k_sched := ?s\<rparr>)"
    by (rule kernel_ok_same_links [OF kernel_ex_ok]) (use sl in \<open>simp_all add: s sched_ex_def\<close>)
  have "lists_ok (?s\<lparr>zombie_head := 0\<rparr>) [0x100, 0x200, 0x300] []"
    by (simp add: sched_ex_def lists_ok_def run_queue_def zombies_def pcb_ex_def)
  moreover have "table_ok (?s\<lparr>zombie_head := 0\<rparr>) = table_ok ?s" by (simp add: table_ok_def pid_of_def inj_on_def)
  ultimately have "kernel_ok layout_ex [0x100, 0x200, 0x300] [] kernel_three" using k0 by (simp add: kernel_ok_def kernel_three_def)
  then show "reapable layout_ex [0x100, 0x200, 0x300] [] kernel_three" by (simp add: reapable_def all_own_def)
  have "heap_bytes heap_ex (k_ram kernel_ex) = {0x1000..<0x2000}" unfolding heap_bytes_def kernel_ex_memory(2) by (simp add: extent_def)
  moreover have "{0x13FFE0..<0x140000} \<inter> page_bytes t = {}" if "t \<in> pd_pages (k_ram kernel_ex) 0x200000" for t
    using kernel_ex_memory(3) [OF that] by (auto simp: page_bytes_def)
  ultimately show "stack_apart layout_ex kernel_three" by (simp add: stack_apart_def save_area_def kernel_three_def s)
  have "expired kernel_three [0x100, 0x200, 0x300]" by (simp add: expired_def kernel_three_def sched_ex_def pcb_ex_def process_zero_def)
  moreover have "pick_spec (is_ready (wake_all [0x100, 0x200, 0x300] (k_sched kernel_three))) [0x100, 0x200, 0x300] = (0x300, [0x100, 0x200, 0x300])"
    by (simp add: pick_spec_def is_ready_def wake_all_def wake_def kernel_three_def sched_ex_def pcb_ex_def process_zero_def Let_def)
  ultimately show "next_turn kernel_three [0x100, 0x200, 0x300] = (0x300, [0x100, 0x200, 0x300])" by (simp add: next_turn_def)
qed

theorem tick_schedules_witness:
  "\<exists>k' b. scheduler_tick kernel_three = Inr k' \<and> current_process (k_sched k') = 0x300 \<and>
     kernel_ok layout_ex [0x100, 0x200, 0x300] [] k' \<and>
     pcbs (k_sched k') 0x200 = Some b \<and> p_state b = PROCESS_BLOCKED \<and> p_sleep_ticks b = 1"
proof -
  let ?xs = "[0x100, 0x200, 0x300] :: u32 list"
  have c: "current_process (k_sched kernel_three) \<noteq> 0" "pcbs (k_sched kernel_three) (current_process (k_sched kernel_three)) = Some (pcb_ex 0 PROCESS_RUNNING 0 0x200)"
    by (simp_all add: kernel_three_def sched_ex_def)
  obtain k' where k': "scheduler_tick kernel_three = Inr k'" "kernel_ok layout_ex ?xs [] k'" "current_process (k_sched k') = 0x300"
    "map_option unlinked (pcbs (k_sched k') 0x200) =
      map_option (\<lambda>b. unlinked (after_tick kernel_three ?xs 0x200 b)) (pcbs (k_sched kernel_three) 0x200)"
    using tick_schedules [OF kernel_three_ok(1) c kernel_three_ok(2)] unfolding kernel_three_ok(3) by auto
  have p: "pcbs (k_sched kernel_three) 0x200 = Some (pcb_ex 1 PROCESS_BLOCKED 2 0x300)" and cur: "current_process (k_sched kernel_three) = 0x100"
    by (simp_all add: kernel_three_def sched_ex_def)
  have "after_tick kernel_three ?xs 0x200 b = wake b" for b
    unfolding after_tick_def turned_def kernel_three_ok(3) cur Let_def by simp
  then have "map_option unlinked (pcbs (k_sched k') 0x200) = Some (unlinked (wake (pcb_ex 1 PROCESS_BLOCKED 2 0x300)))"
    using k'(4) unfolding p by simp
  then obtain b where b: "pcbs (k_sched k') 0x200 = Some b" "unlinked b = unlinked (wake (pcb_ex 1 PROCESS_BLOCKED 2 0x300))" by auto
  from arg_cong [OF b(2), of p_state] arg_cong [OF b(2), of p_sleep_ticks]
  have "p_state b = PROCESS_BLOCKED" "p_sleep_ticks b = 1" by (simp_all add: wake_def pcb_ex_def process_zero_def Let_def)
  then show ?thesis using k' b(1) by blast
qed

theorem process_exit_leaves_witness:
  "\<exists>k' b. process_exit 7 kernel_three = Inr k' \<and> current_process (k_sched k') = 0x300 \<and>
     pcbs (k_sched k') 0x100 = Some b \<and> p_state b = PROCESS_ZOMBIE \<and> p_exit_code b = 7"
proof -
  have "kernel_ok layout_ex [0x100, 0x200, 0x300] [] kernel_three" using kernel_three_ok(1) by (simp add: reapable_def)
  moreover have "current_process (k_sched kernel_three) = 0x100" by (simp add: kernel_three_def sched_ex_def)
  moreover have "is_ready (k_sched kernel_three) 0x300" "\<not> is_ready (k_sched kernel_three) 0x200"
    by (simp_all add: is_ready_def kernel_three_def sched_ex_def pcb_ex_def process_zero_def)
  ultimately show ?thesis
    using process_exit_leaves [of layout_ex "[0x100, 0x200, 0x300]" "[]" kernel_three "0x100" 7] kernel_three_ok(2)
    by (auto simp: pick_spec_def)
qed

end
