(* ===== verification/Commands.thy ===== *)
theory Commands
  imports Shell Lifecycle
begin

text \<open>
  The shell commands that deal with processes, system calls and files, the dispatch of a command line,
  the input loop of \<open>shell/shell.c\<close> and the boot sequence of \<open>kernel/kernel.c\<close>. What the machine does
  while the shell does not run is a parameter, \<open>hlt\<close>: the interrupts and the other processes between a
  \<open>hlt\<close> instruction, or a yield that switches away, and the next instruction of the shell.
\<close>

section \<open>Model\<close>

subsection \<open>Process commands\<close>

definition cmd_ps :: "kernel \<Rightarrow> kernel res" where
  "cmd_ps k = bindR (process_list (k_sched k) (k_vga k)) (\<lambda>v. Inr (k\<lparr>k_vga := v\<rparr>))"

text \<open>
  The busy wait of \<open>cmd_sleep\<close>: each \<open>hlt\<close> lets interrupts run until the shell continues. The loop need
  not end, so it is a partial function; None means that it never does.
\<close>

partial_function (option) sleep_loop :: "(kernel \<Rightarrow> kernel res) \<Rightarrow> u32 \<Rightarrow> u32 \<Rightarrow> kernel \<Rightarrow> kernel res option" where
  "sleep_loop hlt start ticks k =
     (if pit_ticks k - start < ticks then
        (case hlt k of Inl e \<Rightarrow> Some (Inl e) | Inr k \<Rightarrow> sleep_loop hlt start ticks k)
      else Some (Inr k))"

definition or_never :: "'a res option \<Rightarrow> 'a res" where
  "or_never r = (case r of None \<Rightarrow> Inl NoReturn | Some x \<Rightarrow> x)"

definition cmd_sleep :: "(kernel \<Rightarrow> kernel res) \<Rightarrow> cstring list \<Rightarrow> kernel \<Rightarrow> kernel res" where
  "cmd_sleep hlt argv k =
     (if length argv < 2 then
        Inr (color VGA_COLOR_LIGHT_GREY (say ''usage: sleep <ticks>\<newline>'' (color VGA_COLOR_LIGHT_RED k)))
      else
        (let ticks = sh_strtoul (argv ! 1) 10; start = pit_ticks k in
         bindR (or_never (sleep_loop hlt start ticks k)) (\<lambda>k.
         let k = color VGA_COLOR_LIGHT_GREEN k;
             k = say ''slept '' k;
             k = say_int ticks k;
             k = say '' ticks\<newline>'' k
         in Inr (color VGA_COLOR_LIGHT_GREY k))))"

definition cmd_uptime :: "kernel \<Rightarrow> kernel" where
  "cmd_uptime k =
     (let ticks = pit_ticks k;
          secs = ticks div 100;
          k = say ''uptime: '' k;
          k = say_int secs k;
          k = say ''s ('' k;
          k = say_int ticks k
      in say '' ticks at 100Hz)\<newline>'' k)"

definition vminfo_print_proc :: "u32 \<Rightarrow> u32 \<Rightarrow> process \<Rightarrow> vga \<Rightarrow> vga" where
  "vminfo_print_proc kernel_pd live_cr3 p s =
     (let s = kprint_int (p_pid p) s;
          s = kprint (lit ''  '') s;
          s = kprint (p_name p) s;
          s = fold (\<lambda>_. kprint (lit '' '')) [length (p_name p)..<16] s;
          s = kprint_hex (p_cr3 p) s;
          s = kprint (lit ''  '') s;
          s = (if p_cr3 p = live_cr3 then kprint (lit ''<-- live'') s
               else if p_cr3 p = kernel_pd then kprint (lit ''(kernel PD)'') s
               else kprint (lit ''(own PD)'') s)
      in kprint (lit ''\<newline>'') s)"

definition cmd_vminfo :: "kernel \<Rightarrow> kernel res" where
  "cmd_vminfo k =
     (let live_cr3 = cr3 (k_mmu k);
          kpd = kernel_pd_phys (k_mmu k);
          k = color VGA_COLOR_LIGHT_CYAN k;
          k = say ''Virtual memory\<newline>'' k;
          k = color VGA_COLOR_LIGHT_GREY k;
          k = say ''  kernel_pd_phys : '' k;
          k = say_hex kpd k;
          k = say ''\<newline>'' k;
          k = say ''  live CR3       : '' k;
          k = say_hex live_cr3 k;
          k = say ''\<newline>\<newline>'' k;
          k = color VGA_COLOR_LIGHT_CYAN k;
          k = say ''PID  NAME              CR3         NOTE\<newline>'' k;
          k = say ''---  ----------------  ----------  -----------\<newline>'' k;
          k = color VGA_COLOR_WHITE k;
          cur = process_current (k_sched k)
      in bindR (if cur \<noteq> 0 then bindR (pcb_of cur k) (\<lambda>p. Inr (on_vga (vminfo_print_proc kpd live_cr3 p) k)) else Inr k) (\<lambda>k.
         let k = color VGA_COLOR_LIGHT_GREY k in
         bindR (list_loop (vminfo_print_proc kpd live_cr3) walk_fuel cur (scheduler_queue_head (k_sched k)) (k_sched k) (k_vga k))
           (\<lambda>v. Inr (k\<lparr>k_vga := v\<rparr>))))"

subsection \<open>System call and file commands\<close>

definition synctest_text :: string where
  "synctest_text = ''  hello from sys_write via int 0x80\<newline>''"

definition cmd_synctest :: "layout \<Rightarrow> (kernel \<Rightarrow> kernel res) \<Rightarrow> kernel \<Rightarrow> kernel res" where
  "cmd_synctest L hlt k =
     (let k = color VGA_COLOR_LIGHT_CYAN k;
          k = say ''Syscall gate test\<newline>'' k;
          k = color VGA_COLOR_LIGHT_GREY k;
          len = of_nat (length synctest_text)
      in bindR (do_sys_write 1 (a_synctest_msg L) len k) (\<lambda>(written, k).
         let k = say ''  sys_write returned: '' k;
             k = say_int written k;
             k = (if written = len then say ''  [OK]\<newline>'' k else say ''  [MISMATCH]\<newline>'' k);
             k = say ''  calling sys_yield()...\<newline>'' k;
             cur = process_current (k_sched k)
         in bindR (do_sys_yield k) (\<lambda>(r, k).
            bindR (if process_current (k_sched k) \<noteq> cur then hlt k else Inr k) (\<lambda>k.
            Inr (say ''  back from sys_yield  [OK]\<newline>'' k)))))"

definition cmd_elftest :: "layout \<Rightarrow> kernel \<Rightarrow> kernel res" where
  "cmd_elftest L k =
     (let k = color VGA_COLOR_LIGHT_CYAN k;
          k = say ''ELF loader test\<newline>'' k;
          k = color VGA_COLOR_LIGHT_GREY k;
          k = say ''  loading embedded test_prog.elf...\<newline>'' k
      in bindR (process_create_from_elf L (lit ''elftest'') (a_test_prog_blob L) 5 k) (\<lambda>(p, k).
         if p = 0 then Inr (say ''  process_create_from_elf failed\<newline>'' k)
         else bindR (pcb_of p k) (\<lambda>pcb.
           let k = say ''  spawned pid='' k;
               k = say_int (p_pid pcb) k;
               k = say '' entry='' k;
               k = say_hex (p_user_entry pcb) k
           in Inr (say '' - watch for its output on the next scheduler tick\<newline>'' k))))"

fun fstest_bytes :: "nat \<Rightarrow> u32 \<Rightarrow> kernel \<Rightarrow> kernel res" where
  "fstest_bytes 0 buf k = Inr k"
| "fstest_bytes (Suc n) buf k =
     bindR (load_virt k buf) (\<lambda>b.
       fstest_bytes n (buf + 1)
         (put (of_char CHR '' '') (put (hex_char (b AND 0xF)) (put (hex_char (drop_bit 4 b AND 0xF)) k))))"

definition cmd_fstest :: "layout \<Rightarrow> kernel \<Rightarrow> kernel res" where
  "cmd_fstest L k =
     (let k = color VGA_COLOR_LIGHT_CYAN k;
          k = say ''Filesystem test\<newline>'' k;
          k = color VGA_COLOR_LIGHT_GREY k
      in bindR (do_sys_open (a_fstest_path L) k) (\<lambda>(fd, k).
         let k = say ''  open(\"test.elf\") = '' k;
             k = say_int fd k;
             k = (if sint fd \<ge> 0 then say ''  [OK]\<newline>'' k else say ''  [FAIL]\<newline>'' k)
         in if sint fd < 0 then Inr k
            else
              bindR (do_sys_read fd (a_fstest_buf L) 16 k) (\<lambda>(n, k).
              let k = say ''  read() = '' k;
                  k = say_int n k;
                  k = say '' bytes: '' k
              in bindR (fstest_bytes (unat n) (a_fstest_buf L) k) (\<lambda>k.
                 let k = say ''\<newline>'' k in
                 bindR (do_sys_close fd k) (\<lambda>(closed, k).
                 let k = say ''  close() = '' k;
                     k = say_int closed k
                 in Inr (if closed = 0 then say ''  [OK]\<newline>'' k else say ''  [FAIL]\<newline>'' k))))))"

definition name_len :: "cstring \<Rightarrow> nat" where
  "name_len s = length (takeWhile (\<lambda>c. c \<noteq> 0) s)"

definition ls_row :: "int \<Rightarrow> kernel \<Rightarrow> kernel" where
  "ls_row i k =
     (case ramfs_get i (k_fs k) of
        None \<Rightarrow> k
      | Some f \<Rightarrow>
          (let k = say_str (f_name f) k;
               k = pad (name_len (f_name f)) 20 k;
               k = say_int (f_size f) k
           in say '' bytes\<newline>'' k))"

definition cmd_ls :: "kernel \<Rightarrow> kernel" where
  "cmd_ls k =
     (let k = color VGA_COLOR_LIGHT_CYAN k;
          k = say ''NAME                 SIZE\<newline>'' k;
          k = say ''----------------     ----------\<newline>'' k;
          k = color VGA_COLOR_LIGHT_GREY k;
          any = list_ex (\<lambda>i. ramfs_get (int i) (k_fs k) \<noteq> None) [0..<ramfs_capacity];
          k = fold (\<lambda>i. ls_row (int i)) [0..<ramfs_capacity] k
      in if \<not> any then say ''(no files)\<newline>'' k else k)"

definition cmd_run :: "layout \<Rightarrow> cstring list \<Rightarrow> kernel \<Rightarrow> kernel res" where
  "cmd_run L argv k =
     (if length argv < 2 then
        Inr (color VGA_COLOR_LIGHT_GREY (say ''usage: run <filename>\<newline>'' (color VGA_COLOR_LIGHT_RED k)))
      else
        (let name = argv ! 1; idx = ramfs_lookup name (k_fs k) in
         if idx < 0 then
           Inr (color VGA_COLOR_LIGHT_GREY (say ''\<newline>'' (say_str name (say ''run: no such file: '' (color VGA_COLOR_LIGHT_RED k)))))
         else
           (case ramfs_get idx (k_fs k) of
              None \<Rightarrow> Inr (say ''run: internal error (file disappeared)\<newline>'' k)
            | Some f \<Rightarrow>
                (if elf32_validate (k_ram k) (f_data f) = None then
                   Inr (color VGA_COLOR_LIGHT_GREY
                     (say ''\<newline>'' (say_str name (say ''run: not a valid ELF32 executable: '' (color VGA_COLOR_LIGHT_RED k)))))
                 else
                   bindR (process_create_from_elf L name (f_data f) 5 k) (\<lambda>(p, k).
                   if p = 0 then Inr (say ''run: process_create_from_elf failed\<newline>'' k)
                   else bindR (pcb_of p k) (\<lambda>pcb.
                     let k = color VGA_COLOR_LIGHT_GREEN k;
                         k = say ''run: spawned pid='' k;
                         k = say_int (p_pid pcb) k;
                         k = say '' entry='' k;
                         k = say_hex (p_user_entry pcb) k;
                         k = say ''\<newline>'' k
                     in Inr (color VGA_COLOR_LIGHT_GREY k)))))))"

subsection \<open>Dispatch\<close>

definition run_command :: "layout \<Rightarrow> (kernel \<Rightarrow> kernel res) \<Rightarrow> command \<Rightarrow> cstring list \<Rightarrow> kernel \<Rightarrow> kernel res" where
  "run_command L hlt c argv k =
     (case c of
        Cmd_help \<Rightarrow> Inr (cmd_help k)
      | Cmd_clear \<Rightarrow> Inr (cmd_clear k)
      | Cmd_echo \<Rightarrow> Inr (cmd_echo argv k)
      | Cmd_meminfo \<Rightarrow> Inr (cmd_meminfo k)
      | Cmd_memtest \<Rightarrow> Inr (cmd_memtest argv k)
      | Cmd_hexdump \<Rightarrow> Inr (cmd_hexdump argv k)
      | Cmd_heapinfo \<Rightarrow> cmd_heapinfo k
      | Cmd_heaptest \<Rightarrow> cmd_heaptest k
      | Cmd_ps \<Rightarrow> cmd_ps k
      | Cmd_sleep \<Rightarrow> cmd_sleep hlt argv k
      | Cmd_uptime \<Rightarrow> Inr (cmd_uptime k)
      | Cmd_vminfo \<Rightarrow> cmd_vminfo k
      | Cmd_synctest \<Rightarrow> cmd_synctest L hlt k
      | Cmd_elftest \<Rightarrow> cmd_elftest L k
      | Cmd_fstest \<Rightarrow> cmd_fstest L k
      | Cmd_ls \<Rightarrow> Inr (cmd_ls k)
      | Cmd_run \<Rightarrow> cmd_run L argv k
      | Cmd_shutdown \<Rightarrow> Inl NoReturn)"

fun find_command :: "cstring \<Rightarrow> (string \<times> string \<times> command) list \<Rightarrow> command option" where
  "find_command name [] = None"
| "find_command name ((n, h, c) # cs) = (if sh_strcmp name (lit n) = 0 then Some c else find_command name cs)"

definition dispatch :: "layout \<Rightarrow> (kernel \<Rightarrow> kernel res) \<Rightarrow> cstring \<Rightarrow> kernel \<Rightarrow> kernel res" where
  "dispatch L hlt line k =
     (let argv = parse line ARGV_MAX in
      if argv = [] then Inr k
      else
        (case find_command (hd argv) commands of
           Some c \<Rightarrow> run_command L hlt c argv k
         | None \<Rightarrow>
             (let k = color VGA_COLOR_LIGHT_RED k;
                  k = say ''unknown command: '' k;
                  k = say_str (hd argv) k;
                  k = say ''  (type 'help')\<newline>'' k
              in Inr (color VGA_COLOR_LIGHT_GREY k))))"

subsection \<open>The input loop\<close>

record shell =
  sh_buf :: "u8 list"
  sh_len :: nat

text \<open>What \<open>parse\<close> leaves in the line: it ends each argument by writing a NUL over the blank after it.\<close>

function cut_line :: "cstring \<Rightarrow> nat \<Rightarrow> cstring" where
  "cut_line p left =
     (if p \<noteq> [] \<and> left > 0 then
        (let q = dropWhile is_blank p in
         if q = [] then p
         else takeWhile is_blank p @ takeWhile (\<lambda>c. \<not> is_blank c) q @
           (case dropWhile (\<lambda>c. \<not> is_blank c) q of [] \<Rightarrow> [] | c # r \<Rightarrow> 0 # cut_line r (left - 1)))
      else p)"
  by pat_completeness auto
termination by (relation "measure snd") auto

declare cut_line.simps [simp del]

definition print_prompt :: "kernel \<Rightarrow> kernel" where
  "print_prompt k = say ''> '' (color VGA_COLOR_WHITE k)"

definition shell_start :: "kernel \<Rightarrow> kernel" where
  "shell_start k = print_prompt (say ''\<newline>Type 'help' for available commands.\<newline>\<newline>'' (color VGA_COLOR_LIGHT_GREY k))"

text \<open>One turn of the endless loop of \<open>shell_run\<close>.\<close>

definition shell_step :: "layout \<Rightarrow> (kernel \<Rightarrow> kernel res) \<Rightarrow> shell \<times> kernel \<Rightarrow> (shell \<times> kernel) res" where
  "shell_step L hlt st =
     (let (s, k) = st;
          (c, kbd) = keyboard_getchar (k_kbd k);
          k = k\<lparr>k_kbd := kbd\<rparr>
      in if c = 0 then Inr (s, k)
         else if c = of_char CHR 0x08 then
           Inr (if sh_len s > 0 then (s\<lparr>sh_len := sh_len s - 1\<rparr>, put (of_char CHR 0x08) k) else (s, k))
         else if c = of_char CHR 0x0A then
           (let k = put (of_char CHR 0x0A) k;
                b = (sh_buf s)[sh_len s := 0];
                line = takeWhile (\<lambda>c. c \<noteq> 0) b;
                b = cut_line line ARGV_MAX @ drop (length line) b
            in bindR (dispatch L hlt line k) (\<lambda>k.
               Inr (s\<lparr>sh_buf := b, sh_len := 0\<rparr>, print_prompt k)))
         else if sh_len s < INPUT_MAX - 1 then
           Inr (s\<lparr>sh_buf := (sh_buf s)[sh_len s := c], sh_len := sh_len s + 1\<rparr>, put c k)
         else Inr (s, k))"

subsection \<open>Boot\<close>

definition MULTIBOOT2_MAGIC :: u32 where "MULTIBOOT2_MAGIC = 0x36D76289"
definition HEAP_PAGES :: u32 where "HEAP_PAGES = 16"

definition debug_print :: "string \<Rightarrow> kernel \<Rightarrow> kernel" where
  "debug_print s k = k\<lparr>k_io := k_io k @ map (\<lambda>c. OutB 0xE9 (of_char c)) s\<rparr>"

text \<open>
  \<open>kernel_main\<close> up to the shell. \<open>m1\<close> and \<open>m2\<close> are the interrupt masks that \<open>pic_remap\<close> reads back.
\<close>

definition boot_console :: "kernel \<Rightarrow> kernel" where
  "boot_console k =
     (let k = color VGA_COLOR_LIGHT_CYAN k;
          k = say ''StakOS\<newline>'' k;
          k = color VGA_COLOR_LIGHT_GREY k;
          k = say ''----------------------------------------\<newline>'' k;
          k = color VGA_COLOR_LIGHT_GREEN k;
          k = say ''[OK] GDT initialized\<newline>'' k;
          k = say ''[OK] IDT initialized\<newline>'' k;
          k = say ''[OK] PIC remapped\<newline>'' k;
          k = say ''[OK] Interrupts enabled\<newline>'' k
      in say ''[OK] Keyboard initialized\<newline>'' k)"

definition boot_tables :: "layout \<Rightarrow> u8 \<Rightarrow> u8 \<Rightarrow> kernel \<Rightarrow> kernel" where
  "boot_tables L m1 m2 k =
     (let k = on_vga vga_init k;
          k = k\<lparr>k_gdt := gdt_init (a_gdt L) (a_tss L) (k_gdt k)\<rparr>;
          (io, i) = idt_init (a_idt L) (a_isr L) (a_irq L) m1 m2 (k_idt k);
          k = k\<lparr>k_io := k_io k @ io, k_idt := i\<rparr>;
          k = k\<lparr>k_kbd := keyboard_init (k_kbd k)\<rparr>
      in k\<lparr>k_idt := irq_register 1 Keyboard_handler (k_idt k)\<rparr>)"

definition boot_memory :: "layout \<Rightarrow> u32 \<Rightarrow> kernel \<Rightarrow> kernel res" where
  "boot_memory L mboot_ptr k =
     bindR (pmm_init (k_ram k) (a_kernel_end L) mboot_ptr (k_pmm k)) (\<lambda>p.
       let k = k\<lparr>k_pmm := p\<rparr>;
           k = on_vga (pmm_print_stats (k_pmm k)) k;
           (c, m, v) = paging_init (a_kernel_pd L) (a_identity_pts L) (k_mmu k) (k_ram k) (k_vga k);
           k = k\<lparr>k_mmu := c, k_ram := m, k_vga := v\<rparr>;
           (h, p, m) = kmalloc_init HEAP_PAGES (k_heap k) (k_pmm k) (k_ram k);
           k = k\<lparr>k_heap := h, k_pmm := p, k_ram := m\<rparr>
       in cmd_heapinfo k)"

definition kernel_main :: "layout \<Rightarrow> u8 \<Rightarrow> u8 \<Rightarrow> u32 \<Rightarrow> u32 \<Rightarrow> kernel \<Rightarrow> kernel res" where
  "kernel_main L m1 m2 magic mboot_ptr k =
     (let k = boot_console (boot_tables L m1 m2 k) in
      if magic \<noteq> MULTIBOOT2_MAGIC then Inl (Panic ''Not booted by a Multiboot2 bootloader!'')
      else
        bindR (boot_memory L mboot_ptr k) (\<lambda>k.
        bindR (scheduler_init (process_init L k)) (\<lambda>k.
        let k = pit_init 100 k;
            k = k\<lparr>k_fs := ramfs_init (k_fs k)\<rparr>;
            k = k\<lparr>k_fs := snd (ramfs_register (lit ''test.elf'') (a_test_prog_blob L) (a_test_prog_blob_size L) (k_fs k))\<rparr>;
            k = debug_print ''STAKOS_BOOT_OK\<newline>'' k
        in Inr (shell_start k))))"

section \<open>The line editor\<close>

text \<open>What the input loop does to the line that is being typed.\<close>

definition edit :: "cstring \<Rightarrow> u8 \<Rightarrow> cstring" where
  "edit line c =
     (if c = 0 then line
      else if c = of_char CHR 0x08 then butlast line
      else if c = of_char CHR 0x0A then []
      else if length line < INPUT_MAX - 1 then line @ [c] else line)"

definition shell_ok :: "shell \<Rightarrow> cstring \<Rightarrow> bool" where
  "shell_ok s line \<longleftrightarrow> length (sh_buf s) = INPUT_MAX \<and> sh_len s = length line \<and> length line < INPUT_MAX \<and>
     take (length line) (sh_buf s) = line \<and> 0 \<notin> set line"

lemma length_cut_line [simp]: "length (cut_line p n) = length p"
proof (induction p n rule: cut_line.induct)
  case (1 p left)
  show ?case
  proof (cases "p \<noteq> [] \<and> left > 0 \<and> dropWhile is_blank p \<noteq> []")
    case True
    let ?q = "dropWhile is_blank p"
    have p: "length (takeWhile is_blank p) + length ?q = length p" by (metis length_append takeWhile_dropWhile_id)
    have q: "length (takeWhile (\<lambda>c. \<not> is_blank c) ?q) + length (dropWhile (\<lambda>c. \<not> is_blank c) ?q) = length ?q"
      by (metis length_append takeWhile_dropWhile_id)
    show ?thesis
    proof (cases "dropWhile (\<lambda>c. \<not> is_blank c) ?q")
      case Nil
      then show ?thesis using True p q by (subst cut_line.simps) (simp add: Let_def del: dropWhile_eq_Nil_conv)
    next
      case (Cons c r)
      then have "length (cut_line r (left - 1)) = length r" using True 1 by auto
      then show ?thesis using True Cons p q by (subst cut_line.simps) (simp add: Let_def)
    qed
  next
    case False
    then show ?thesis by (subst cut_line.simps) (auto simp: Let_def)
  qed
qed

lemma shell_ok_line:
  assumes "shell_ok s line"
  shows "takeWhile (\<lambda>c. c \<noteq> 0) ((sh_buf s)[sh_len s := 0]) = line"
proof -
  have l: "length line < length (sh_buf s)" "sh_len s = length line" "take (length line) (sh_buf s) = line" "0 \<notin> set line"
    using assms by (simp_all add: shell_ok_def)
  have "(sh_buf s)[length line := 0] = take (length line) (sh_buf s) @ 0 # drop (Suc (length line)) (sh_buf s)"
    using l(1) by (rule upd_conv_take_nth_drop)
  then show ?thesis using l by (auto simp: takeWhile_append takeWhile_eq_all_conv)
qed

text \<open>One turn of the loop: the line is edited, and the end of a line dispatches exactly that line.\<close>

lemma shell_step_edit:
  assumes ok: "shell_ok s line" and st: "shell_step L hlt (s, k) = Inr (s', k')"
  shows "shell_ok s' (edit line (fst (keyboard_getchar (k_kbd k))))"
proof -
  obtain c kb where c: "keyboard_getchar (k_kbd k) = (c, kb)" by (cases "keyboard_getchar (k_kbd k)")
  have l: "length (sh_buf s) = INPUT_MAX" "sh_len s = length line" "length line < INPUT_MAX" "take (length line) (sh_buf s) = line" "0 \<notin> set line"
    using ok by (simp_all add: shell_ok_def)
  consider "c = 0" | "c = of_char CHR 0x08" | "c = of_char CHR 0x0A" | "c \<noteq> 0" "c \<noteq> of_char CHR 0x08" "c \<noteq> of_char CHR 0x0A" by blast
  then show ?thesis
  proof cases
    case 1
    then show ?thesis using st ok c by (simp add: shell_step_def edit_def)
  next
    case 2
    then have "s' = (if sh_len s > 0 then s\<lparr>sh_len := sh_len s - 1\<rparr> else s)" using st c by (auto simp: shell_step_def split: if_splits)
    moreover have "shell_ok s (butlast line)" if "line = []" using that ok by simp
    moreover have "take (length line - 1) (sh_buf s) = butlast line" using l(4) by (metis butlast_conv_take length_butlast take_butlast min_def take_take diff_le_self)
    ultimately show ?thesis using 2 c l by (auto simp: edit_def shell_ok_def dest: in_set_butlastD)
  next
    case 3
    then obtain k1 where "s' = s\<lparr>sh_buf := cut_line line ARGV_MAX @ drop (length line) ((sh_buf s)[sh_len s := 0]), sh_len := 0\<rparr>"
      using st c shell_ok_line [OF ok] by (auto simp: shell_step_def Let_def bindR_Inr_iff)
    then show ?thesis using 3 c l by (simp add: edit_def shell_ok_def)
  next
    case 4
    show ?thesis
    proof (cases "length line < INPUT_MAX - 1")
      case True
      then have "s' = s\<lparr>sh_buf := (sh_buf s)[length line := c], sh_len := Suc (length line)\<rparr>" using st c 4 l by (auto simp: shell_step_def)
      moreover have "take (Suc (length line)) ((sh_buf s)[length line := c]) = line @ [c]"
        using l True by (simp add: take_Suc_conv_app_nth)
      ultimately show ?thesis using 4 c l True by (simp add: edit_def shell_ok_def)
    next
      case False
      then show ?thesis using st c 4 l ok by (simp add: shell_step_def edit_def)
    qed
  qed
qed

lemma shell_step_enter:
  assumes ok: "shell_ok s line" and c: "keyboard_getchar (k_kbd k) = (of_char CHR 0x0A, kb)"
  shows "\<exists>b. shell_step L hlt (s, k) = bindR (dispatch L hlt line (put (of_char CHR 0x0A) (k\<lparr>k_kbd := kb\<rparr>))) (\<lambda>k.
    Inr (s\<lparr>sh_buf := b, sh_len := 0\<rparr>, print_prompt k))"
  using shell_ok_line [OF ok] c by (auto simp: shell_step_def Let_def)

text \<open>
  The states of the shell after it has read the characters \<open>cs\<close>. Between two turns of the loop interrupts
  and other processes may change the rest of the kernel in any way.
\<close>

definition shell_zero :: shell where
  "shell_zero = \<lparr>sh_buf = replicate INPUT_MAX 0, sh_len = 0\<rparr>"

inductive shell_reads :: "layout \<Rightarrow> (kernel \<Rightarrow> kernel res) \<Rightarrow> u8 list \<Rightarrow> shell \<Rightarrow> bool" for L hlt where
  start: "shell_reads L hlt [] shell_zero"
| turn: "shell_reads L hlt cs s \<Longrightarrow> shell_step L hlt (s, k) = Inr (s', k') \<Longrightarrow>
    shell_reads L hlt (cs @ [fst (keyboard_getchar (k_kbd k))]) s'"

lemma shell_reads_ok: "shell_reads L hlt cs s \<Longrightarrow> shell_ok s (foldl edit [] cs)"
proof (induction rule: shell_reads.induct)
  case start
  show ?case by (simp add: shell_ok_def shell_zero_def INPUT_MAX_def)
next
  case (turn cs s k s' k')
  then show ?case using shell_step_edit by simp
qed

text \<open>
  C22: The shell's input buffer always holds the line that was typed. After any sequence of characters, in any
  interleaving with interrupts and other processes, the buffer has its 256 bytes, the index is the length
  of the line and leaves room for the terminator, and the line is what a line editor makes of the characters:
  backspace removes the last character, characters beyond 255 are dropped, end of line starts anew. End of
  line runs \<open>dispatch\<close> on exactly this line.
\<close>

theorem shell_edits_lines:
  assumes "shell_reads L hlt cs s"
  shows "shell_ok s (foldl edit [] cs) \<and>
    (\<forall>k. fst (keyboard_getchar (k_kbd k)) = of_char CHR 0x0A \<longrightarrow>
      (\<exists>b. shell_step L hlt (s, k) =
        bindR (dispatch L hlt (foldl edit [] cs) (put (of_char CHR 0x0A) (k\<lparr>k_kbd := snd (keyboard_getchar (k_kbd k))\<rparr>)))
          (\<lambda>k. Inr (s\<lparr>sh_buf := b, sh_len := 0\<rparr>, print_prompt k))))"
  using shell_reads_ok [OF assms] shell_step_enter [OF shell_reads_ok [OF assms], of _ _ L hlt] by (metis prod.collapse)

definition key_kernel :: "u8 \<Rightarrow> kernel" where
  "key_kernel c = kernel_ex\<lparr>k_kbd := keyboard_zero\<lparr>kb_buf := c # replicate 255 0, kb_head := 1\<rparr>\<rparr>"

lemma key_kernel_char: "keyboard_getchar (k_kbd (key_kernel c)) = (c, (k_kbd (key_kernel c))\<lparr>kb_tail := 1\<rparr>)"
  by (simp add: key_kernel_def keyboard_zero_def keyboard_getchar_def)

lemma type_key:
  assumes "shell_reads L hlt cs s" "c \<noteq> of_char CHR 0x0A"
  shows "\<exists>s'. shell_reads L hlt (cs @ [c]) s'"
proof -
  have "shell_step L hlt (s, key_kernel c) \<noteq> Inl e" for e
    using assms(2) unfolding shell_step_def by (simp add: key_kernel_char Let_def)
  then obtain s' k' where "shell_step L hlt (s, key_kernel c) = Inr (s', k')"
    by (cases "shell_step L hlt (s, key_kernel c)") auto
  from shell_reads.turn [OF assms(1) this] show ?thesis by (auto simp: key_kernel_char)
qed

theorem shell_edits_lines_witness:
  "\<exists>s. shell_reads layout_ex Inr [of_char CHR ''l'', of_char CHR ''x'', of_char CHR 0x08, of_char CHR ''s''] s \<and> shell_ok s (lit ''ls'')"
proof -
  let ?l = "of_char CHR ''l'' :: u8" and ?x = "of_char CHR ''x'' :: u8" and ?s = "of_char CHR ''s'' :: u8" and ?b = "of_char CHR 0x08 :: u8"
  have n: "?l \<noteq> of_char CHR 0x0A" "?x \<noteq> of_char CHR 0x0A" "?s \<noteq> of_char CHR 0x0A" "?b \<noteq> of_char CHR 0x0A" by simp_all
  obtain s1 where s1: "shell_reads layout_ex Inr [?l] s1" using type_key [OF shell_reads.start n(1)] by auto
  obtain s2 where s2: "shell_reads layout_ex Inr [?l, ?x] s2" using type_key [OF s1 n(2)] by auto
  obtain s3 where s3: "shell_reads layout_ex Inr [?l, ?x, ?b] s3" using type_key [OF s2 n(4)] by auto
  obtain s4 where s4: "shell_reads layout_ex Inr [?l, ?x, ?b, ?s] s4" using type_key [OF s3 n(3)] by auto
  have "foldl edit [] [?l, ?x, ?b, ?s] = lit ''ls''" by (simp add: edit_def lit_def INPUT_MAX_def)
  then show ?thesis using shell_edits_lines [OF s4] s4 by auto
qed

section \<open>Waiting for the timer\<close>

text \<open>What the busy wait relies on: each \<open>hlt\<close> comes back with one tick more, and nothing else is printed.\<close>

locale ticking =
  fixes hlt :: "kernel \<Rightarrow> kernel res" and good :: "kernel \<Rightarrow> bool"
  assumes tick: "good k \<Longrightarrow> \<exists>k'. hlt k = Inr k' \<and> good k' \<and> k_ticks k' = k_ticks k + 1 \<and> k_vga k' = k_vga k"
begin

lemma sleep_loop_returns:
  assumes "good k" "pit_ticks k = start + of_nat i" "i + n = unat ticks"
  shows "\<exists>k'. sleep_loop hlt start ticks k = Some (Inr k') \<and> good k' \<and> k_ticks k' = start + ticks \<and> k_vga k' = k_vga k"
  using assms
proof (induction n arbitrary: i k)
  case 0
  then have "of_nat i = ticks" by auto
  then have "sleep_loop hlt start ticks k = Some (Inr k)" using 0 by (subst sleep_loop.simps) simp
  then show ?case using 0 \<open>of_nat i = ticks\<close> by (simp add: pit_ticks_def)
next
  case (Suc n)
  obtain k1 where k1: "hlt k = Inr k1" "good k1" "k_ticks k1 = k_ticks k + 1" "k_vga k1 = k_vga k" using tick [OF Suc.prems(1)] by blast
  have "unat ticks < 2 ^ 32" using unsigned_less [of ticks] by simp
  then have "unat (of_nat i :: u32) = i" using Suc.prems(3) by (intro unat_of_nat_u32) simp
  then have "(of_nat i :: u32) < ticks" using Suc.prems(3) by (simp add: word_less_nat_alt)
  then have "sleep_loop hlt start ticks k = sleep_loop hlt start ticks k1" using Suc.prems(2) k1(1) by (subst sleep_loop.simps) simp
  moreover have "pit_ticks k1 = start + of_nat (Suc i)" using Suc.prems(2) k1(3) by (simp add: pit_ticks_def)
  ultimately show ?case using Suc.IH [OF k1(2), of "Suc i"] Suc.prems(3) k1(4) by simp
qed

lemma cmd_sleep_returns:
  assumes g: "good k" and a: "2 \<le> length argv"
  shows "\<exists>k' k''. cmd_sleep hlt argv k = Inr k'' \<and> good k' \<and> k_ticks k' = k_ticks k + sh_strtoul (argv ! 1) 10 \<and> k_vga k' = k_vga k \<and>
    k'' = color VGA_COLOR_LIGHT_GREY (say '' ticks\<newline>'' (say_int (sh_strtoul (argv ! 1) 10) (say ''slept '' (color VGA_COLOR_LIGHT_GREEN k'))))"
proof -
  obtain k' where k': "sleep_loop hlt (pit_ticks k) (sh_strtoul (argv ! 1) 10) k = Some (Inr k')" "good k'"
    "k_ticks k' = pit_ticks k + sh_strtoul (argv ! 1) 10" "k_vga k' = k_vga k"
    using sleep_loop_returns [OF g, of "pit_ticks k" 0 "unat (sh_strtoul (argv ! 1) 10)" "sh_strtoul (argv ! 1) 10"] by auto
  then show ?thesis using a by (intro exI [of _ k'] exI) (simp add: cmd_sleep_def or_never_def pit_ticks_def)
qed

end

text \<open>The timer interrupt while no other process can run.\<close>

definition dormant :: "process \<Rightarrow> bool" where
  "dormant b \<longleftrightarrow> p_state b \<noteq> PROCESS_READY \<and> \<not> (p_state b = PROCESS_BLOCKED \<and> p_sleep_ticks b > 0)"

definition runs_alone :: "layout \<Rightarrow> u32 list \<Rightarrow> kernel \<Rightarrow> bool" where
  "runs_alone L xs k \<longleftrightarrow> kernel_ok L xs [] k \<and> current_process (k_sched k) \<noteq> 0 \<and>
     (\<forall>x \<in> set xs. \<forall>b. pcbs (k_sched k) x = Some b \<longrightarrow> dormant b) \<and> irq_handlers (k_idt k) ! 0 = Some Pit_handler"

definition timer_irq :: "registers \<Rightarrow> kernel \<Rightarrow> kernel res" where
  "timer_irq r = run_irq (r\<lparr>reg_int_no := 32\<rparr>) 0"

lemma reap_nothing: "zombie_head (k_sched k) = 0 \<Longrightarrow> scheduler_reap_zombies k = Inr k"
proof -
  assume z: "zombie_head (k_sched k) = 0"
  obtain n where n: "walk_fuel = Suc n" by (cases walk_fuel) (simp_all add: walk_fuel_def)
  show ?thesis unfolding scheduler_reap_zombies_def z n by simp
qed

lemma wake_dormant: "dormant b \<Longrightarrow> dormant (wake b)"
  by (auto simp: dormant_def wake_def)

lemma tick_alone:
  assumes r: "runs_alone L xs k"
  shows "\<exists>s. scheduler_tick k = Inr (k\<lparr>k_sched := s\<rparr>) \<and> runs_alone L xs (k\<lparr>k_sched := s\<rparr>)"
proof -
  have ok: "kernel_ok L xs [] k" and c: "current_process (k_sched k) \<noteq> 0" "current_process (k_sched k) = current_process (k_sched k)"
    using r by (simp_all add: runs_alone_def)
  let ?c = "current_process (k_sched k)" and ?t = "ticked xs (k_sched k)"
  have z: "zombie_head (k_sched k) = 0" using ok by (simp add: kernel_ok_def lists_ok_def zombies_def)
  have dm: "dormant d" if "x \<in> set xs" "pcbs ?t x = Some d" for x d
  proof -
    have "pcbs (k_sched k) x \<noteq> None" using same_links_lists(3) [OF ticked_links, of xs "k_sched k" x] that(2) by simp
    then obtain b where b: "pcbs (k_sched k) x = Some b" by blast
    then have "dormant b" using r that(1) by (simp add: runs_alone_def)
    moreover have "dormant (tick_down e) = dormant e" for e by (simp add: dormant_def tick_down_def)
    ultimately show ?thesis using that b wake_dormant by (auto simp: ticked_def wake_all_def Let_def split: if_splits)
  qed
  have ok2: "kernel_ok L xs [] (k\<lparr>k_sched := ?t\<rparr>)"
    by (rule kernel_ok_same_links [OF ok]) (use ticked_links same_links_lists(3) [OF ticked_links, of xs "k_sched k" ?c] ok in \<open>auto simp: kernel_ok_def\<close>)
  have q: "run_queue ?t xs" using ok2 by (simp add: kernel_ok_def lists_ok_def)
  have "\<not> is_ready ?t x" if "x \<in> set xs" for x
    using run_queue_dom [OF q that] dm [OF that] by (auto simp: is_ready_def dormant_def)
  then have pk: "pick_spec (is_ready (k_sched (k\<lparr>k_sched := ?t\<rparr>))) xs = (0, xs)" by (intro pick_spec_none) simp
  obtain u where u: "lift_pick (k\<lparr>k_sched := ?t\<rparr>) = Inr (0, k\<lparr>k_sched := u\<rparr>)" "kernel_ok L xs [] (k\<lparr>k_sched := u\<rparr>)" "queue_step (set xs) ?t u"
    using lift_pick_spec [OF ok2] unfolding pk by auto
  have cu: "current_process u = ?c" using u(3) by (simp add: queue_step_def)
  have du: "dormant d" if "x \<in> set xs" "pcbs u x = Some d" for x d
  proof -
    have "map_option dormant (pcbs u x) = map_option dormant (pcbs ?t x)"
      using u(3) by (intro links_only_field [of "set xs"]) (simp_all add: queue_step_def dormant_def)
    then show ?thesis using that dm by (cases "pcbs ?t x") auto
  qed
  obtain e where e: "pcbs u ?c = Some e" using u(2) c cu by (auto simp: kernel_ok_def)
  obtain f where f: "pcbs ?t ?c = Some f" using ok2 c by (auto simp: kernel_ok_def)
  let ?v = "u\<lparr>pcbs := (pcbs u)(?c \<mapsto> e\<lparr>p_ticks_remaining := p_priority e\<rparr>)\<rparr>"
  note te = scheduler_tick_eq [OF reap_nothing [OF z] c ok]
  show ?thesis
  proof (cases "p_ticks_remaining f = 0 \<and> xs \<noteq> []")
    case False
    have "pcb_of ?c (k\<lparr>k_sched := ?t\<rparr>) = Inr f" using f by (simp add: pcb_of_def deref_eq)
    then have "scheduler_tick k = Inr (k\<lparr>k_sched := ?t\<rparr>)" unfolding te Let_def by (simp only: bindR_simps if_not_P [OF False])
    moreover have "runs_alone L xs (k\<lparr>k_sched := ?t\<rparr>)" using r ok2 dm by (simp add: runs_alone_def)
    ultimately show ?thesis by blast
  next
    case True
    then have "scheduler_tick k = Inr (k\<lparr>k_sched := ?v\<rparr>)"
      using te f e u(1) by (simp add: Let_def pcb_of_def deref_eq pcb_update_def lift_sched_def update_def)
    moreover have "kernel_ok L xs [] (k\<lparr>k_sched := ?v\<rparr>)"
      by (rule kernel_ok_same_links [OF u(2)]) (use e cu in \<open>simp_all add: same_links_def\<close>)
    moreover have "dormant d" if "x \<in> set xs" "pcbs ?v x = Some d" for x d
      using that du [of x] e by (auto simp: dormant_def split: if_splits)
    ultimately show ?thesis using r cu by (intro exI [of _ ?v]) (simp add: runs_alone_def)
  qed
qed

interpretation alone: ticking "timer_irq r" "runs_alone L xs" for r L xs
proof
  fix k assume g: "runs_alone L xs k"
  let ?k = "k\<lparr>k_io := k_io k @ [OutB PIC1_CMD 0x20], k_ticks := k_ticks k + 1\<rparr>"
  have "kernel_ok L xs [] ?k" by (rule kernel_ok_same_links [of L xs "[]" k]) (use g in \<open>auto simp: runs_alone_def kernel_ok_def\<close>)
  then have "runs_alone L xs ?k" using g by (simp add: runs_alone_def)
  then obtain s where s: "scheduler_tick ?k = Inr (?k\<lparr>k_sched := s\<rparr>)" "runs_alone L xs (?k\<lparr>k_sched := s\<rparr>)" using tick_alone by blast
  have "timer_irq r k = Inr (?k\<lparr>k_sched := s\<rparr>)"
    using g s(1) by (simp add: timer_irq_def run_irq_def irq_handler_def pit_handler_def runs_alone_def)
  then show "\<exists>k'. timer_irq r k = Inr k' \<and> runs_alone L xs k' \<and> k_ticks k' = k_ticks k + 1 \<and> k_vga k' = k_vga k" using s(2) by simp
qed

text \<open>
  C23: \<open>cmd_sleep\<close> returns. If no other process can run and each \<open>hlt\<close> ends with one
  timer interrupt, every interrupt brings the shell back with one tick more, so the busy wait ends after exactly
  the requested number of ticks - also across a wrap-around of the 32-bit tick counter - and the command then
  prints its message and nothing else.
\<close>

theorem cmd_sleep_terminates:
  assumes "runs_alone L xs k" "2 \<le> length argv"
  shows "\<exists>k' k''. cmd_sleep (timer_irq r) argv k = Inr k'' \<and> runs_alone L xs k' \<and>
    k_ticks k' = k_ticks k + sh_strtoul (argv ! 1) 10 \<and> k_vga k' = k_vga k \<and>
    k'' = color VGA_COLOR_LIGHT_GREY (say '' ticks\<newline>'' (say_int (sh_strtoul (argv ! 1) 10) (say ''slept '' (color VGA_COLOR_LIGHT_GREEN k'))))"
  by (rule alone.cmd_sleep_returns [OF assms])

definition kernel_quiet :: kernel where
  "kernel_quiet = kernel_one\<lparr>k_ticks := 0xFFFFFFFF, k_idt := (k_idt kernel_ex)\<lparr>irq_handlers := Some Pit_handler # replicate 15 None\<rparr>\<rparr>"

lemma kernel_quiet_alone: "runs_alone layout_ex [0x100] kernel_quiet"
proof -
  have "kernel_ok layout_ex [0x100] [] kernel_quiet"
    by (rule kernel_ok_same_links [OF kernel_one_ok(1)]) (simp_all add: kernel_quiet_def kernel_one_def sched_one_def)
  then show ?thesis by (simp add: runs_alone_def kernel_quiet_def kernel_one_def sched_one_def dormant_def pcb_ex_def process_zero_def)
qed

theorem cmd_sleep_terminates_witness:
  "\<forall>r. \<exists>k. cmd_sleep (timer_irq r) [lit ''sleep'', lit ''250''] kernel_quiet = Inr k \<and> k_ticks k = 249"
proof -
  have a: "sh_strtoul (lit ''250'') 10 = 250" by code_simp
  have t: "k_ticks kernel_quiet = 0xFFFFFFFF" by (simp add: kernel_quiet_def)
  show ?thesis
    using cmd_sleep_terminates [OF kernel_quiet_alone, of "[lit ''sleep'', lit ''250'']"]
    by (fastforce simp: a t color_def say_def say_int_def on_vga_def)
qed

end
