(* ===== verification/Boot.thy ===== *)
theory Boot
  imports Commands
begin

text \<open>
  From power-on to the shell: the entry code of \<open>boot/boot.asm\<close> with its Multiboot2 header, and the
  boot sequence of \<open>kernel_main\<close> as a whole.
\<close>

section \<open>Model\<close>

text \<open>The header that the boot loader looks for, as 32-bit words; the last two are the end tag.\<close>

definition MB2_HEADER_MAGIC :: u32 where "MB2_HEADER_MAGIC = 0xE85250D6"
definition MB2_ARCH :: u32 where "MB2_ARCH = 0"
definition MB2_HEADER_LEN :: u32 where "MB2_HEADER_LEN = 24"

definition multiboot_header :: "u32 list" where
  "multiboot_header =
     [MB2_HEADER_MAGIC, MB2_ARCH, MB2_HEADER_LEN, - (MB2_HEADER_MAGIC + MB2_ARCH + MB2_HEADER_LEN), 0, 8]"

text \<open>
  \<open>_start\<close>: the stack, the two arguments and the call; \<open>ret\<close> is the address after the call. \<open>kernel_main\<close>
  finds its arguments above the return address.
\<close>

definition boot_entry :: "layout \<Rightarrow> u32 \<Rightarrow> kernel \<Rightarrow> kernel" where
  "boot_entry L ret k =
     (let cm = ((k_cpu k)\<lparr>r_esp := a_stack_top L\<rparr>, k_ram k);
          cm = push_reg r_ebx cm;
          cm = push_reg r_eax cm;
          (c, m) = push ret cm
      in k\<lparr>k_cpu := c, k_ram := m\<rparr>)"

definition boot_start :: "layout \<Rightarrow> u32 \<Rightarrow> u8 \<Rightarrow> u8 \<Rightarrow> kernel \<Rightarrow> kernel res" where
  "boot_start L ret m1 m2 k =
     (let k = boot_entry L ret k; esp = r_esp (k_cpu k)
      in kernel_main L m1 m2 (load32 (k_ram k) (esp + 4)) (load32 (k_ram k) (esp + 8)) k)"

section \<open>The entry\<close>

lemma boot_entry_args:
  "r_esp (k_cpu (boot_entry L ret k)) = a_stack_top L - 12"
  "load32 (k_ram (boot_entry L ret k)) (a_stack_top L - 8) = r_eax (k_cpu k)"
  "load32 (k_ram (boot_entry L ret k)) (a_stack_top L - 4) = r_ebx (k_cpu k)"
  "r_eax (k_cpu (boot_entry L ret k)) = r_eax (k_cpu k)" "r_ebx (k_cpu (boot_entry L ret k)) = r_ebx (k_cpu k)"
proof -
  let ?c = "(k_cpu k)\<lparr>r_esp := a_stack_top L\<rparr>"
  have "words_at (k_ram k) (r_esp ?c) []" by simp
  from push_frame [OF this, of "r_ebx (k_cpu k)"] obtain m1 where
    m1: "push (r_ebx (k_cpu k)) (?c, k_ram k) = (?c\<lparr>r_esp := a_stack_top L - 4\<rparr>, m1)" "words_at m1 (a_stack_top L - 4) [r_ebx (k_cpu k)]"
    by auto
  from push_frame [of m1 "?c\<lparr>r_esp := a_stack_top L - 4\<rparr>" "[r_ebx (k_cpu k)]" "r_eax (k_cpu k)"] m1(2) obtain m2 where
    m2: "push (r_eax (k_cpu k)) (?c\<lparr>r_esp := a_stack_top L - 4\<rparr>, m1) = (?c\<lparr>r_esp := a_stack_top L - 8\<rparr>, m2)"
      "words_at m2 (a_stack_top L - 8) [r_eax (k_cpu k), r_ebx (k_cpu k)]" by auto
  from push_frame [of m2 "?c\<lparr>r_esp := a_stack_top L - 8\<rparr>" "[r_eax (k_cpu k), r_ebx (k_cpu k)]" ret] m2(2) obtain m3 where
    m3: "push ret (?c\<lparr>r_esp := a_stack_top L - 8\<rparr>, m2) = (?c\<lparr>r_esp := a_stack_top L - 12\<rparr>, m3)"
      "words_at m3 (a_stack_top L - 12) [ret, r_eax (k_cpu k), r_ebx (k_cpu k)]" by auto
  have e: "boot_entry L ret k = k\<lparr>k_cpu := ?c\<lparr>r_esp := a_stack_top L - 12\<rparr>, k_ram := m3\<rparr>"
    using m1(1) m2(1) m3(1) by (simp add: boot_entry_def push_reg_def)
  show "r_esp (k_cpu (boot_entry L ret k)) = a_stack_top L - 12"
    "load32 (k_ram (boot_entry L ret k)) (a_stack_top L - 8) = r_eax (k_cpu k)"
    "load32 (k_ram (boot_entry L ret k)) (a_stack_top L - 4) = r_ebx (k_cpu k)"
    "r_eax (k_cpu (boot_entry L ret k)) = r_eax (k_cpu k)" "r_ebx (k_cpu (boot_entry L ret k)) = r_ebx (k_cpu k)"
    unfolding e using m3(2) by simp_all
qed

lemma boot_start_calls:
  "boot_start L ret m1 m2 k = kernel_main L m1 m2 (r_eax (k_cpu k)) (r_ebx (k_cpu k)) (boot_entry L ret k)"
proof -
  have "a_stack_top L - 12 + 4 = a_stack_top L - 8" "a_stack_top L - 12 + 8 = a_stack_top L - 4" by simp_all
  then show ?thesis unfolding boot_start_def Let_def boot_entry_args(1) by (simp only: boot_entry_args)
qed

lemma multiboot_header_valid:
  "sum_list (take 4 multiboot_header) = 0" "MB2_HEADER_LEN = of_nat (4 * length multiboot_header)"
  by (simp_all add: multiboot_header_def MB2_HEADER_MAGIC_def MB2_ARCH_def MB2_HEADER_LEN_def)

section \<open>Memory at boot\<close>

lemma stats_loop_returns: "arena m p bs \<Longrightarrow> length bs < fuel \<Longrightarrow> \<exists>st'. stats_loop fuel m p st = Inr st'"
proof (induction bs arbitrary: p fuel st)
  case Nil
  then show ?case by (cases fuel) auto
next
  case (Cons b bs)
  then obtain n where n: "fuel = Suc n" "length bs < n" by (cases fuel) auto
  have p: "p \<noteq> 0" "arena m (blk_next m p) bs" using Cons.prems(1) by auto
  show ?case using Cons.IH [OF p(2) n(2)] p(1) n(1) by (simp add: Let_def)
qed

lemma cmd_heapinfo_returns:
  assumes "heap_ok (k_heap k) (k_ram k)"
  shows "\<exists>v. cmd_heapinfo k = Inr (k\<lparr>k_vga := v\<rparr>)"
proof -
  have "arena (k_ram k) (heap_start (k_heap k)) (heap_blocks (k_heap k) (k_ram k))" "wf_arena (heap_blocks (k_heap k) (k_ram k))"
    using assms by (simp_all add: heap_ok_def heap_inv_def)
  then obtain st where "stats_loop walk_fuel (k_ram k) (heap_start (k_heap k))
      \<lparr>total_blocks = 0, free_blocks = 0, used_blocks = 0, free_bytes = 0, used_bytes = 0\<rparr> = Inr st"
    using stats_loop_returns wf_arena_length by meson
  then show ?thesis unfolding cmd_heapinfo_def kmalloc_print_stats_def Let_def by (simp only: bindR_simps) blast
qed

text \<open>
  What the boot loader and the linker provide: a memory map whose entries do not overlap, page tables and
  the control block of the first process in the image of the kernel, and zeroed variables.
\<close>

definition tables_at :: "layout \<Rightarrow> u32 set" where
  "tables_at L = insert (a_kernel_pd L) (identity_pt (a_identity_pts L) ` {..<8})"

definition boot_image :: "layout \<Rightarrow> u32 \<Rightarrow> mb_tag list \<Rightarrow> kernel \<Rightarrow> bool" where
  "boot_image L info ts k \<longleftrightarrow>
     tags_at (k_ram k) (info + 8) ts \<and> list_all entry_ok (tag_entries ts) \<and> distinct (tag_entries ts) \<and>
     pairwise (\<lambda>x y. entry_frames x \<inter> entry_frames y = {}) (set (tag_entries ts)) \<and>
     identity_layout (a_kernel_pd L) (a_identity_pts L) \<and>
     (\<forall>t \<in> tables_at L. unat t div 4096 \<in> reserved (a_kernel_end L) info) \<and>
     a_idle_pcb L \<noteq> 0 \<and> unat (a_idle_pcb L) div 4096 \<in> reserved (a_kernel_end L) info \<and>
     (\<forall>i. 8 \<le> i \<and> i < 1024 \<longrightarrow> pde (k_ram k) (a_kernel_pd L) i = 0) \<and>
     free_frames (k_pmm k) = 0 \<and> heap_start (k_heap k) = 0 \<and> length (irq_handlers (k_idt k)) = 16 \<and>
     k_sched k = \<lparr>pcbs = Map.empty, next_pid = 0, current_process = 0, proc_table = replicate MAX_PROCESSES 0,
       queue_head = 0, queue_tail = 0, queue_size = 0, zombie_head = 0\<rparr>"

lemma heap_of_pages:
  assumes "heap_inv h m (map page_blk fs)" "\<forall>f \<in> set fs. aligned 4096 f"
  shows "heap_ok h m" "live h m = Map.empty" "heap_bytes h m = {x. x div 4096 \<in> (\<lambda>f. unat f div 4096) ` set fs}"
proof -
  show "heap_ok h m" "live h m = Map.empty" using heap_inv_ok [OF assms(1)] by simp_all
  have "extent (page_blk f) = {x. x div 4096 = unat f div 4096}" if "f \<in> set fs" for f
    using page_blk_extent [of f] assms(2) that by auto
  then show "heap_bytes h m = {x. x div 4096 \<in> (\<lambda>f. unat f div 4096) ` set fs}"
    unfolding heap_bytes_def heap_blocks_eq [OF assms(1)] by auto
qed

lemma boot_memory_spec:
  assumes b: "boot_image L info ts k"
  shows "\<exists>h p m v c fs. boot_memory L info k = Inr (k\<lparr>k_mmu := c, k_heap := h, k_pmm := p, k_ram := m, k_vga := v\<rparr>) \<and>
    mem_ok (a_kernel_pd L) h (free_set p) m \<and> pmm_inv p \<and> live h m = Map.empty \<and>
    heap_bytes h m \<subseteq> {x. x div 4096 \<notin> reserved (a_kernel_end L) info} \<and>
    card (free_set p) = card (avail (tag_entries ts) - reserved (a_kernel_end L) info) - 16 \<and>
    heap_blocks h m = map page_blk fs \<and> length fs = min 16 (card (avail (tag_entries ts) - reserved (a_kernel_end L) info)) \<and>
    cr3 c = a_kernel_pd L \<and> kernel_pd_phys c = a_kernel_pd L \<and> bit (cr0 c) 31 \<and>
    (\<forall>w. translate m (a_kernel_pd L) w =
      (if unat w < 32 * 2 ^ 20 then Some \<lparr>phys_addr = w, can_write = True, can_user = False\<rparr> else None))"
proof -
  let ?kpd = "a_kernel_pd L" and ?R = "reserved (a_kernel_end L) info" and ?A = "avail (tag_entries ts)"
  have I: "identity_layout ?kpd (a_identity_pts L)" and tr: "\<forall>t \<in> tables_at L. unat t div 4096 \<in> ?R"
    and z: "\<And>i. 8 \<le> i \<Longrightarrow> i < 1024 \<Longrightarrow> pde (k_ram k) ?kpd i = 0" and hs: "heap_start (k_heap k) = 0"
    using b by (simp_all add: boot_image_def)
  obtain p where p: "pmm_init (k_ram k) (a_kernel_end L) info (k_pmm k) = Inr p" "free_set p = ?A - ?R" "pmm_inv p"
    using b pmm_init_count [of "k_ram k" info ts "k_pmm k" "a_kernel_end L"] by (auto simp: boot_image_def)
  define m where "m = identity_tables ?kpd (a_identity_pts L) (k_ram k)"
  define c where "c = paging_enable ?kpd ((k_mmu k)\<lparr>kernel_pd_phys := ?kpd\<rparr>)"
  have pg: "\<exists>v'. paging_init ?kpd (a_identity_pts L) (k_mmu k) (k_ram k) v = (c, m, v')" for v
    by (simp add: paging_init_def Let_def m_def c_def)
  have w: "wf_pd m ?kpd" "pd_pages m ?kpd = tables_at L"
    using identity_tables_wf [OF I z] by (simp_all add: m_def pd_pages_def tables_at_def)
  have hz: "0 < HEAP_PAGES" by (simp add: HEAP_PAGES_def)
  obtain fs h p' m' where h: "kmalloc_init HEAP_PAGES (k_heap k) p m = (h, p', m')" "heap_inv h m' (map page_blk fs)"
    "length fs = min (unat HEAP_PAGES) (card (free_set p))" "pmm_inv p'" "free_set p' = free_set p - (\<lambda>f. unat f div 4096) ` set fs"
    "agree {x. x div 4096 \<notin> (\<lambda>f. unat f div 4096) ` set fs} m' m"
    "pages_ok fs (free_set p')" "(\<lambda>f. unat f div 4096) ` set fs \<subseteq> free_set p"
    using kmalloc_init_spec [OF p(3) hs hz, of m] by (elim exE conjE) (rule that)
  let ?H = "(\<lambda>f. unat f div 4096) ` set fs"
  have al: "\<forall>f \<in> set fs. aligned 4096 f" using h(7) by (simp add: pages_ok_def)
  note hp = heap_of_pages [OF h(2) al]
  have HR: "?H \<inter> ?R = {}" using h(8) p(2) by blast
  have pb: "x div 4096 \<in> ?R" if "x \<in> page_bytes t" "t \<in> tables_at L" for x t
  proof -
    have "aligned 4096 t" using w(1) that(2) unfolding w(2) [symmetric] by (auto simp: wf_pd_def pd_pages_def pd_tables_def)
    then show ?thesis using page_bytes_frame [of t x] that tr by simp
  qed
  have ag: "agree (\<Union> (page_bytes ` pd_pages m ?kpd)) m' m"
    by (rule agree_subset [OF h(6)]) (use pb HR in \<open>auto simp: w(2)\<close>)
  have ak: "aligned 4096 ?kpd" using I by (simp add: identity_layout_def)
  note pa = pd_agree [OF ag ak]
  have w': "wf_pd m' ?kpd" "pd_pages m' ?kpd = tables_at L" using pa(3,4) w by (simp_all add: pd_pages_def)
  have fp: "free_set p' \<subseteq> {1..<32768}" using pmm.frames_range [OF h(4)] by (auto simp: Suc_le_eq)
  have mo: "mem_ok ?kpd h (free_set p') m'"
    unfolding mem_ok_def w'(2) hp(3)
  proof (intro conjI)
    show "heap_ok h m'" "wf_pd m' ?kpd" "free_set p' \<subseteq> {1..<32768}" by (fact hp(1) w'(1) fp)+
    show "\<forall>t \<in> tables_at L. unat t div 4096 \<notin> free_set p'" using tr h(5) p(2) by blast
    show "\<forall>x \<in> {x. x div 4096 \<in> ?H}. x div 4096 \<notin> free_set p'" using h(5) by blast
    show "{x. x div 4096 \<in> ?H} \<inter> \<Union> (page_bytes ` tables_at L) = {}" using pb HR by blast
  qed
  have card: "card (free_set p') = card (?A - ?R) - 16"
  proof -
    have "card ?H = length fs" using h(7) distinct_card [of "map (\<lambda>f. unat f div 4096) fs"] by (simp add: pages_ok_def)
    then show ?thesis unfolding h(5) using card_Diff_subset [OF _ h(8)] h(3) p(2) by (simp add: HEAP_PAGES_def)
  qed
  have t: "translate m' ?kpd u = (if unat u < 32 * 2 ^ 20 then Some \<lparr>phys_addr = u, can_write = True, can_user = False\<rparr> else None)" for u
    using pa(2) identity_tables_translate [OF I z] by (simp add: m_def)
  have cc: "cr3 c = ?kpd" "kernel_pd_phys c = ?kpd" "bit (cr0 c) 31" by (simp_all add: c_def paging_enable_def bit_or_iff)
  obtain v where v: "paging_init ?kpd (a_identity_pts L) (k_mmu k) (k_ram k) (pmm_print_stats p (k_vga k)) = (c, m, v)" using pg by blast
  let ?k = "k\<lparr>k_mmu := c, k_vga := v, k_heap := h, k_pmm := p', k_ram := m'\<rparr>"
  obtain v' where v': "cmd_heapinfo ?k = Inr (?k\<lparr>k_vga := v'\<rparr>)" using cmd_heapinfo_returns [of ?k] hp(1) by auto
  have "boot_memory L info k = Inr (?k\<lparr>k_vga := v'\<rparr>)" using p(1) v h(1) v' by (simp add: boot_memory_def Let_def on_vga_def)
  moreover have "heap_bytes h m' \<subseteq> {x. x div 4096 \<notin> ?R}" unfolding hp(3) using HR by blast
  moreover have "heap_blocks h m' = map page_blk fs" "length fs = min 16 (card (?A - ?R))"
    using heap_blocks_eq [OF h(2)] h(3) p(2) by (simp_all add: HEAP_PAGES_def)
  ultimately show ?thesis using mo h(4) hp(2) card cc t
    by (intro exI [of _ h] exI [of _ p'] exI [of _ m'] exI [of _ v'] exI [of _ c] exI [of _ fs]) simp
qed

section \<open>The first process\<close>

lemma boot_processes:
  assumes s: "k_sched k = \<lparr>pcbs = Map.empty, next_pid = 0, current_process = 0, proc_table = replicate MAX_PROCESSES 0,
       queue_head = 0, queue_tail = 0, queue_size = 0, zombie_head = 0\<rparr>" and i: "a_idle_pcb L \<noteq> 0"
  shows "\<exists>s b v. scheduler_init (process_init L k) = Inr (k\<lparr>k_sched := s, k_vga := v\<rparr>) \<and>
    pcbs s = [a_idle_pcb L \<mapsto> b] \<and> p_pid b = 0 \<and> p_state b = PROCESS_RUNNING \<and> p_next b = 0 \<and> p_cr3 b = kernel_pd_phys (k_mmu k) \<and>
    next_pid s = 1 \<and> current_process s = a_idle_pcb L \<and> proc_table s = a_idle_pcb L # replicate 15 0 \<and>
    queue_head s = a_idle_pcb L \<and> queue_tail s = a_idle_pcb L \<and> queue_size s = 1 \<and> zombie_head s = 0"
proof -
  have t: "proc_table_add p u = (True, u\<lparr>proc_table := p # replicate 15 0\<rparr>)" if "proc_table u = replicate MAX_PROCESSES 0" for p u
    using that by (simp add: proc_table_add_def MAX_PROCESSES_def numeral_eq_Suc)
  define b where "b = process_zero\<lparr>p_pid := 0, p_parent_pid := 0, p_priority := 0, p_ticks_remaining := 1, p_sleep_ticks := 0,
    p_exit_code := 0, p_name := kstrncpy (lit ''idle'') 32, p_esp := 0, p_kernel_stack_top := a_stack_top L,
    p_cr3 := kernel_pd_phys (k_mmu k), p_next := 0, p_state := PROCESS_RUNNING\<rparr>"
  define u where "u = \<lparr>pcbs = [a_idle_pcb L \<mapsto> b], next_pid = 1, current_process = a_idle_pcb L,
    proc_table = a_idle_pcb L # replicate 15 0, queue_head = a_idle_pcb L, queue_tail = a_idle_pcb L, queue_size = 1, zombie_head = 0\<rparr>"
  obtain v where "scheduler_init (process_init L k) = Inr (k\<lparr>k_sched := u, k_vga := v\<rparr>)"
    unfolding process_init_def scheduler_init_def Let_def u_def b_def
    by (simp add: s i t process_current_def scheduler_enqueue_def lift_sched_def pcb_update_def update_def on_vga_def)
  then show ?thesis by (intro exI [of _ u] exI [of _ b] exI [of _ v]) (simp add: u_def b_def)
qed

lemma first_process_ok:
  assumes s: "pcbs s = [i \<mapsto> b]" "p_pid b = 0" "p_next b = 0" "next_pid s = 1" "proc_table s = i # replicate 15 0"
    "queue_head s = i" "queue_tail s = i" "queue_size s = 1" "zombie_head s = 0" and i: "i \<noteq> 0"
  shows "lists_ok s [i] []" "table_ok s" "fresh_pid s"
  using assms by (auto simp: lists_ok_def run_queue_def zombies_def table_ok_def fresh_pid_def MAX_PROCESSES_def pid_of_def inj_on_def)

text \<open>The rest of the boot sequence changes nothing that the memory and the processes depend on.\<close>

lemma boot_console_vga: "\<exists>v. boot_console k = k\<lparr>k_vga := v\<rparr>"
  by (simp add: boot_console_def color_def say_def on_vga_def Let_def) blast

lemma idt_set_gate_handlers [simp]: "irq_handlers (idt_set_gate n b sel fl s) = irq_handlers s"
  by (simp add: idt_set_gate_def Let_def)

lemma fold_gates_handlers [simp]: "irq_handlers (fold (\<lambda>i. idt_set_gate (n i) (b i) sel fl) js s) = irq_handlers s"
  by (induction js arbitrary: s) auto

lemma boot_tables_image:
  assumes b: "boot_image L info ts k"
  shows "\<exists>k'. boot_console (boot_tables L m1 m2 k) = k' \<and> boot_image L info ts k' \<and> k_fs k' = k_fs k \<and> k_ticks k' = k_ticks k"
proof -
  obtain v where v: "boot_console (boot_tables L m1 m2 k) = (boot_tables L m1 m2 k)\<lparr>k_vga := v\<rparr>" using boot_console_vga by blast
  show ?thesis unfolding v using b
    by (simp add: boot_tables_def idt_init_def idt_flush_def on_vga_def Let_def boot_image_def irq_register_def)
qed

lemma boot_spec:
  assumes b: "boot_image L (r_ebx (k_cpu k)) ts (boot_entry L ret k)" and g: "r_eax (k_cpu k) = MULTIBOOT2_MAGIC"
  shows "\<exists>k'. boot_start L ret m1 m2 k = Inr k' \<and> runs_alone L [a_idle_pcb L] k' \<and> fresh_pid (k_sched k') \<and>
    current_process (k_sched k') = a_idle_pcb L \<and> pid_of (k_sched k') (a_idle_pcb L) = Some 0 \<and>
    live (k_heap k') (k_ram k') = Map.empty \<and>
    card (free_set (k_pmm k')) = card (avail (tag_entries ts) - reserved (a_kernel_end L) (r_ebx (k_cpu k))) - 16 \<and>
    cr3 (k_mmu k') = a_kernel_pd L \<and> bit (cr0 (k_mmu k')) 31 \<and>
    (\<forall>w. translate (k_ram k') (cr3 (k_mmu k')) w =
      (if unat w < 32 * 2 ^ 20 then Some \<lparr>phys_addr = w, can_write = True, can_user = False\<rparr> else None)) \<and>
    (\<exists>fs. heap_blocks (k_heap k') (k_ram k') = map page_blk fs \<and>
      length fs = min 16 (card (avail (tag_entries ts) - reserved (a_kernel_end L) (r_ebx (k_cpu k)))) \<and>
      proc_table (k_sched k') = a_idle_pcb L # replicate 15 0)"
proof -
  let ?info = "r_ebx (k_cpu k)"
  obtain k0 where k0: "boot_console (boot_tables L m1 m2 (boot_entry L ret k)) = k0" "boot_image L ?info ts k0"
    using boot_tables_image [OF b] by blast
  obtain h p m v c fs where m: "boot_memory L ?info k0 = Inr (k0\<lparr>k_mmu := c, k_heap := h, k_pmm := p, k_ram := m, k_vga := v\<rparr>)"
    "mem_ok (a_kernel_pd L) h (free_set p) m" "pmm_inv p" "live h m = Map.empty"
    "heap_bytes h m \<subseteq> {x. x div 4096 \<notin> reserved (a_kernel_end L) ?info}"
    "card (free_set p) = card (avail (tag_entries ts) - reserved (a_kernel_end L) ?info) - 16"
    "heap_blocks h m = map page_blk fs" "length fs = min 16 (card (avail (tag_entries ts) - reserved (a_kernel_end L) ?info))"
    "cr3 c = a_kernel_pd L" "kernel_pd_phys c = a_kernel_pd L" "bit (cr0 c) 31"
    "\<forall>w. translate m (a_kernel_pd L) w =
      (if unat w < 32 * 2 ^ 20 then Some \<lparr>phys_addr = w, can_write = True, can_user = False\<rparr> else None)"
    using boot_memory_spec [OF k0(2)] by (elim exE conjE) (rule that)
  let ?k1 = "k0\<lparr>k_mmu := c, k_heap := h, k_pmm := p, k_ram := m, k_vga := v\<rparr>"
  have i: "a_idle_pcb L \<noteq> 0" "unat (a_idle_pcb L) div 4096 \<in> reserved (a_kernel_end L) ?info" "length (irq_handlers (k_idt k0)) = 16"
    "k_sched ?k1 = \<lparr>pcbs = Map.empty, next_pid = 0, current_process = 0, proc_table = replicate MAX_PROCESSES 0,
       queue_head = 0, queue_tail = 0, queue_size = 0, zombie_head = 0\<rparr>" using k0(2) by (simp_all add: boot_image_def)
  obtain s bk u where s: "scheduler_init (process_init L ?k1) = Inr (?k1\<lparr>k_sched := s, k_vga := u\<rparr>)" "pcbs s = [a_idle_pcb L \<mapsto> bk]"
    "p_pid bk = 0" "p_state bk = PROCESS_RUNNING" "p_next bk = 0" "next_pid s = 1" "current_process s = a_idle_pcb L"
    "proc_table s = a_idle_pcb L # replicate 15 0" "queue_head s = a_idle_pcb L" "queue_tail s = a_idle_pcb L" "queue_size s = 1" "zombie_head s = 0"
    using boot_processes [OF i(4,1)] by (elim exE conjE) (rule that)
  note l = first_process_ok [OF s(2,3,5,6,8-12) i(1)]
  have "\<exists>k'. boot_start L ret m1 m2 k = Inr k' \<and> k_sched k' = s \<and> k_heap k' = h \<and> k_pmm k' = p \<and> k_ram k' = m \<and> k_mmu k' = c \<and>
      irq_handlers (k_idt k') ! 0 = Some Pit_handler"
    using g k0(1) m(1) s(1) i(3)
    by (simp add: boot_start_calls kernel_main_def pit_init_def irq_register_def Let_def on_vga_def debug_print_def shell_start_def
        print_prompt_def say_def color_def)
  then obtain k' where k': "boot_start L ret m1 m2 k = Inr k'" "k_sched k' = s" "k_heap k' = h" "k_pmm k' = p" "k_ram k' = m" "k_mmu k' = c"
    "irq_handlers (k_idt k') ! 0 = Some Pit_handler" by blast
  have "kernel_ok L [a_idle_pcb L] [] k'"
    unfolding kernel_ok_def k' using m(2,3,5) l s(2,7) i(2) by auto
  then have "runs_alone L [a_idle_pcb L] k'" using k' s(2,4,7) i(1) by (simp add: runs_alone_def dormant_def)
  moreover have "pid_of s (a_idle_pcb L) = Some 0" using s(2,3) by (simp add: pid_of_def)
  ultimately show ?thesis using k' l(3) s(7,8) m by (intro exI [of _ k'] conjI exI [of _ fs]) simp_all
qed

text \<open>
  C12: The kernel boots. Started by a Multiboot2 loader with a memory map whose entries do not overlap,
  \<open>_start\<close> passes the loader's registers to \<open>kernel_main\<close>, which returns to the point where the shell takes
  over, with the kernel invariant established: paging is on and maps the first 32 MB to themselves and nothing
  else, the heap is empty and apart from the page tables, the free frames are as many as the memory map has
  outside the kernel image and the boot information, less the 16 of the heap, the shell's process runs alone as
  process 0 on the run queue, and the timer interrupt has its handler, so that a sleeping shell is woken. Any other magic
  number stops the boot with a panic.
\<close>

theorem kernel_boots:
  assumes b: "boot_image L (r_ebx (k_cpu k)) ts (boot_entry L ret k)"
  shows "if r_eax (k_cpu k) = MULTIBOOT2_MAGIC
    then \<exists>k'. boot_start L ret m1 m2 k = Inr k' \<and> runs_alone L [a_idle_pcb L] k' \<and> fresh_pid (k_sched k') \<and>
      current_process (k_sched k') = a_idle_pcb L \<and> pid_of (k_sched k') (a_idle_pcb L) = Some 0 \<and>
      live (k_heap k') (k_ram k') = Map.empty \<and>
      card (free_set (k_pmm k')) = card (avail (tag_entries ts) - reserved (a_kernel_end L) (r_ebx (k_cpu k))) - 16 \<and>
      cr3 (k_mmu k') = a_kernel_pd L \<and> bit (cr0 (k_mmu k')) 31 \<and>
      (\<forall>w. translate (k_ram k') (cr3 (k_mmu k')) w =
        (if unat w < 32 * 2 ^ 20 then Some \<lparr>phys_addr = w, can_write = True, can_user = False\<rparr> else None))
    else boot_start L ret m1 m2 k = Inl (Panic ''Not booted by a Multiboot2 bootloader!'')"
proof (cases "r_eax (k_cpu k) = MULTIBOOT2_MAGIC")
  case False
  then show ?thesis by (simp add: boot_start_calls kernel_main_def)
next
  case True
  obtain k' where "boot_start L ret m1 m2 k = Inr k'" "runs_alone L [a_idle_pcb L] k'" "fresh_pid (k_sched k')"
    "current_process (k_sched k') = a_idle_pcb L" "pid_of (k_sched k') (a_idle_pcb L) = Some 0" "live (k_heap k') (k_ram k') = Map.empty"
    "card (free_set (k_pmm k')) = card (avail (tag_entries ts) - reserved (a_kernel_end L) (r_ebx (k_cpu k))) - 16"
    "cr3 (k_mmu k') = a_kernel_pd L" "bit (cr0 (k_mmu k')) 31"
    "\<forall>w. translate (k_ram k') (cr3 (k_mmu k')) w =
      (if unat w < 32 * 2 ^ 20 then Some \<lparr>phys_addr = w, can_write = True, can_user = False\<rparr> else None)"
    using boot_spec [OF b True, of m1 m2] by (elim exE conjE) (rule that)
  then show ?thesis unfolding if_P [OF True] by (intro exI [of _ k'] conjI)
qed

text \<open>A machine with 2.6 MB of memory and a kernel of 1 MB, the boot information at \<open>0x10000\<close>.\<close>

definition layout_boot :: layout where
  "layout_boot = layout_ex\<lparr>a_kernel_end := 0x20A000\<rparr>"

definition kernel_off :: kernel where
  "kernel_off = kernel_ex\<lparr>k_ram := boot_mem_ex, k_pmm := pmm_zero, k_heap := \<lparr>heap_start = 0, heap_total_bytes = 0\<rparr>,
     k_sched := \<lparr>pcbs = Map.empty, next_pid = 0, current_process = 0, proc_table = replicate MAX_PROCESSES 0,
       queue_head = 0, queue_tail = 0, queue_size = 0, zombie_head = 0\<rparr>,
     k_cpu := cpu_ex\<lparr>r_eax := MULTIBOOT2_MAGIC, r_ebx := 0x10000\<rparr>\<rparr>"

lemma kernel_off_entry:
  "boot_entry layout_boot ret kernel_off = kernel_off\<lparr>k_cpu := cpu_ex\<lparr>r_eax := MULTIBOOT2_MAGIC, r_ebx := 0x10000, r_esp := 0x13FFF4\<rparr>,
     k_ram := store32 0x13FFF4 ret (store32 0x13FFF8 MULTIBOOT2_MAGIC (store32 0x13FFFC 0x10000 boot_mem_ex))\<rparr>"
  by (simp add: boot_entry_def kernel_off_def push_reg_def push_def layout_boot_def layout_ex_def)

lemma kernel_off_tags:
  "tags_at (store32 0x13FFF4 ret (store32 0x13FFF8 x (store32 0x13FFFC y boot_mem_ex))) (0x10000 + 8) [MmapTag boot_entries_ex]"
  by (simp add: tags_at.simps boot_entries_ex_def boot_mem_ex_def mem_simps tag_type_def tag_size_def mmap_entry_size_def
     entry_base_addr_def entry_length_def entry_mem_type_def load64_def next_tag_def)

lemma kernel_off_pde:
  assumes "i < 1024"
  shows "pde (store32 0x13FFF4 ret (store32 0x13FFF8 x (store32 0x13FFFC y boot_mem_ex))) 0x200000 i = 0"
proof -
  let ?X = "{0x200000..<0x201000 :: nat}"
  have s: "agree ?X (store32 a v m) (\<lambda>_. 0)" if "aligned 4 a" "unat a + 4 \<le> 0x200000" "agree ?X m (\<lambda>_. 0)" for a v m
    using that by (intro agree_trans [OF agree_store32 that(3)]) auto
  have "agree ?X (store32 0x13FFF4 ret (store32 0x13FFF8 x (store32 0x13FFFC y boot_mem_ex))) (\<lambda>_. 0)"
    unfolding boot_mem_ex_def by (intro s) (simp_all add: aligned_def)
  then have "pde (store32 0x13FFF4 ret (store32 0x13FFF8 x (store32 0x13FFFC y boot_mem_ex))) 0x200000 i = pde (\<lambda>_. 0) 0x200000 i"
    unfolding pde_def using assms by (intro agree_entry) (auto simp: aligned_def page_bytes_def unat_of_nat_1024)
  then show ?thesis by (simp add: zero_pde)
qed

lemma kernel_off_image: "boot_image layout_boot 0x10000 [MmapTag boot_entries_ex] (boot_entry layout_boot ret kernel_off)"
proof -
  have k: "a_kernel_pd layout_boot = 0x200000" "a_identity_pts layout_boot = 0x201000" "a_idle_pcb layout_boot = 0x100" "a_kernel_end layout_boot = 0x20A000"
    by (simp_all add: layout_boot_def layout_ex_def)
  have e: "list_all entry_ok boot_entries_ex" "distinct boot_entries_ex" "pairwise (\<lambda>x y. entry_frames x \<inter> entry_frames y = {}) (set boot_entries_ex)"
    by (simp_all add: boot_entries_ex_def entry_ok_def pairwise_insert boot_entries_ex_frames disjoint_iff)
  have r: "f \<in> reserved 0x20A000 0x10000" if "f \<le> 522" for f using that by (simp add: reserved_def PAGE_SIZE_def)
  have t: "unat t div 4096 \<in> reserved 0x20A000 0x10000" if "t \<in> tables_at layout_boot" for t
    using that unat_identity_pt [OF kernel_layout_ex] by (intro r) (auto simp: tables_at_def k)
  have o: "free_frames (k_pmm kernel_off) = 0" "heap_start (k_heap kernel_off) = 0" "length (irq_handlers (k_idt kernel_off)) = 16"
    "k_sched kernel_off = \<lparr>pcbs = Map.empty, next_pid = 0, current_process = 0, proc_table = replicate MAX_PROCESSES 0,
       queue_head = 0, queue_tail = 0, queue_size = 0, zombie_head = 0\<rparr>"
    by (simp_all add: kernel_off_def pmm_zero_def kernel_ex_def)
  show ?thesis unfolding boot_image_def kernel_off_entry k
    using kernel_off_tags kernel_off_pde e t kernel_layout_ex o by (simp add: r)
qed

lemma kernel_off_frames: "card (avail boot_entries_ex - reserved 0x20A000 0x10000) = 245"
proof -
  have "avail boot_entries_ex - reserved 0x20A000 0x10000 = {523..<768}"
    by (auto simp: avail_def boot_entries_ex_def boot_entries_ex_frames reserved_def PAGE_SIZE_def)
  then show ?thesis by simp
qed

theorem kernel_boots_witness:
  "\<forall>ret m1 m2. \<exists>k'. boot_start layout_boot ret m1 m2 kernel_off = Inr k' \<and> runs_alone layout_boot [0x100] k' \<and>
     card (free_set (k_pmm k')) = 229"
proof (intro allI)
  fix ret m1 m2
  have c: "r_ebx (k_cpu kernel_off) = 0x10000" "r_eax (k_cpu kernel_off) = MULTIBOOT2_MAGIC" "a_idle_pcb layout_boot = 0x100"
    "a_kernel_end layout_boot = 0x20A000" by (simp_all add: kernel_off_def layout_boot_def layout_ex_def)
  have "card (avail boot_entries_ex - reserved 0x20A000 0x10000) - 16 = 229" using kernel_off_frames by simp
  then show "\<exists>k'. boot_start layout_boot ret m1 m2 kernel_off = Inr k' \<and> runs_alone layout_boot [0x100] k' \<and> card (free_set (k_pmm k')) = 229"
    using kernel_boots [of layout_boot kernel_off "[MmapTag boot_entries_ex]" ret m1 m2] kernel_off_image [of ret] c by auto
qed

end
