(* ===== verification/Spec2Isabelle.thy ===== *)
theory Spec2Isabelle
  imports Prelude Vga Pmm Kmalloc Paging Gdt Idt Keyboard Ramfs Elf Cpu Process Scheduler Syscall Trap Shell Lifecycle
    Commands Boot
begin

text \<open>
  A verification of StakOS, a small 32-bit x86 kernel in C and assembly.

  \<^bold>\<open>The program.\<close> A Multiboot2 loader enters \<open>_start\<close> (\<open>boot/boot.asm\<close>), which calls \<open>kernel_main\<close>
  (\<open>kernel/kernel.c\<close>). It sets up the console, segments and interrupt gates, the frame allocator, the page tables, the
  heap, the process table and the scheduler, the timer, the keyboard and the file table, and then runs the shell as
  process 0. The shell creates processes from ELF images; the timer interrupt preempts, wakes and reaps them; they call
  the kernel through \<open>int 0x80\<close>.

  \<^bold>\<open>Common ground.\<close> \<open>Prelude\<close> fixes words of the widths of the C types (\<open>u8\<close> to \<open>u64\<close>, wrapping), the
  physical memory \<open>mem\<close> as a function from 32-bit addresses to bytes with little-endian accessors, and the result type
  \<open>'a res\<close>: \<open>Inl\<close> is a halt of the machine (\<open>kpanic\<close>, an access through a bad pointer, a page fault, a call that
  never returns), \<open>Inr\<close> a normal return. Block headers of the heap, page tables, stacks, boot information and ELF images
  are bytes of this memory at the offsets of the C structures. Process control blocks are records in a store indexed by
  their address (\<open>pcbs\<close> of \<open>sched\<close>), since nothing but the C fields reads them; their space on the heap is still
  allocated and freed in the memory. Writes to ports are a log; values read from ports are arguments.

  \<^bold>\<open>Theories and sources.\<close>
  \<^item> \<open>Vga\<close>: \<open>kernel/vga.c\<close>, record \<open>vga\<close>. The cursor stays on the screen; text and numbers are printed right.
  \<^item> \<open>Pmm\<close>: \<open>kernel/pmm.c\<close>, record \<open>pmm\<close>. \<open>free_set\<close> abstracts the bitmap, \<open>pmm_inv\<close> is the invariant; the boot
    time walk over the memory map frees exactly the available frames outside the reserved ones; allocation is first fit. The
    contract is the locale \<open>frame_allocator\<close>, interpreted as \<open>pmm\<close>.
  \<^item> \<open>Kmalloc\<close>: \<open>mm/kmalloc.c\<close>. \<open>heap_blocks\<close> abstracts the linked headers to a list of blocks, \<open>live\<close> to the live
    objects; \<open>heap_ok\<close> is the invariant. The operations refine first fit with splitting and merging on the list. The
    contract is the locale \<open>object_heap\<close>, interpreted as \<open>kheap\<close>.
  \<^item> \<open>Paging\<close>: \<open>kernel/paging.c\<close>. \<open>translate\<close> is the walk of the processor; \<open>wf_pd\<close>, \<open>pd_pages\<close> and \<open>owned\<close>
    describe well-formed directories and what they own. Mapping adds exactly one page, leaves other address spaces
    alone, and freeing gives back everything an address space took.
  \<^item> \<open>Gdt\<close>, \<open>Idt\<close>: \<open>kernel/gdt.c\<close>, \<open>kernel/idt.c\<close>, \<open>boot/gdt_flush.asm\<close>. The descriptors as the processor
    decodes them.
  \<^item> \<open>Keyboard\<close>, \<open>Ramfs\<close>, \<open>Elf\<close>: \<open>drivers/keyboard.c\<close>, \<open>kernel/ramfs.c\<close>, \<open>kernel/elf.c\<close>. The ring buffer is a
    bounded queue (locale \<open>char_queue\<close>, interpreted as \<open>kbd\<close>); registered files are found; a loaded image is in the
    address space byte by byte, if its segments share no page and lie above the first 32 MB (\<open>in_window\<close> says when the
    loader's pointers are physical addresses, and that loading keeps it so).
  \<^item> \<open>Cpu\<close>: \<open>boot/context_switch.asm\<close>, \<open>boot/usermode.asm\<close>, \<open>boot/isr.asm\<close>, instruction by instruction on a record
    of registers and the memory, with the processor's own part of interrupts and \<open>iret\<close>. The stubs save \<open>ds\<close> alone, so
    a trap gives \<open>es\<close>, \<open>fs\<close> and \<open>gs\<close> back as copies of it (\<open>segs_from_ds\<close>); everything else is restored.
  \<^item> \<open>Process\<close>: tables and queues of \<open>kernel/process.c\<close> and \<open>kernel/scheduler.c\<close>. \<open>run_queue s xs\<close> and
    \<open>zombies s zs\<close> abstract the linked lists; the queue is round robin (locale \<open>ready_queue\<close>, interpreted as \<open>rq\<close>) and
    sleepers wake in time.
  \<^item> \<open>Scheduler\<close>: the record \<open>kernel\<close> of the whole state, creation, exit and release of processes, the switch, the
    timer (\<open>kernel/pit.c\<close>) and \<open>layout\<close>, the record of link addresses. \<open>kernel_ok L xs zs k\<close> is the invariant of the
    kernel with run queue \<open>xs\<close> and zombies \<open>zs\<close>. Creation is all or nothing.
  \<^item> \<open>Lifecycle\<close>: reaping, ticks and exits as a whole. \<open>reapable\<close> adds to the invariant that zombies own disjoint
    frames and heap objects; \<open>stack_apart\<close> that the switch has room on the running stack. \<open>after_tick\<close> says what a
    tick makes of every control block. Frames mapped below 32 MB lie in shared tables; no process owns them, and
    nothing frees them.
  \<^item> \<open>Syscall\<close>, \<open>Trap\<close>: \<open>kernel/syscall.c\<close>, \<open>kernel/syscall_wrapper.h\<close>, \<open>userland/test_prog.c\<close>, and the whole path
    of a trap through \<open>boot/isr.asm\<close> into the C handlers and back.
  \<^item> \<open>Shell\<close>, \<open>Commands\<close>: \<open>shell/\<close> and \<open>kernel/kernel.c\<close>. All commands, the dispatcher, the line editor as a step
    function with the step relation \<open>shell_reads\<close>, and the boot sequence. The locale \<open>ticking\<close>, interpreted as \<open>alone\<close>,
    is what a busy wait needs of the timer interrupt.
  \<^item> \<open>Boot\<close>: \<open>boot/boot.asm\<close>; booting establishes \<open>kernel_ok\<close>. The theorem below composes boot, creation and reaping.

  \<^bold>\<open>Conventions.\<close> An operation that switches processes returns the state in which the new process continues; that the old
  one continues unharmed when it is switched back to is the subject of \<open>Cpu\<close>. Code between \<open>cli\<close> and the restored
  flags is one step. Pointers that the kernel dereferences itself are physical addresses: this is the processor's view as
  long as the identity map of the first 32 MB is intact and all frames in use lie below 32 MB, as with the 32 MB of
  memory the emulator is started with. User buffers of system calls go through \<open>translate\<close> with the directory in CR3.
  Parameters of the model are the link addresses, the interrupt masks read back from the controllers (\<open>m1\<close>, \<open>m2\<close>), the
  return address of the first call (\<open>ret\<close>), and \<open>hlt\<close>, what happens while the processor waits for an interrupt.

  \<^bold>\<open>Loops.\<close> Walks along linked lists carry the fuel \<open>walk_fuel\<close> of 2 to the power of 32, more than there are addresses: a
  list without a cycle has fewer nodes, so a walk that runs out of fuel (the value \<open>NoReturn\<close>) is one that never ends. The
  invariants exclude it, and the theorems state that the operations return. The loop over the pages of a segment
  has the extra guard that the next address does not wrap, which its condition implies for page-aligned bounds. The busy wait of \<open>sleep\<close> is a partial
  function, shown in \<open>Commands\<close> to return. All other loops are structural recursions over their bounds.

  \<^bold>\<open>Not modelled.\<close> The inline assembly of \<open>kernel/io.h\<close> beyond the log of writes; the translation cache of the processor
  and its invalidation; the boot loader, the link scripts and build files; the embedding of the compiled test program
  (\<open>boot/test_prog_blob.asm\<close>), whose address and size are link addresses and whose source is modelled as the sequence of its
  system calls; \<open>idle_task\<close>, which nothing calls; the loops around \<open>hlt\<close> after a panic. Interrupts arrive between
  operations, not inside the stretches of a C function that run with interrupts enabled. Memory that compiled C code uses
  for its own stack frames is not represented.
\<close>

section \<open>From power-on to the release of a process\<close>

lemma first_object:
  assumes "heap_ok h m" "heap_blocks h m = map page_blk fs" "fs \<noteq> []"
  shows "\<exists>p m'. kmalloc h sizeof_process m = Inr (p, m') \<and> p \<noteq> 0"
proof -
  obtain f gs where f: "fs = f # gs" using assms(3) by (cases fs) auto
  have i: "heap_inv h m (page_blk f # map page_blk gs)" using assms(1,2) f by (simp add: heap_ok_def)
  then have "blk_ok (page_blk f)" by (simp add: heap_inv_def wf_arena_Cons)
  then have "unat f + 4096 < 2 ^ 31" by (simp add: blk_ok_def)
  then have "f + 16 \<noteq> 0" by (auto simp: word_unat_eq_iff unat_word_ariths)
  moreover have "\<exists>m'. kmalloc h sizeof_process m = Inr (f + 16, m')"
    using kmalloc_refines [OF i, of sizeof_process] by (auto simp: sizeof_process_def page_blk_def PAGE_SIZE_def BLOCK_HEADER_SIZE_def)
  ultimately show ?thesis by blast
qed

text \<open>
  C11: From power-on to the release of the first process. On a machine that boots with at least 19 available
  frames outside the kernel, the first process that the shell creates is created in full; if it is given up, the next reaping puts
  the kernel back into the state after boot: the same frames are free, the heap is empty, and the shell runs alone.
\<close>

theorem boot_create_reap:
  assumes b: "boot_image L (r_ebx (k_cpu k)) ts (boot_entry L ret k)" "r_eax (k_cpu k) = MULTIBOOT2_MAGIC"
    and n: "19 \<le> card (avail (tag_entries ts) - reserved (a_kernel_end L) (r_ebx (k_cpu k)))"
  shows "\<exists>k0 q k1 k2 k3. boot_start L ret m1 m2 k = Inr k0 \<and>
    process_create L name entry priority k0 = Inr (q, k1) \<and> q \<noteq> 0 \<and> kernel_ok L [a_idle_pcb L, q] [] k1 \<and> created L q entry priority k0 k1 \<and>
    abandon q k1 = Inr (0, k2) \<and> scheduler_reap_zombies k2 = Inr k3 \<and> kernel_ok L [a_idle_pcb L] [] k3 \<and>
    free_set (k_pmm k3) = free_set (k_pmm k0) \<and> live (k_heap k3) (k_ram k3) = Map.empty \<and>
    current_process (k_sched k3) = a_idle_pcb L"
proof -
  obtain k0 fs where k0: "boot_start L ret m1 m2 k = Inr k0" "runs_alone L [a_idle_pcb L] k0" "fresh_pid (k_sched k0)"
    "current_process (k_sched k0) = a_idle_pcb L" "pid_of (k_sched k0) (a_idle_pcb L) = Some 0" "live (k_heap k0) (k_ram k0) = Map.empty"
    "card (free_set (k_pmm k0)) = card (avail (tag_entries ts) - reserved (a_kernel_end L) (r_ebx (k_cpu k))) - 16"
    "heap_blocks (k_heap k0) (k_ram k0) = map page_blk fs" "length fs = min 16 (card (avail (tag_entries ts) - reserved (a_kernel_end L) (r_ebx (k_cpu k))))"
    "proc_table (k_sched k0) = a_idle_pcb L # replicate 15 0"
    using boot_spec [OF b, of m1 m2] by (elim exE conjE) (rule that)
  have ok: "kernel_ok L [a_idle_pcb L] [] k0" using k0(2) by (simp add: runs_alone_def)
  have h: "heap_ok (k_heap k0) (k_ram k0)" using ok by (simp add: kernel_ok_def mem_ok_def)
  have "fs \<noteq> []" using k0(9) n by auto
  then obtain q m where q: "kmalloc (k_heap k0) sizeof_process (k_ram k0) = Inr (q, m)" "q \<noteq> 0" using first_object [OF h k0(8)] by blast
  have c3: "3 \<le> card (free_set (k_pmm k0))" using k0(7) n by simp
  then have ne: "free_set (k_pmm k0) \<noteq> {}" by auto
  have "0 \<in> set (proc_table (k_sched k0))" using k0(10) by simp
  then obtain k1 where k1: "process_create L name entry priority k0 = Inr (q, k1)" "kernel_ok L ([a_idle_pcb L] @ [q]) [] k1" "created L q entry priority k0 k1"
    using process_create_rest [OF ok k0(3) q ne, of name entry priority] c3 by auto
  have pp: "current_pid k0 = Inr 0" "\<not> alive (k_sched k0) 0"
    using k0(4,5) by (auto simp: current_pid_def pcb_of_def deref_def pid_of_def alive_def)
  show ?thesis using create_abandon_reap_spec [OF ok k0(3) pp k1(1) q(2)] k0(1,4,6) k1 q(2) by auto
qed

theorem boot_create_reap_witness:
  "\<forall>ret m1 m2. \<exists>k0 q k1. boot_start layout_boot ret m1 m2 kernel_off = Inr k0 \<and>
     process_create layout_boot (lit ''init'') 0x105000 5 k0 = Inr (q, k1) \<and> kernel_ok layout_boot [0x100, q] [] k1"
proof (intro allI)
  fix ret m1 m2
  have c: "r_ebx (k_cpu kernel_off) = 0x10000" "r_eax (k_cpu kernel_off) = MULTIBOOT2_MAGIC" "a_idle_pcb layout_boot = 0x100"
    "a_kernel_end layout_boot = 0x20A000" by (simp_all add: kernel_off_def layout_boot_def layout_ex_def)
  have n: "19 \<le> card (avail (tag_entries [MmapTag boot_entries_ex]) - reserved (a_kernel_end layout_boot) (r_ebx (k_cpu kernel_off)))"
    using kernel_off_frames c by simp
  show "\<exists>k0 q k1. boot_start layout_boot ret m1 m2 kernel_off = Inr k0 \<and>
     process_create layout_boot (lit ''init'') 0x105000 5 k0 = Inr (q, k1) \<and> kernel_ok layout_boot [0x100, q] [] k1"
    using boot_create_reap [OF _ c(2) n, of ret m1 m2 "lit ''init''" "0x105000" 5] kernel_off_image [of ret] c by auto
qed

end
